(* ===== verification/Prelude.thy ===== *)
theory Prelude
  imports Main "HOL-Library.Word"
begin

text \<open>
  Shared vocabulary of the development: machine integer types, the result type of kernel code
  (a C function that returns, panics, leaves the kernel or runs into undefined behaviour), the
  rounding macros of inc/types.h, chains of link pointers, and the generic lemmas on words and
  chains that the component theories use.
\<close>

unbundle bit_operations_syntax

section \<open>Machine integers\<close>

type_synonym u8 = "8 word"
type_synonym u16 = "16 word"
type_synonym u32 = "32 word"
type_synonym u64 = "64 word"

lemma and_1_zero [simp]: "(w :: 'a :: len word) AND 1 = 0 \<longleftrightarrow> even w"
  by (simp add: and_one_eq even_iff_mod_2_eq_zero)

lemma odd_or_1 [simp]: "odd (w OR 1 :: 'a :: len word)"
  by (simp add: even_or_iff)

section \<open>Outcomes of kernel code\<close>

text \<open>
  A kernel function of the source either returns to its caller or does not. It does not return
  when it panics, when it leaves the kernel for user mode (\<open>env_pop_tf\<close>), when it halts the
  processor (\<open>sched_halt\<close>) or drops into the monitor for good. \<open>Undefined\<close> marks C undefined
  behaviour (a null or out-of-bounds access) that the source can run into.
\<close>

datatype 'st exit =
    Panic string
  | Undefined string
  | ToUser 'st
  | Halted 'st
  | Monitor 'st
  | Waiting 'st

type_synonym ('st, 'a) res = "'st exit + 'a \<times> 'st"

definition bindR :: "'e + 'a \<Rightarrow> ('a \<Rightarrow> 'e + 'b) \<Rightarrow> 'e + 'b" where
  "bindR m f = (case m of Inl e \<Rightarrow> Inl e | Inr x \<Rightarrow> f x)"

lemma bindR_Inl [simp]: "bindR (Inl e) f = Inl e"
  by (simp add: bindR_def)

lemma bindR_Inr [simp]: "bindR (Inr x) f = f x"
  by (simp add: bindR_def)

lemma bindR_eq_Inr: "bindR m f = Inr y \<longleftrightarrow> (\<exists>x. m = Inr x \<and> f x = Inr y)"
  by (simp add: bindR_def split: sum.splits)

lemma bindR_eq_Inl: "bindR m f = Inl e \<longleftrightarrow> m = Inl e \<or> (\<exists>x. m = Inr x \<and> f x = Inl e)"
  by (auto simp: bindR_def split: sum.splits)

lemma bindR_InrE:
  assumes "bindR m f = Inr y"
  obtains x where "m = Inr x" and "f x = Inr y"
  using assms by (auto simp: bindR_eq_Inr)

text \<open>A \<open>for\<close> loop over the elements of a list.\<close>

fun forR :: "('x \<Rightarrow> 'st \<Rightarrow> ('st, unit) res) \<Rightarrow> 'x list \<Rightarrow> 'st \<Rightarrow> ('st, unit) res" where
  "forR f [] s = Inr ((), s)"
| "forR f (x # xs) s = bindR (f x s) (\<lambda>(_, s'). forR f xs s')"

lemma forR_append: "forR f (xs @ ys) s = bindR (forR f xs s) (\<lambda>(_, s'). forR f ys s')"
proof (induction xs arbitrary: s)
  case (Cons x xs)
  then show ?case by (cases "f x s") auto
qed simp

text \<open>
  \<open>keeps P r\<close>: the state satisfies \<open>P\<close> wherever the computation with outcome \<open>r\<close> stops in a state, be it
  at its return or where it leaves the kernel. The rules of the collection \<open>keeps\<close> follow the
  structure of the code.
\<close>

definition keeps :: "('st \<Rightarrow> bool) \<Rightarrow> ('st, 'a) res \<Rightarrow> bool" where
  "keeps P r \<longleftrightarrow> (case r of Inl e \<Rightarrow> \<forall>s \<in> set_exit e. P s | Inr (_, s) \<Rightarrow> P s)"

named_theorems keeps

lemma keeps_simps [simp]:
  "keeps P (Inr (x, s)) = P s" "keeps P (Inl e) = (\<forall>s \<in> set_exit e. P s)"
  by (simp_all add: keeps_def)

lemma keeps_bind [keeps]:
  "keeps P m \<Longrightarrow> (\<And>x s. P s \<Longrightarrow> keeps P (f (x, s))) \<Longrightarrow> keeps P (bindR m f)"
  by (cases m) auto

lemma keeps_bind_strong:
  "keeps P m \<Longrightarrow> (\<And>x t. m = Inr (x, t) \<Longrightarrow> keeps P (f (x, t))) \<Longrightarrow> keeps P (bindR m f)"
  by (cases m) auto

lemma keeps_bind_case:
  "keeps P m \<Longrightarrow> (\<And>x t. P t \<Longrightarrow> keeps P (g x t)) \<Longrightarrow> keeps P (bindR m (case_prod g))"
  by (cases m) auto

lemma bind_leaves:
  assumes "keeps P m" "\<And>x t. P t \<Longrightarrow> keeps Q (g x t) \<and> g x t \<noteq> Inr y" "\<And>t. P t \<Longrightarrow> Q t"
  shows "keeps Q (bindR m (case_prod g)) \<and> bindR m (case_prod g) \<noteq> Inr y"
proof (cases m)
  case (Inl e)
  with assms(1,3) show ?thesis by (auto simp: keeps_def)
qed (use assms in auto)

lemma keeps_weaken: "keeps P r \<Longrightarrow> (\<And>s. P s \<Longrightarrow> Q s) \<Longrightarrow> keeps Q r"
  by (auto simp: keeps_def split: sum.split prod.split)

lemma keeps_if [keeps]: "(b \<Longrightarrow> keeps P m) \<Longrightarrow> (\<not> b \<Longrightarrow> keeps P n) \<Longrightarrow> keeps P (if b then m else n)"
  by simp

lemma keeps_forR: "P s \<Longrightarrow> (\<And>x s. P s \<Longrightarrow> keeps P (f x s)) \<Longrightarrow> keeps P (forR f xs s)"
proof (induction xs arbitrary: s)
  case (Cons x xs)
  then show ?case by (auto intro!: keeps_bind)
qed simp

text \<open>A loop over \<open>a, a + 1, ..., b - 1\<close> with an invariant indexed by the loop variable.\<close>

lemma forR_upt:
  assumes "P a s" and "a \<le> b"
    and "\<And>i t. a \<le> i \<Longrightarrow> i < b \<Longrightarrow> P i t \<Longrightarrow> \<exists>t'. f i t = Inr ((), t') \<and> P (Suc i) t'"
  shows "\<exists>s'. forR f [a..<b] s = Inr ((), s') \<and> P b s'"
proof -
  have "\<exists>s'. forR f [a..<a + n] s = Inr ((), s') \<and> P (a + n) s'" if "a + n \<le> b" for n
    using that
  proof (induction n)
    case (Suc n)
    then obtain t where t: "forR f [a..<a + n] s = Inr ((), t)" "P (a + n) t" by auto
    from assms(3) [OF _ _ t(2)] Suc.prems obtain t' where "f (a + n) t = Inr ((), t')" "P (Suc (a + n)) t'" by auto
    with t show ?case by (simp add: forR_append)
  qed (use assms(1) in simp)
  from this [of "b - a"] assms(2) show ?thesis by simp
qed

section \<open>Error codes (inc/error.h)\<close>

definition E_UNSPECIFIED :: int where [simp]: "E_UNSPECIFIED = 1"
definition E_BAD_ENV :: int where [simp]: "E_BAD_ENV = 2"
definition E_INVAL :: int where [simp]: "E_INVAL = 3"
definition E_NO_MEM :: int where [simp]: "E_NO_MEM = 4"
definition E_NO_FREE_ENV :: int where [simp]: "E_NO_FREE_ENV = 5"
definition E_FAULT :: int where [simp]: "E_FAULT = 6"
definition E_IPC_NOT_RECV :: int where [simp]: "E_IPC_NOT_RECV = 7"
definition E_EOF :: int where [simp]: "E_EOF = 8"
definition E_NO_DISK :: int where [simp]: "E_NO_DISK = 9"
definition E_MAX_OPEN :: int where [simp]: "E_MAX_OPEN = 10"
definition E_NOT_FOUND :: int where [simp]: "E_NOT_FOUND = 11"
definition E_BAD_PATH :: int where [simp]: "E_BAD_PATH = 12"
definition E_FILE_EXISTS :: int where [simp]: "E_FILE_EXISTS = 13"
definition E_NOT_EXEC :: int where [simp]: "E_NOT_EXEC = 14"
definition E_NOT_SUPP :: int where [simp]: "E_NOT_SUPP = 15"

section \<open>Rounding (inc/types.h)\<close>

definition ROUNDDOWN :: "u32 \<Rightarrow> u32 \<Rightarrow> u32" where
  "ROUNDDOWN a n = a - a mod n"

definition ROUNDUP :: "u32 \<Rightarrow> u32 \<Rightarrow> u32" where
  "ROUNDUP a n = ROUNDDOWN (a + n - 1) n"

lemma unat_ROUNDDOWN: "unat (ROUNDDOWN a n) = unat a - unat a mod unat n"
proof -
  have "a mod n \<le> a"
    by (simp add: word_le_nat_alt unat_mod_distrib)
  then show ?thesis
    by (simp add: ROUNDDOWN_def unat_sub unat_mod_distrib)
qed

lemma ROUNDDOWN_le: "ROUNDDOWN a n \<le> a"
  by (simp add: word_le_nat_alt unat_ROUNDDOWN)

lemma unat_ROUNDDOWN_dvd: "unat n dvd unat (ROUNDDOWN a n)"
  by (simp add: unat_ROUNDDOWN dvd_minus_mod)

text \<open>Rounding up is the least multiple above, as long as the addition does not wrap around.\<close>

lemma unat_ROUNDUP:
  assumes n: "0 < unat n" and no_wrap: "unat a + unat n \<le> 2 ^ 32"
  shows "unat (ROUNDUP a n) = (unat a + unat n - 1) div unat n * unat n"
proof -
  have "unat (a + n - 1) = unat a + unat n - 1"
  proof -
    have "unat (a + (n - 1)) = unat a + unat (n - 1)"
      using assms by (intro unat_add_lem [THEN iffD1]) (simp add: unat_sub word_le_nat_alt)
    moreover have "unat (n - 1) = unat n - 1"
      using n by (subst unat_sub) (simp_all add: word_le_nat_alt)
    ultimately show ?thesis
      using n by (simp add: algebra_simps)
  qed
  then show ?thesis
    by (simp add: ROUNDUP_def unat_ROUNDDOWN minus_mod_eq_div_mult)
qed

section \<open>Chains of link pointers\<close>

text \<open>
  The kernel keeps its free lists as singly linked lists threaded through an array
  (\<open>pp_link\<close>, \<open>env_link\<close>). A pointer into the array is an index, the null pointer is None, and
  \<open>links nx p xs\<close> says that following \<open>nx\<close> from \<open>p\<close> visits exactly \<open>xs\<close> and ends at null.
\<close>

primrec links :: "(nat \<Rightarrow> nat option) \<Rightarrow> nat option \<Rightarrow> nat list \<Rightarrow> bool" where
  "links nx p [] \<longleftrightarrow> p = None"
| "links nx p (x # xs) \<longleftrightarrow> p = Some x \<and> links nx (nx x) xs"

lemma links_None [simp]: "links nx None xs \<longleftrightarrow> xs = []"
  by (cases xs) auto

lemma links_Some: "links nx (Some p) xs \<longleftrightarrow> (\<exists>ys. xs = p # ys \<and> links nx (nx p) ys)"
  by (cases xs) auto

lemma links_unique: "links nx p xs \<Longrightarrow> links nx p ys \<Longrightarrow> xs = ys"
  by (induction xs arbitrary: p ys) (auto, case_tac ys, auto)

lemma links_suffix: "links nx p (as @ x # bs) \<Longrightarrow> links nx (nx x) bs"
  by (induction as arbitrary: p) auto

lemma links_not_in_tail:
  assumes "links nx (nx x) xs"
  shows "x \<notin> set xs"
proof
  assume "x \<in> set xs"
  then obtain as bs where xs: "xs = as @ x # bs"
    by (auto simp: in_set_conv_decomp)
  with assms have "links nx (nx x) bs"
    by (auto dest: links_suffix)
  with assms have "xs = bs"
    by (rule links_unique)
  then have "length xs = length bs"
    by simp
  with xs show False
    by simp
qed

lemma links_distinct: "links nx p xs \<Longrightarrow> distinct xs"
  by (induction xs arbitrary: p) (auto dest: links_not_in_tail)

lemma links_upd [simp]: "x \<notin> set xs \<Longrightarrow> links (nx(x := y)) p xs = links nx p xs"
  by (induction xs arbitrary: p) auto

lemma links_cong: "(\<And>x. x \<in> set xs \<Longrightarrow> nx x = nx' x) \<Longrightarrow> links nx p xs = links nx' p xs"
  by (induction xs arbitrary: p) auto

section \<open>Sixteen bit counters\<close>

lemma u16_inc: "(w::u16) \<noteq> 0xFFFF \<Longrightarrow> unat (w + 1) = unat w + 1"
  using unsigned_less [of w, where 'a = nat]
  by (simp add: unat_word_ariths word_unat_eq_iff [of w])

lemma u16_dec: "(w::u16) \<noteq> 0 \<Longrightarrow> unat (w - 1) = unat w - 1"
  by (subst unat_sub) (auto simp: word_le_nat_alt Suc_le_eq unat_gt_0)

section \<open>Free lists\<close>

text \<open>
  The contract of the two free lists of the kernel (\<open>page_free_list\<close> and \<open>env_free_list\<close>): both are
  singly linked through a field of the elements, taken from and returned to at the head.
\<close>

locale free_list =
  fixes hd_of :: "'s \<Rightarrow> nat option"
    and link_of :: "'s \<Rightarrow> nat \<Rightarrow> nat option"
    and pop :: "'s \<Rightarrow> 's"
    and push :: "nat \<Rightarrow> 's \<Rightarrow> 's"
  assumes pop_hd: "hd_of s = Some p \<Longrightarrow> hd_of (pop s) = link_of s p"
    and pop_link: "hd_of s = Some p \<Longrightarrow> q \<noteq> p \<Longrightarrow> link_of (pop s) q = link_of s q"
    and push_hd: "hd_of (push p s) = Some p"
    and push_link: "link_of (push p s) = (link_of s)(p := hd_of s)"
begin

lemma pop_links:
  assumes "links (link_of s) (hd_of s) (p # xs)"
  shows "links (link_of (pop s)) (hd_of (pop s)) xs"
proof -
  from assms have hd: "hd_of s = Some p" and xs: "links (link_of s) (link_of s p) xs"
    by auto
  then have "p \<notin> set xs"
    by (auto dest: links_not_in_tail)
  with hd have "links (link_of (pop s)) (hd_of (pop s)) xs = links (link_of s) (hd_of (pop s)) xs"
    by (intro links_cong) (rule pop_link, auto)
  with hd xs show ?thesis
    by (simp add: pop_hd)
qed

lemma push_links:
  "links (link_of s) (hd_of s) xs \<Longrightarrow> p \<notin> set xs \<Longrightarrow>
    links (link_of (push p s)) (hd_of (push p s)) (p # xs)"
  by (simp add: push_hd push_link)

lemma push_all_links:
  "links (link_of s) (hd_of s) xs \<Longrightarrow> distinct ps \<Longrightarrow> set ps \<inter> set xs = {} \<Longrightarrow>
    links (link_of (foldl (\<lambda>t p. push p t) s ps)) (hd_of (foldl (\<lambda>t p. push p t) s ps)) (rev ps @ xs)"
proof (induction ps arbitrary: s xs)
  case (Cons p ps)
  with Cons.IH [of "push p s" "p # xs"] push_links [of s xs p] show ?case
    by auto
qed simp

end

section \<open>Bounded queues\<close>

text \<open>
  The contract of the ring buffers of the system (the console input buffer, pipes): a store puts
  an element at the end while there is room, a take removes the first one. What a client may
  conclude from the contract, first in first out over any burst that fits, is proved once here.
\<close>

primrec take_n :: "('s \<Rightarrow> 'a \<times> 's) \<Rightarrow> nat \<Rightarrow> 's \<Rightarrow> 'a list \<times> 's" where
  "take_n get 0 s = ([], s)"
| "take_n get (Suc n) s = (let (x, s') = get s; (xs, s'') = take_n get n s' in (x # xs, s''))"

locale bounded_queue =
  fixes put :: "'s \<Rightarrow> 'a \<Rightarrow> 's"
    and get :: "'s \<Rightarrow> 'a \<times> 's"
    and items :: "'s \<Rightarrow> 'a list"
    and inv :: "'s \<Rightarrow> bool"
    and cap :: nat
  assumes put_inv: "inv s \<Longrightarrow> length (items s) < cap \<Longrightarrow> inv (put s x)"
    and put_items: "inv s \<Longrightarrow> length (items s) < cap \<Longrightarrow> items (put s x) = items s @ [x]"
    and get_inv: "inv s \<Longrightarrow> items s = x # xs \<Longrightarrow> inv (snd (get s))"
    and get_first: "inv s \<Longrightarrow> items s = x # xs \<Longrightarrow> fst (get s) = x"
    and get_rest: "inv s \<Longrightarrow> items s = x # xs \<Longrightarrow> items (snd (get s)) = xs"
begin

lemma put_list:
  "inv s \<Longrightarrow> length (items s) + length xs \<le> cap \<Longrightarrow>
    inv (foldl put s xs) \<and> items (foldl put s xs) = items s @ xs"
  by (induction xs arbitrary: s) (auto simp: put_inv put_items)

lemma take_list:
  "inv s \<Longrightarrow> items s = xs @ ys \<Longrightarrow>
    \<exists>s'. take_n get (length xs) s = (xs, s') \<and> inv s' \<and> items s' = ys"
proof (induction xs arbitrary: s)
  case Nil
  then show ?case by simp
next
  case (Cons x xs)
  then have "fst (get s) = x" "inv (snd (get s))" "items (snd (get s)) = xs @ ys"
    by (auto intro: get_first get_inv get_rest)
  with Cons.IH [of "snd (get s)"] show ?case
    by (auto simp: case_prod_beta)
qed

text \<open>A burst that fits comes out in the order it went in, behind what was waiting before.\<close>

lemma burst_fifo:
  assumes "inv s" and "length (items s) + length xs \<le> cap"
  shows "\<exists>s'. take_n get (length (items s) + length xs) (foldl put s xs) = (items s @ xs, s') \<and>
    inv s' \<and> items s' = []"
  using put_list [OF assms] take_list [of "foldl put s xs" "items s @ xs" "[]"] by simp

end

end
