(* ===== verification/CString.thy ===== *)
theory CString
  imports Prelude
begin

text \<open>
  The string and memory routines of lib/string.c, for any memory that bytes can be loaded from and
  stored to: plain memory, or the block cache of the file server, where a load may first bring in a
  page. The routines are loops over pointers. A pointer that advances \<open>2 ^ 32\<close> times has passed every
  address, so a loop that is still going then never ends; a counter of type \<open>int\<close> or \<open>long\<close> that leaves
  its range is undefined behaviour.

  The locale \<open>ram\<close> is the contract of such a memory. Proved in it: what the routines return and store for
  null-terminated strings and for memory ranges. \<open>memset\<close> and \<open>memmove\<close> exist twice in the source, with
  string instructions and as C loops; both are modelled and shown to be the same.
\<close>

unbundle bit_operations_syntax

type_synonym 'st loader = "u32 \<Rightarrow> 'st \<Rightarrow> ('st, u8) res"
type_synonym 'st storer = "u32 \<Rightarrow> u8 \<Rightarrow> 'st \<Rightarrow> ('st, unit) res"

section \<open>Strings\<close>

abbreviation all_addrs :: nat where
  "all_addrs \<equiv> 4294967296"

definition endless :: "('st, 'a) res" where
  "endless = Inl (Undefined ''endless loop'')"

definition int_overflow :: "('st, 'a) res" where
  "int_overflow = Inl (Undefined ''signed overflow'')"

fun strlen_loop :: "'st loader \<Rightarrow> nat \<Rightarrow> u32 \<Rightarrow> nat \<Rightarrow> 'st \<Rightarrow> ('st, nat) res" where
  "strlen_loop rd 0 p n st = int_overflow"
| "strlen_loop rd (Suc k) p n st =
    bindR (rd p st) (\<lambda>(b, st). if b = 0 then Inr (n, st) else strlen_loop rd k (p + 1) (Suc n) st)"

text \<open>The counter of \<open>strlen\<close> overflows when it would count the byte \<open>2 ^ 31\<close>.\<close>

definition strlen :: "'st loader \<Rightarrow> u32 \<Rightarrow> 'st \<Rightarrow> ('st, nat) res" where
  "strlen rd p st = strlen_loop rd 2147483648 p 0 st"

fun strnlen_loop :: "'st loader \<Rightarrow> nat \<Rightarrow> u32 \<Rightarrow> nat \<Rightarrow> 'st \<Rightarrow> ('st, nat) res" where
  "strnlen_loop rd 0 p n st = Inr (n, st)"
| "strnlen_loop rd (Suc k) p n st =
    bindR (rd p st) (\<lambda>(b, st).
      if b = 0 then Inr (n, st)
      else if n = 2147483647 then int_overflow
      else strnlen_loop rd k (p + 1) (Suc n) st)"

definition strnlen :: "'st loader \<Rightarrow> u32 \<Rightarrow> u32 \<Rightarrow> 'st \<Rightarrow> ('st, nat) res" where
  "strnlen rd p sz st = strnlen_loop rd (unat sz) p 0 st"

fun strcpy_loop :: "'st loader \<Rightarrow> 'st storer \<Rightarrow> nat \<Rightarrow> u32 \<Rightarrow> u32 \<Rightarrow> 'st \<Rightarrow> ('st, unit) res" where
  "strcpy_loop rd wr 0 dst src st = endless"
| "strcpy_loop rd wr (Suc k) dst src st =
    bindR (rd src st) (\<lambda>(b, st). bindR (wr dst b st) (\<lambda>(_, st).
      if b = 0 then Inr ((), st) else strcpy_loop rd wr k (dst + 1) (src + 1) st))"

definition strcpy :: "'st loader \<Rightarrow> 'st storer \<Rightarrow> u32 \<Rightarrow> u32 \<Rightarrow> 'st \<Rightarrow> ('st, u32) res" where
  "strcpy rd wr dst src st = bindR (strcpy_loop rd wr all_addrs dst src st) (\<lambda>(_, st). Inr (dst, st))"

definition strcat :: "'st loader \<Rightarrow> 'st storer \<Rightarrow> u32 \<Rightarrow> u32 \<Rightarrow> 'st \<Rightarrow> ('st, u32) res" where
  "strcat rd wr dst src st =
    bindR (strlen rd dst st) (\<lambda>(len, st).
    bindR (strcpy rd wr (dst + of_nat len) src st) (\<lambda>(_, st). Inr (dst, st)))"

fun strncpy_loop :: "'st loader \<Rightarrow> 'st storer \<Rightarrow> nat \<Rightarrow> u32 \<Rightarrow> u32 \<Rightarrow> 'st \<Rightarrow> ('st, unit) res" where
  "strncpy_loop rd wr 0 dst src st = Inr ((), st)"
| "strncpy_loop rd wr (Suc k) dst src st =
    bindR (rd src st) (\<lambda>(b, st). bindR (wr dst b st) (\<lambda>(_, st). bindR (rd src st) (\<lambda>(b, st).
      strncpy_loop rd wr k (dst + 1) (if b \<noteq> 0 then src + 1 else src) st)))"

definition strncpy :: "'st loader \<Rightarrow> 'st storer \<Rightarrow> u32 \<Rightarrow> u32 \<Rightarrow> u32 \<Rightarrow> 'st \<Rightarrow> ('st, u32) res" where
  "strncpy rd wr dst src sz st = bindR (strncpy_loop rd wr (unat sz) dst src st) (\<lambda>(_, st). Inr (dst, st))"

text \<open>The loop of \<open>strlcpy\<close> for \<open>k\<close> bytes of room in front of the terminator; it yields the end pointer.\<close>

fun strlcpy_loop :: "'st loader \<Rightarrow> 'st storer \<Rightarrow> nat \<Rightarrow> u32 \<Rightarrow> u32 \<Rightarrow> 'st \<Rightarrow> ('st, u32) res" where
  "strlcpy_loop rd wr 0 dst src st = Inr (dst, st)"
| "strlcpy_loop rd wr (Suc k) dst src st =
    bindR (rd src st) (\<lambda>(b, st).
      if b \<noteq> 0 then bindR (wr dst b st) (\<lambda>(_, st). strlcpy_loop rd wr k (dst + 1) (src + 1) st)
      else Inr (dst, st))"

definition strlcpy :: "'st loader \<Rightarrow> 'st storer \<Rightarrow> u32 \<Rightarrow> u32 \<Rightarrow> u32 \<Rightarrow> 'st \<Rightarrow> ('st, u32) res" where
  "strlcpy rd wr dst src sz st =
    (if sz > 0 then
       bindR (strlcpy_loop rd wr (unat sz - 1) dst src st) (\<lambda>(d, st).
       bindR (wr d 0 st) (\<lambda>(_, st). Inr (d - dst, st)))
     else Inr (0, st))"

text \<open>The two strings of a comparison may be in different memories.\<close>

fun strcmp_loop :: "'st loader \<Rightarrow> 'st loader \<Rightarrow> nat \<Rightarrow> u32 \<Rightarrow> u32 \<Rightarrow> 'st \<Rightarrow> ('st, int) res" where
  "strcmp_loop rd rd' 0 p q st = endless"
| "strcmp_loop rd rd' (Suc k) p q st =
    bindR (rd p st) (\<lambda>(a, st). bindR (rd' q st) (\<lambda>(b, st).
      if a \<noteq> 0 \<and> a = b then strcmp_loop rd rd' k (p + 1) (q + 1) st
      else Inr (uint a - uint b, st)))"

definition strcmp :: "'st loader \<Rightarrow> 'st loader \<Rightarrow> u32 \<Rightarrow> u32 \<Rightarrow> 'st \<Rightarrow> ('st, int) res" where
  "strcmp rd rd' p q st = strcmp_loop rd rd' all_addrs p q st"

fun strncmp_loop :: "'st loader \<Rightarrow> 'st loader \<Rightarrow> nat \<Rightarrow> u32 \<Rightarrow> u32 \<Rightarrow> 'st \<Rightarrow> ('st, int) res" where
  "strncmp_loop rd rd' 0 p q st = Inr (0, st)"
| "strncmp_loop rd rd' (Suc k) p q st =
    bindR (rd p st) (\<lambda>(a, st). bindR (rd' q st) (\<lambda>(b, st).
      if a \<noteq> 0 \<and> a = b then strncmp_loop rd rd' k (p + 1) (q + 1) st
      else Inr (uint a - uint b, st)))"

definition strncmp :: "'st loader \<Rightarrow> 'st loader \<Rightarrow> u32 \<Rightarrow> u32 \<Rightarrow> u32 \<Rightarrow> 'st \<Rightarrow> ('st, int) res" where
  "strncmp rd rd' p q n st = strncmp_loop rd rd' (unat n) p q st"

fun strfind_loop :: "'st loader \<Rightarrow> nat \<Rightarrow> u32 \<Rightarrow> u8 \<Rightarrow> 'st \<Rightarrow> ('st, u32 \<times> u8) res" where
  "strfind_loop rd 0 p c st = endless"
| "strfind_loop rd (Suc k) p c st =
    bindR (rd p st) (\<lambda>(b, st). if b = 0 \<or> b = c then Inr ((p, b), st) else strfind_loop rd k (p + 1) c st)"

text \<open>\<open>strchr\<close> runs the same loop, but a byte that ends the string gives a null pointer.\<close>

definition strchr :: "'st loader \<Rightarrow> u32 \<Rightarrow> u8 \<Rightarrow> 'st \<Rightarrow> ('st, u32) res" where
  "strchr rd p c st =
    bindR (strfind_loop rd all_addrs p c st) (\<lambda>((p, b), st). Inr (if b = 0 then 0 else p, st))"

definition strfind :: "'st loader \<Rightarrow> u32 \<Rightarrow> u8 \<Rightarrow> 'st \<Rightarrow> ('st, u32) res" where
  "strfind rd p c st = bindR (strfind_loop rd all_addrs p c st) (\<lambda>((p, _), st). Inr (p, st))"

text \<open>A string that is in no memory of the model, a local array or a literal: its bytes from the address 0 on.\<close>

definition text_load :: "u8 list \<Rightarrow> 'st loader" where
  "text_load xs p st =
    (if unat p < length xs then Inr (xs ! unat p, st)
     else if unat p = length xs then Inr (0, st)
     else Inl (Undefined ''access past the end of an array''))"

section \<open>Memory\<close>

text \<open>Words as the string instructions move them, four bytes at a time.\<close>

definition load4 :: "'st loader \<Rightarrow> u32 \<Rightarrow> 'st \<Rightarrow> ('st, u8 \<times> u8 \<times> u8 \<times> u8) res" where
  "load4 rd p st =
    bindR (rd p st) (\<lambda>(a, st). bindR (rd (p + 1) st) (\<lambda>(b, st).
    bindR (rd (p + 2) st) (\<lambda>(c, st). bindR (rd (p + 3) st) (\<lambda>(d, st). Inr ((a, b, c, d), st)))))"

definition store4 :: "'st storer \<Rightarrow> u32 \<Rightarrow> u8 \<times> u8 \<times> u8 \<times> u8 \<Rightarrow> 'st \<Rightarrow> ('st, unit) res" where
  "store4 wr p = (\<lambda>(a, b, c, d) st.
    bindR (wr p a st) (\<lambda>(_, st). bindR (wr (p + 1) b st) (\<lambda>(_, st).
    bindR (wr (p + 2) c st) (\<lambda>(_, st). wr (p + 3) d st))))"

text \<open>C code that loads or stores an aligned \<open>uint32_t\<close>.\<close>

definition word_of4 :: "u8 \<times> u8 \<times> u8 \<times> u8 \<Rightarrow> u32" where
  "word_of4 = (\<lambda>(a, b, c, d). ucast a OR push_bit 8 (ucast b) OR push_bit 16 (ucast c) OR push_bit 24 (ucast d))"

definition bytes4 :: "u32 \<Rightarrow> u8 \<times> u8 \<times> u8 \<times> u8" where
  "bytes4 w = (ucast w, ucast (drop_bit 8 w), ucast (drop_bit 16 w), ucast (drop_bit 24 w))"

definition load_word :: "'st loader \<Rightarrow> u32 \<Rightarrow> 'st \<Rightarrow> ('st, u32) res" where
  "load_word rd p st = bindR (load4 rd p st) (\<lambda>(w, st). Inr (word_of4 w, st))"

definition store_word :: "'st storer \<Rightarrow> u32 \<Rightarrow> u32 \<Rightarrow> 'st \<Rightarrow> ('st, unit) res" where
  "store_word wr p w st = store4 wr p (bytes4 w) st"

fun stosb :: "'st storer \<Rightarrow> nat \<Rightarrow> u32 \<Rightarrow> u8 \<Rightarrow> 'st \<Rightarrow> ('st, unit) res" where
  "stosb wr 0 p c st = Inr ((), st)"
| "stosb wr (Suc k) p c st = bindR (wr p c st) (\<lambda>(_, st). stosb wr k (p + 1) c st)"

fun stosl :: "'st storer \<Rightarrow> nat \<Rightarrow> u32 \<Rightarrow> u8 \<Rightarrow> 'st \<Rightarrow> ('st, unit) res" where
  "stosl wr 0 p c st = Inr ((), st)"
| "stosl wr (Suc k) p c st = bindR (store4 wr p (c, c, c, c) st) (\<lambda>(_, st). stosl wr k (p + 4) c st)"

text \<open>\<open>(c<<24)|(c<<16)|(c<<8)|c\<close> is the word with \<open>c\<close> in all four bytes.\<close>

definition memset :: "'st storer \<Rightarrow> u32 \<Rightarrow> u32 \<Rightarrow> u32 \<Rightarrow> 'st \<Rightarrow> ('st, u32) res" where
  "memset wr v c n st =
    (if n = 0 then Inr (v, st)
     else bindR
       (if v mod 4 = 0 \<and> n mod 4 = 0 then stosl wr (unat (n div 4)) v (ucast c) st
        else stosb wr (unat n) v (ucast c) st)
       (\<lambda>(_, st). Inr (v, st)))"

text \<open>The C version: its counter is an \<open>int\<close>, so more than \<open>2 ^ 31 - 1\<close> bytes are none.\<close>

definition memset_c :: "'st storer \<Rightarrow> u32 \<Rightarrow> u32 \<Rightarrow> u32 \<Rightarrow> 'st \<Rightarrow> ('st, u32) res" where
  "memset_c wr v c n st = bindR (stosb wr (nat (sint n)) v (ucast c) st) (\<lambda>(_, st). Inr (v, st))"

fun movsb :: "'st loader \<Rightarrow> 'st storer \<Rightarrow> u32 \<Rightarrow> nat \<Rightarrow> u32 \<Rightarrow> u32 \<Rightarrow> 'st \<Rightarrow> ('st, unit) res" where
  "movsb rd wr step 0 d s st = Inr ((), st)"
| "movsb rd wr step (Suc k) d s st =
    bindR (rd s st) (\<lambda>(b, st). bindR (wr d b st) (\<lambda>(_, st). movsb rd wr step k (d + step) (s + step) st))"

fun movsl :: "'st loader \<Rightarrow> 'st storer \<Rightarrow> u32 \<Rightarrow> nat \<Rightarrow> u32 \<Rightarrow> u32 \<Rightarrow> 'st \<Rightarrow> ('st, unit) res" where
  "movsl rd wr step 0 d s st = Inr ((), st)"
| "movsl rd wr step (Suc k) d s st =
    bindR (load4 rd s st) (\<lambda>(w, st). bindR (store4 wr d w st) (\<lambda>(_, st).
      movsl rd wr step k (d + step) (s + step) st))"

definition memmove :: "'st loader \<Rightarrow> 'st storer \<Rightarrow> u32 \<Rightarrow> u32 \<Rightarrow> u32 \<Rightarrow> 'st \<Rightarrow> ('st, u32) res" where
  "memmove rd wr dst src n st =
    bindR
      (if src < dst \<and> src + n > dst then
         let s = src + n; d = dst + n
         in if s mod 4 = 0 \<and> d mod 4 = 0 \<and> n mod 4 = 0
            then movsl rd wr (- 4) (unat (n div 4)) (d - 4) (s - 4) st
            else movsb rd wr (- 1) (unat n) (d - 1) (s - 1) st
       else if src mod 4 = 0 \<and> dst mod 4 = 0 \<and> n mod 4 = 0
         then movsl rd wr 4 (unat (n div 4)) dst src st
         else movsb rd wr 1 (unat n) dst src st)
      (\<lambda>(_, st). Inr (dst, st))"

definition memmove_c :: "'st loader \<Rightarrow> 'st storer \<Rightarrow> u32 \<Rightarrow> u32 \<Rightarrow> u32 \<Rightarrow> 'st \<Rightarrow> ('st, u32) res" where
  "memmove_c rd wr dst src n st =
    bindR
      (if src < dst \<and> src + n > dst
       then movsb rd wr (- 1) (unat n) (dst + n - 1) (src + n - 1) st
       else movsb rd wr 1 (unat n) dst src st)
      (\<lambda>(_, st). Inr (dst, st))"

definition memcpy :: "'st loader \<Rightarrow> 'st storer \<Rightarrow> u32 \<Rightarrow> u32 \<Rightarrow> u32 \<Rightarrow> 'st \<Rightarrow> ('st, u32) res" where
  "memcpy rd wr dst src n st = memmove rd wr dst src n st"

fun memcmp_loop :: "'st loader \<Rightarrow> nat \<Rightarrow> u32 \<Rightarrow> u32 \<Rightarrow> 'st \<Rightarrow> ('st, int) res" where
  "memcmp_loop rd 0 p q st = Inr (0, st)"
| "memcmp_loop rd (Suc k) p q st =
    bindR (rd p st) (\<lambda>(a, st). bindR (rd q st) (\<lambda>(b, st).
      if a \<noteq> b then Inr (uint a - uint b, st) else memcmp_loop rd k (p + 1) (q + 1) st))"

definition memcmp :: "'st loader \<Rightarrow> u32 \<Rightarrow> u32 \<Rightarrow> u32 \<Rightarrow> 'st \<Rightarrow> ('st, int) res" where
  "memcmp rd p q n st = memcmp_loop rd (unat n) p q st"

fun memfind_loop :: "'st loader \<Rightarrow> nat \<Rightarrow> u32 \<Rightarrow> u8 \<Rightarrow> 'st \<Rightarrow> ('st, u32) res" where
  "memfind_loop rd 0 p c st = Inr (p, st)"
| "memfind_loop rd (Suc k) p c st =
    bindR (rd p st) (\<lambda>(b, st). if b = c then Inr (p, st) else memfind_loop rd k (p + 1) c st)"

text \<open>The loop runs while \<open>s < ends\<close>: not at all if the end of the range wraps around.\<close>

definition memfind :: "'st loader \<Rightarrow> u32 \<Rightarrow> u32 \<Rightarrow> u32 \<Rightarrow> 'st \<Rightarrow> ('st, u32) res" where
  "memfind rd p c n st = memfind_loop rd (if p < p + n then unat n else 0) p (ucast c) st"

section \<open>Numbers\<close>

fun skip_space :: "'st loader \<Rightarrow> nat \<Rightarrow> u32 \<Rightarrow> 'st \<Rightarrow> ('st, u32) res" where
  "skip_space rd 0 p st = endless"
| "skip_space rd (Suc k) p st =
    bindR (rd p st) (\<lambda>(b, st). if b = 32 \<or> b = 9 then skip_space rd k (p + 1) st else Inr (p, st))"

definition digit_of :: "u8 \<Rightarrow> int option" where
  "digit_of b =
    (if 48 \<le> b \<and> b \<le> 57 then Some (uint b - 48)
     else if 97 \<le> b \<and> b \<le> 122 then Some (uint b - 97 + 10)
     else if 65 \<le> b \<and> b \<le> 90 then Some (uint b - 65 + 10)
     else None)"

fun strtol_loop :: "'st loader \<Rightarrow> nat \<Rightarrow> u32 \<Rightarrow> int \<Rightarrow> int \<Rightarrow> 'st \<Rightarrow> ('st, int \<times> u32) res" where
  "strtol_loop rd 0 p base val st = endless"
| "strtol_loop rd (Suc k) p base val st =
    bindR (rd p st) (\<lambda>(b, st).
      case digit_of b of
        None \<Rightarrow> Inr ((val, p), st)
      | Some dig \<Rightarrow>
          if dig \<ge> base then Inr ((val, p), st)
          else if val * base + dig > 2147483647 then int_overflow
          else strtol_loop rd k (p + 1) base (val * base + dig) st)"

text \<open>The prefix of the number decides the base.\<close>

definition strtol_base :: "'st loader \<Rightarrow> u32 \<Rightarrow> int \<Rightarrow> 'st \<Rightarrow> ('st, u32 \<times> int) res" where
  "strtol_base rd p base st =
    bindR (rd p st) (\<lambda>(b, st).
    bindR (if (base = 0 \<or> base = 16) \<and> b = 48 then rd (p + 1) st else Inr (0, st)) (\<lambda>(b', st).
      if (base = 0 \<or> base = 16) \<and> b = 48 \<and> b' = 120 then Inr ((p + 2, 16), st)
      else if base = 0 \<and> b = 48 then Inr ((p + 1, 8), st)
      else if base = 0 then Inr ((p, 10), st)
      else Inr ((p, base), st)))"

text \<open>The value and the end pointer.\<close>

definition strtol :: "'st loader \<Rightarrow> u32 \<Rightarrow> int \<Rightarrow> 'st \<Rightarrow> ('st, int \<times> u32) res" where
  "strtol rd p base st =
    bindR (skip_space rd all_addrs p st) (\<lambda>(p, st).
    bindR (rd p st) (\<lambda>(b, st).
    bindR (strtol_base rd (if b = 43 \<or> b = 45 then p + 1 else p) base st) (\<lambda>((p, base), st).
    bindR (strtol_loop rd all_addrs p base 0 st) (\<lambda>((val, p), st).
      Inr ((if b = 45 then - val else val, p), st)))))"

section \<open>Effects on memory\<close>

text \<open>A null-terminated string in memory, and the effect of the loops on memory as functions.\<close>

primrec cstr :: "(u32 \<Rightarrow> u8) \<Rightarrow> u32 \<Rightarrow> u8 list \<Rightarrow> bool" where
  "cstr m p [] \<longleftrightarrow> m p = 0"
| "cstr m p (x # xs) \<longleftrightarrow> m p = x \<and> x \<noteq> 0 \<and> cstr m (p + 1) xs"

primrec put_bytes :: "u32 \<Rightarrow> u8 list \<Rightarrow> (u32 \<Rightarrow> u8) \<Rightarrow> u32 \<Rightarrow> u8" where
  "put_bytes p [] m = m"
| "put_bytes p (b # bs) m = put_bytes (p + 1) bs (m(p := b))"

fun copy :: "u32 \<Rightarrow> nat \<Rightarrow> u32 \<Rightarrow> u32 \<Rightarrow> (u32 \<Rightarrow> u8) \<Rightarrow> u32 \<Rightarrow> u8" where
  "copy step 0 d s m = m"
| "copy step (Suc k) d s m = copy step k (d + step) (s + step) (m(d := m s))"

definition put4 :: "u32 \<Rightarrow> u8 \<times> u8 \<times> u8 \<times> u8 \<Rightarrow> (u32 \<Rightarrow> u8) \<Rightarrow> u32 \<Rightarrow> u8" where
  "put4 p = (\<lambda>(a, b, c, d) m. m(p := a, p + 1 := b, p + 2 := c, p + 3 := d))"

definition get4 :: "u32 \<Rightarrow> (u32 \<Rightarrow> u8) \<Rightarrow> u8 \<times> u8 \<times> u8 \<times> u8" where
  "get4 p m = (m p, m (p + 1), m (p + 2), m (p + 3))"

fun copy4 :: "u32 \<Rightarrow> nat \<Rightarrow> u32 \<Rightarrow> u32 \<Rightarrow> (u32 \<Rightarrow> u8) \<Rightarrow> u32 \<Rightarrow> u8" where
  "copy4 step 0 d s m = m"
| "copy4 step (Suc k) d s m = copy4 step k (d + step) (s + step) (put4 d (get4 s m) m)"

definition word_at :: "(u32 \<Rightarrow> u8) \<Rightarrow> u32 \<Rightarrow> u32" where
  "word_at m p = word_of4 (get4 p m)"

definition put_word :: "u32 \<Rightarrow> u32 \<Rightarrow> (u32 \<Rightarrow> u8) \<Rightarrow> u32 \<Rightarrow> u8" where
  "put_word p w m = put4 p (bytes4 w) m"

lemma word_bytes4: "word_of4 (bytes4 w) = w"
proof (rule bit_word_eqI)
  fix n
  assume n: "n < LENGTH(32)"
  show "bit (word_of4 (bytes4 w)) n = bit w n"
    using n by (cases "24 \<le> n"; cases "16 \<le> n") (auto simp: word_of4_def bytes4_def bit_simps dest: bit_imp_le_length)
qed

lemma word_at_put: "word_at (put_word p w m) p = w"
  using word_bytes4 [of w] by (cases "bytes4 w") (simp add: word_at_def put_word_def get4_def put4_def)

lemma put_word_outside: "a \<notin> {p, p + 1, p + 2, p + 3} \<Longrightarrow> put_word p w m a = m a"
  by (simp add: put_word_def put4_def split: prod.split)

lemma unat_add_mod4: "unat (a + b :: u32) mod 4 = (unat a + unat b) mod 4"
proof -
  have "(4 :: nat) dvd 2 ^ 32" by simp
  then show ?thesis by (simp add: unat_word_ariths(1) mod_mod_cancel)
qed

lemma mod4: "(a :: u32) mod 4 = 0 \<longleftrightarrow> unat a mod 4 = 0"
  by (simp add: word_unat_eq_iff unat_mod_distrib)

lemma words_of_bytes: "(n :: u32) mod 4 = 0 \<Longrightarrow> 4 * unat (n div 4) = unat n"
  using div_mult_mod_eq [of "unat n" 4] by (simp add: mod4 unat_div_distrib)

lemma aligned_apart:
  assumes "(a :: u32) mod 4 = 0" "b mod 4 = 0"
  shows "a + 1 \<noteq> b" "a + 2 \<noteq> b" "a + 3 \<noteq> b" "a + 2 \<noteq> b + 1" "a + 3 \<noteq> b + 1" "a + 3 \<noteq> b + 2"
    "a + 1 \<noteq> b + 2" "a + 1 \<noteq> b + 3" "a + 2 \<noteq> b + 3"
proof -
  have *: "a + i \<noteq> b + j" if "unat i mod 4 \<noteq> unat j mod 4" for i j
  proof
    assume "a + i = b + j"
    then have "unat (a + i) mod 4 = unat (b + j) mod 4" by simp
    with assms that show False
      by (simp add: unat_add_mod4 mod4 mod_add_left_eq [of "unat a" 4, symmetric] mod_add_left_eq [of "unat b" 4, symmetric])
  qed
  show "a + 1 \<noteq> b" "a + 2 \<noteq> b" "a + 3 \<noteq> b" "a + 2 \<noteq> b + 1" "a + 3 \<noteq> b + 1" "a + 3 \<noteq> b + 2"
    "a + 1 \<noteq> b + 2" "a + 1 \<noteq> b + 3" "a + 2 \<noteq> b + 3"
    using *[of 1 0] *[of 2 0] *[of 3 0] *[of 2 1] *[of 3 1] *[of 3 2] *[of 1 2] *[of 1 3] *[of 2 3] by simp_all
qed

text \<open>A word that is moved whole is moved byte by byte, upwards or downwards, if both ends are aligned.\<close>

lemma copy_add: "copy step (m + n) d s f = copy step n (d + of_nat m * step) (s + of_nat m * step) (copy step m d s f)"
  by (induction m arbitrary: d s f) (simp_all add: algebra_simps)

lemma aligned_step: "d mod 4 = 0 \<Longrightarrow> (d + 4) mod 4 = (0 :: u32)" "d mod 4 = 0 \<Longrightarrow> (d - 4) mod 4 = (0 :: u32)"
  using unat_add_mod4 [of d 4] unat_add_mod4 [of "d - 4" 4] by (simp_all add: mod4)

lemma copy_4:
  "copy st 4 d s m =
    (let m = m(d := m s); m = m(d + st := m (s + st)); m = m(d + st + st := m (s + st + st))
     in m(d + st + st + st := m (s + st + st + st)))"
proof -
  have "(4 :: nat) = Suc (Suc (Suc (Suc 0)))" by simp
  then show ?thesis by (simp only: copy.simps Let_def)
qed

lemma word_moves:
  assumes "d mod 4 = 0" "s mod 4 = 0"
  shows "copy 1 4 d s m = put4 d (get4 s m) m" "copy (- 1) 4 (d + 3) (s + 3) m = put4 d (get4 s m) m"
proof -
  note ap = aligned_apart [OF assms(1,2)] aligned_apart [OF assms(2,1)]
  have e: "x + 1 + 1 = x + 2" "x + 2 + 1 = x + 3" "x + 3 + - 1 = x + 2" "x + 2 + - 1 = x + 1" "x + 1 + - 1 = x" for x :: u32
    by simp_all
  show "copy 1 4 d s m = put4 d (get4 s m) m" "copy (- 1) 4 (d + 3) (s + 3) m = put4 d (get4 s m) m"
    unfolding copy_4 e Let_def put4_def get4_def prod.case using ap by (auto simp: fun_eq_iff)
qed

lemma copy4_up: "d mod 4 = 0 \<Longrightarrow> s mod 4 = 0 \<Longrightarrow> copy4 4 k d s m = copy 1 (4 * k) d s m"
proof (induction k arbitrary: d s m)
  case (Suc k)
  with aligned_step(1) word_moves(1) [of d s m] show ?case
    using copy_add [of 1 4 "4 * k" d s m] by (simp add: add.commute)
qed simp

lemma copy4_down: "d mod 4 = 0 \<Longrightarrow> s mod 4 = 0 \<Longrightarrow> copy4 (- 4) k d s m = copy (- 1) (4 * k) (d + 3) (s + 3) m"
proof (induction k arbitrary: d s m)
  case (Suc k)
  with aligned_step(2) word_moves(2) [of d s m] show ?case
    using copy_add [of "- 1" 4 "4 * k" "d + 3" "s + 3" m] by (simp add: algebra_simps)
qed simp

lemma words_moved:
  assumes "n mod 4 = 0"
  shows "d mod 4 = 0 \<Longrightarrow> s mod 4 = 0 \<Longrightarrow> copy4 4 (unat (n div 4)) d s m = copy 1 (unat n) d s m"
    "(d + n) mod 4 = 0 \<Longrightarrow> (s + n) mod 4 = 0 \<Longrightarrow>
      copy4 (- 4) (unat (n div 4)) (d + n - 4) (s + n - 4) m = copy (- 1) (unat n) (d + n - 1) (s + n - 1) m"
  using copy4_up [of d s "unat (n div 4)" m] copy4_down [of "d + n - 4" "s + n - 4" "unat (n div 4)" m]
    words_of_bytes [OF assms] aligned_step(2) [of "d + n"] aligned_step(2) [of "s + n"] by simp_all

text \<open>The bytes at \<open>d\<close> become those at \<open>s\<close>, if the copy runs away from an overlap.\<close>

definition moved :: "nat \<Rightarrow> u32 \<Rightarrow> u32 \<Rightarrow> (u32 \<Rightarrow> u8) \<Rightarrow> u32 \<Rightarrow> u8" where
  "moved n d s m a = (if unat d \<le> unat a \<and> unat a < unat d + n then m (s + (a - d)) else m a)"

lemma unat_add_lt: "unat (d :: u32) + i < 4294967296 \<Longrightarrow> unat (d + of_nat i) = unat d + i"
  by (simp add: unat_word_ariths(1) unat_of_nat)

lemma range_offset:
  assumes "unat (d :: u32) \<le> unat a" "unat a < unat d + n"
  obtains i where "a = d + of_nat i" "i < n" "unat a = unat d + i"
proof -
  let ?i = "unat a - unat d"
  have "unat d + ?i = unat a" using assms by simp
  moreover have "unat (d + of_nat ?i) = unat d + ?i"
    using assms unsigned_less [of a, where 'a = nat] by (intro unat_add_lt) simp
  ultimately have "a = d + of_nat ?i" by (simp only: word_unat_eq_iff)
  with assms show thesis by (intro that [of ?i]) auto
qed

lemma copy_up:
  assumes "unat s + n \<le> 4294967296" "unat d + n \<le> 4294967296" "\<not> (unat s < unat d \<and> unat d < unat s + n)"
  shows "copy 1 n d s m = moved n d s m"
  using assms
proof (induction n arbitrary: d s m)
  case 0
  then show ?case by (auto simp: moved_def fun_eq_iff)
next
  case (Suc n)
  show ?case
  proof (cases "n = 0")
    case True
    moreover have "unat d \<le> unat a \<and> unat a < unat d + Suc 0 \<longleftrightarrow> a = d" for a
      by (auto simp: word_unat_eq_iff)
    ultimately show ?thesis by (auto simp: moved_def fun_eq_iff)
  next
    case False
    then have u: "unat (d + 1) = unat d + 1" "unat (s + 1) = unat s + 1"
      using Suc.prems unat_add_lt [of d 1] unat_add_lt [of s 1] by auto
    have "copy 1 (Suc n) d s m = moved n (d + 1) (s + 1) (m(d := m s))"
      unfolding copy.simps by (rule Suc.IH) (use Suc.prems u in auto)
    also have "\<dots> = moved (Suc n) d s m"
    proof
      fix a
      have "s + (a - d) \<noteq> d" if a: "unat d + 1 \<le> unat a" "unat a < unat d + Suc n"
      proof -
        obtain i where i: "a = d + of_nat i" "i < Suc n" "unat a = unat d + i"
          by (rule range_offset [of d a "Suc n"]) (use a in auto)
        then have "unat (s + of_nat i) = unat s + i"
          using Suc.prems(1) by (intro unat_add_lt) simp
        then have "unat (s + (a - d)) = unat s + i" by (simp add: i(1))
        moreover have "unat s + i \<noteq> unat d"
          using i(2,3) a Suc.prems(3) by auto
        ultimately show ?thesis by metis
      qed
      moreover have "a = d \<longleftrightarrow> unat a = unat d" by (simp add: word_unat_eq_iff)
      ultimately show "moved n (d + 1) (s + 1) (m(d := m s)) a = moved (Suc n) d s m a"
        by (auto simp: moved_def u)
    qed
    finally show ?thesis .
  qed
qed

lemma copy_down:
  assumes "unat s + n \<le> 4294967296" "unat d + n \<le> 4294967296" "\<not> (unat d < unat s \<and> unat s < unat d + n)"
  shows "copy (- 1) n (d + of_nat n - 1) (s + of_nat n - 1) m = moved n d s m"
  using assms
proof (induction n arbitrary: m)
  case 0
  then show ?case by (auto simp: moved_def fun_eq_iff)
next
  case (Suc n)
  have u: "unat (d + of_nat n) = unat d + n" "unat (s + of_nat n) = unat s + n"
    using Suc.prems by (auto intro: unat_add_lt)
  have "copy (- 1) (Suc n) (d + of_nat (Suc n) - 1) (s + of_nat (Suc n) - 1) m =
      moved n d s (m(d + of_nat n := m (s + of_nat n)))"
    using Suc.IH [of "m(d + of_nat n := m (s + of_nat n))"] Suc.prems
    by (auto simp: algebra_simps simp del: fun_upd_apply)
  also have "\<dots> = moved (Suc n) d s m"
  proof
    fix a
    have "s + (a - d) \<noteq> d + of_nat n" if a: "unat d \<le> unat a" "unat a < unat d + n"
    proof -
      obtain i where i: "a = d + of_nat i" "i < n" "unat a = unat d + i"
        by (rule range_offset [of d a n]) (use a in auto)
      then have "unat (s + of_nat i) = unat s + i"
        using Suc.prems(1) by (intro unat_add_lt) simp
      then have "unat (s + (a - d)) = unat s + i" by (simp add: i(1))
      moreover have "unat s + i \<noteq> unat (d + of_nat n)"
        using i(2) u(1) Suc.prems(3) by auto
      ultimately show ?thesis by metis
    qed
    moreover have "a = d + of_nat n \<longleftrightarrow> unat a = unat d + n"
      using u(1) by (simp only: word_unat_eq_iff)
    ultimately show "moved n d s (m(d + of_nat n := m (s + of_nat n))) a = moved (Suc n) d s m a"
      by (auto simp: moved_def)
  qed
  finally show ?case .
qed

text \<open>The value of a comparison of two strings.\<close>

fun byte_diff :: "u8 list \<Rightarrow> u8 list \<Rightarrow> int" where
  "byte_diff [] [] = 0"
| "byte_diff (x # xs) [] = uint x"
| "byte_diff [] (y # ys) = - uint y"
| "byte_diff (x # xs) (y # ys) = (if x = y then byte_diff xs ys else uint x - uint y)"

lemma byte_diff_0: "0 \<notin> set xs \<Longrightarrow> 0 \<notin> set ys \<Longrightarrow> byte_diff xs ys = 0 \<longleftrightarrow> xs = ys"
  by (induction xs ys rule: byte_diff.induct) (auto simp: uint_0_iff dest: unsigned_word_eqI)

section \<open>Memories\<close>

text \<open>
  The contract of a memory: \<open>view s p\<close> is the byte at the address \<open>p\<close>, loads at the accessible addresses \<open>acc s\<close>
  return it, and stores to the plain ones among them change it there and nowhere else. A memory may change
  its state in ways the view does not show.
\<close>

locale ram =
  fixes rd :: "'st loader" and wr :: "'st storer" and view :: "'st \<Rightarrow> u32 \<Rightarrow> u8"
    and ok :: "'st \<Rightarrow> bool" and acc :: "'st \<Rightarrow> u32 \<Rightarrow> bool" and plain :: "'st \<Rightarrow> u32 \<Rightarrow> bool"
  assumes rd: "ok st \<Longrightarrow> acc st p \<Longrightarrow>
      \<exists>st'. rd p st = Inr (view st p, st') \<and> ok st' \<and> view st' = view st \<and> acc st' = acc st \<and> plain st' = plain st"
    and wr: "ok st \<Longrightarrow> acc st p \<Longrightarrow> plain st p \<Longrightarrow>
      \<exists>st'. wr p b st = Inr ((), st') \<and> ok st' \<and> view st' = (view st)(p := b) \<and> acc st' = acc st \<and> plain st' = plain st"
begin

definition wrote :: "((u32 \<Rightarrow> u8) \<Rightarrow> u32 \<Rightarrow> u8) \<Rightarrow> 'st \<Rightarrow> 'st \<Rightarrow> bool" where
  "wrote f st st' \<longleftrightarrow> ok st' \<and> view st' = f (view st) \<and> acc st' = acc st \<and> plain st' = plain st"

abbreviation same :: "'st \<Rightarrow> 'st \<Rightarrow> bool" where
  "same \<equiv> wrote (\<lambda>m. m)"

definition readable :: "'st \<Rightarrow> u32 \<Rightarrow> nat \<Rightarrow> bool" where
  "readable st p n \<longleftrightarrow> (\<forall>i<n. acc st (p + of_nat i))"

definition storable :: "'st \<Rightarrow> u32 \<Rightarrow> nat \<Rightarrow> bool" where
  "storable st p n \<longleftrightarrow> (\<forall>i<n. acc st (p + of_nat i) \<and> plain st (p + of_nat i))"

lemma readable_Suc: "readable st p (Suc n) \<longleftrightarrow> acc st p \<and> readable st (p + 1) n"
  by (auto simp: readable_def less_Suc_eq_0_disj add.assoc)

lemma storable_Suc: "storable st p (Suc n) \<longleftrightarrow> acc st p \<and> plain st p \<and> storable st (p + 1) n"
  by (auto simp: storable_def less_Suc_eq_0_disj add.assoc)

lemma wrote_ranges:
  "wrote f st st' \<Longrightarrow> readable st' p n = readable st p n" "wrote f st st' \<Longrightarrow> storable st' p n = storable st p n"
  by (simp_all add: wrote_def readable_def storable_def)

lemma wrote_ok: "wrote f st st' \<Longrightarrow> ok st'"
  by (simp add: wrote_def)

lemma wrote_acc: "wrote f st st' \<Longrightarrow> acc st' = acc st" "wrote f st st' \<Longrightarrow> plain st' = plain st"
  by (simp_all add: wrote_def)

lemma wrote_trans: "wrote f st st' \<Longrightarrow> wrote g st' st'' \<Longrightarrow> wrote (\<lambda>m. g (f m)) st st''"
  by (simp add: wrote_def)

lemma loaded:
  assumes "ok st" "acc st p"
  obtains st' where "rd p st = Inr (view st p, st')" "same st st'"
  using rd [OF assms] by (auto simp: wrote_def)

lemma stored_byte:
  assumes "ok st" "acc st p" "plain st p"
  obtains st' where "wr p b st = Inr ((), st')" "wrote (\<lambda>m. m(p := b)) st st'"
  using wr [OF assms] by (auto simp: wrote_def)

text \<open>Strings.\<close>

lemma strlen_loop_ok:
  assumes "ok st" "cstr (view st) p xs" "readable st p (Suc (length xs))" "length xs < k"
  shows "\<exists>st'. strlen_loop rd k p n st = Inr (n + length xs, st') \<and> same st st'"
  using assms
proof (induction xs arbitrary: st p n k)
  case (Cons x xs)
  obtain k' where k: "k = Suc k'" using Cons.prems(4) by (cases k) auto
  obtain st' where st': "rd p st = Inr (view st p, st')" "same st st'"
    using Cons.prems(1,3) by (auto simp: readable_Suc elim: loaded)
  with Cons.IH [of st' "p + 1" k' "Suc n"] Cons.prems k wrote_ranges(1) [OF st'(2)] show ?case
    by (auto simp: readable_Suc wrote_def)
qed (auto simp: readable_Suc gr0_conv_Suc elim!: loaded)

lemma strlen_ok:
  assumes "ok st" "cstr (view st) p xs" "readable st p (Suc (length xs))" "length xs < 2147483648"
  shows "\<exists>st'. strlen rd p st = Inr (length xs, st') \<and> same st st'"
  using strlen_loop_ok [OF assms, of 0] by (simp add: strlen_def)

text \<open>
  A second source of bytes: it yields \<open>zs\<close> from the address \<open>q\<close> on, also after changes of the memory
  at addresses in \<open>D\<close>.
\<close>

definition changed :: "u32 set \<Rightarrow> 'st \<Rightarrow> 'st \<Rightarrow> bool" where
  "changed D st t \<longleftrightarrow> ok t \<and> acc t = acc st \<and> plain t = plain st \<and> (\<forall>a. a \<notin> D \<longrightarrow> view t a = view st a)"

definition supplies :: "'st loader \<Rightarrow> 'st \<Rightarrow> u32 set \<Rightarrow> u32 \<Rightarrow> u8 list \<Rightarrow> bool" where
  "supplies rd' st D q zs \<longleftrightarrow>
    (\<forall>i<length zs. \<forall>t. changed D st t \<longrightarrow> (\<exists>t'. rd' (q + of_nat i) t = Inr (zs ! i, t') \<and> same t t'))"

lemma supplies_Cons:
  assumes "supplies rd' st D q (z # zs)"
  shows "supplies rd' st D (q + 1) zs" "changed D st t \<Longrightarrow> \<exists>t'. rd' q t = Inr (z, t') \<and> same t t'"
proof -
  show "supplies rd' st D (q + 1) zs"
    unfolding supplies_def
  proof (intro allI impI)
    fix i t
    assume "i < length zs" "changed D st t"
    with assms [unfolded supplies_def, rule_format, of "Suc i" t]
    show "\<exists>t'. rd' (q + 1 + word_of_nat i) t = Inr (zs ! i, t') \<and> same t t'"
      by (simp add: add.assoc)
  qed
  show "changed D st t \<Longrightarrow> \<exists>t'. rd' q t = Inr (z, t') \<and> same t t'"
    using assms [unfolded supplies_def, rule_format, of 0 t] by simp
qed

lemma changed_wrote: "changed D st t \<Longrightarrow> wrote f t t' \<Longrightarrow> (\<And>m a. a \<notin> D \<Longrightarrow> f m a = m a) \<Longrightarrow> changed D st t'"
  by (auto simp: changed_def wrote_def)

lemma cstr_nth: "cstr m p xs \<Longrightarrow> i \<le> length xs \<Longrightarrow> m (p + of_nat i) = (xs @ [0]) ! i"
proof (induction xs arbitrary: p i)
  case (Cons x xs)
  then show ?case by (cases i) (auto simp: add.assoc [symmetric])
qed auto

lemma cstr_supplies:
  assumes "cstr (view st) q ys" "readable st q (Suc (length ys))" "\<And>i. i \<le> length ys \<Longrightarrow> q + of_nat i \<notin> D"
  shows "supplies rd st D q (ys @ [0])"
  unfolding supplies_def
proof (intro allI impI)
  fix i t
  assume i: "i < length (ys @ [0])" and t: "changed D st t"
  have "ok t" "acc t (q + of_nat i)"
    using i t assms(2) by (auto simp: readable_def changed_def)
  then obtain t' where "rd (q + of_nat i) t = Inr (view t (q + of_nat i), t')" "same t t'"
    by (rule loaded)
  then show "\<exists>t'. rd (q + word_of_nat i) t = Inr ((ys @ [0]) ! i, t') \<and> same t t'"
    using cstr_nth [OF assms(1), of i] i t assms(3) [of i] by (auto simp: changed_def)
qed

lemma strcmp_loop_ok:
  assumes "ok st" "cstr (view st) p xs" "readable st p (Suc (length xs))" "supplies rd' st0 {} q (ys @ [0])"
    "0 \<notin> set ys" "same st0 st" "length xs < k"
  shows "\<exists>st'. strcmp_loop rd rd' k p q st = Inr (byte_diff xs ys, st') \<and> same st st'"
  using assms
proof (induction xs arbitrary: st p q ys k)
  case Nil
  obtain k' where k: "k = Suc k'" using Nil.prems(7) by (cases k) auto
  obtain st1 where s1: "rd p st = Inr (0, st1)" "same st st1"
    using Nil.prems(1-3) by (auto simp: readable_Suc elim: loaded)
  obtain z zs where z: "ys @ [0] = z # zs" by (cases ys) auto
  have "changed {} st0 st1"
    using s1(2) Nil.prems(6) by (auto simp: changed_def wrote_def)
  then obtain st2 where s2: "rd' q st1 = Inr (z, st2)" "same st1 st2"
    using supplies_Cons(2) [OF Nil.prems(4) [unfolded z]] by auto
  then show ?case
    using s1 k z by (cases ys) (auto simp: wrote_def)
next
  case (Cons x xs)
  obtain k' where k: "k = Suc k'" using Cons.prems(7) by (cases k) auto
  obtain st1 where s1: "rd p st = Inr (x, st1)" "same st st1"
    using Cons.prems(1-3) by (auto simp: readable_Suc elim: loaded)
  obtain z zs where z: "ys @ [0] = z # zs" by (cases ys) auto
  have c: "changed {} st0 st1"
    using s1(2) Cons.prems(6) by (auto simp: changed_def wrote_def)
  then obtain st2 where s2: "rd' q st1 = Inr (z, st2)" "same st1 st2"
    using supplies_Cons(2) [OF Cons.prems(4) [unfolded z]] by auto
  show ?case
  proof (cases "x = z")
    case True
    with Cons.prems(2) z obtain ys' where ys: "ys = z # ys'" "zs = ys' @ [0]"
      by (cases ys) auto
    have "\<exists>st'. strcmp_loop rd rd' k' (p + 1) (q + 1) st2 = Inr (byte_diff xs ys', st') \<and> same st2 st'"
      using Cons.prems s1(2) s2(2) ys k supplies_Cons(1) [OF Cons.prems(4) [unfolded z]]
        wrote_ranges(1) [OF s1(2)] wrote_ranges(1) [OF s2(2)]
      by (intro Cons.IH) (auto simp: readable_Suc wrote_def)
    with True s1 s2 k ys Cons.prems(2) show ?thesis by (auto simp: wrote_def)
  next
    case False
    with s1 s2 k z Cons.prems(2) show ?thesis by (cases ys) (auto simp: wrote_def)
  qed
qed

lemma strcpy_loop_ok:
  assumes "changed D st0 st" "supplies rd' st0 D q (xs @ [0])" "0 \<notin> set xs" "storable st d (Suc (length xs))"
    "\<And>i. i \<le> length xs \<Longrightarrow> d + of_nat i \<in> D" "length xs < k"
  shows "\<exists>st'. strcpy_loop rd' wr k d q st = Inr ((), st') \<and> wrote (put_bytes d (xs @ [0])) st st'"
  using assms
proof (induction xs arbitrary: st q d k)
  case Nil
  obtain k' where k: "k = Suc k'" using Nil.prems(6) by (cases k) auto
  obtain st1 where s1: "rd' q st = Inr (0, st1)" "same st st1"
    using supplies_Cons(2) [of rd' st0 D q 0 "[]" st] Nil.prems(1,2) by auto
  obtain st2 where "wr d 0 st1 = Inr ((), st2)" "wrote (\<lambda>m. m(d := 0)) st1 st2"
    by (rule stored_byte [of st1 d 0]) (use Nil.prems(4) s1(2) wrote_ok wrote_acc in \<open>auto simp: storable_Suc\<close>)
  with s1 k show ?case by (auto simp: wrote_def)
next
  case (Cons x xs)
  obtain k' where k: "k = Suc k'" using Cons.prems(6) by (cases k) auto
  have sup: "supplies rd' st0 D q (x # (xs @ [0]))" using Cons.prems(2) by simp
  obtain st1 where s1: "rd' q st = Inr (x, st1)" "same st st1"
    using supplies_Cons(2) [OF sup Cons.prems(1)] by auto
  obtain st2 where s2: "wr d x st1 = Inr ((), st2)" "wrote (\<lambda>m. m(d := x)) st1 st2"
    by (rule stored_byte [of st1 d x]) (use Cons.prems(4) s1(2) wrote_ok wrote_acc in \<open>auto simp: storable_Suc\<close>)
  have dD: "d \<in> D" using Cons.prems(5) [of 0] by simp
  have c: "changed D st0 st2"
    by (rule changed_wrote [OF changed_wrote [OF Cons.prems(1) s1(2)] s2(2)]) (use dD in auto)
  have st: "storable st2 (d + 1) (Suc (length xs))"
    using Cons.prems(4) wrote_ranges(2) [OF s1(2)] wrote_ranges(2) [OF s2(2)]
    by (simp only: list.size add_Suc_right add_0_right storable_Suc [of st d])
  have "d + 1 + of_nat i \<in> D" if "i \<le> length xs" for i
    using Cons.prems(5) [of "Suc i"] that by (simp add: add.assoc)
  then have "\<exists>st'. strcpy_loop rd' wr k' (d + 1) (q + 1) st2 = Inr ((), st') \<and> wrote (put_bytes (d + 1) (xs @ [0])) st2 st'"
    using Cons.prems(3,6) c k supplies_Cons(1) [OF sup] st by (intro Cons.IH) auto
  with s1 s2 k Cons.prems(3) show ?case by (auto simp: wrote_def)
qed

text \<open>Filling and moving memory.\<close>

lemma stosb_ok: "ok st \<Longrightarrow> storable st p n \<Longrightarrow>
    \<exists>st'. stosb wr n p c st = Inr ((), st') \<and> wrote (put_bytes p (replicate n c)) st st'"
proof (induction n arbitrary: st p)
  case (Suc n)
  obtain st1 where s1: "wr p c st = Inr ((), st1)" "wrote (\<lambda>m. m(p := c)) st st1"
    by (rule stored_byte [of st p c]) (use Suc.prems in \<open>auto simp: storable_Suc\<close>)
  have "\<exists>st'. stosb wr n (p + 1) c st1 = Inr ((), st') \<and> wrote (put_bytes (p + 1) (replicate n c)) st1 st'"
    using Suc.prems(2) wrote_ok [OF s1(2)] wrote_ranges(2) [OF s1(2)] by (intro Suc.IH) (auto simp: storable_Suc)
  with s1 show ?case by (auto simp: wrote_def)
qed (simp add: wrote_def)

lemma load4_ok:
  assumes "ok st" "readable st p 4"
  shows "\<exists>st'. load4 rd p st = Inr (get4 p (view st), st') \<and> same st st'"
proof -
  have acc: "acc st p" "acc st (p + 1)" "acc st (p + 2)" "acc st (p + 3)"
    using assms(2) [unfolded readable_def, rule_format, of 0] assms(2) [unfolded readable_def, rule_format, of 1]
      assms(2) [unfolded readable_def, rule_format, of 2] assms(2) [unfolded readable_def, rule_format, of 3] by simp_all
  obtain s1 where s1: "rd p st = Inr (view st p, s1)" "same st s1"
    using assms(1) acc(1) by (rule loaded)
  obtain s2 where s2: "rd (p + 1) s1 = Inr (view s1 (p + 1), s2)" "same s1 s2"
    by (rule loaded [of s1 "p + 1"]) (use acc(2) s1(2) wrote_ok wrote_acc in auto)
  obtain s3 where s3: "rd (p + 2) s2 = Inr (view s2 (p + 2), s3)" "same s2 s3"
    by (rule loaded [of s2 "p + 2"]) (use acc(3) s1(2) s2(2) wrote_ok wrote_acc in auto)
  obtain s4 where s4: "rd (p + 3) s3 = Inr (view s3 (p + 3), s4)" "same s3 s4"
    by (rule loaded [of s3 "p + 3"]) (use acc(4) s1(2) s2(2) s3(2) wrote_ok wrote_acc in auto)
  show ?thesis
    using s1 s2 s3 s4 by (auto simp: load4_def get4_def wrote_def)
qed

lemma store4_ok:
  assumes "ok st" "storable st p 4"
  shows "\<exists>st'. store4 wr p w st = Inr ((), st') \<and> wrote (put4 p w) st st'"
proof -
  obtain a b c d where w: "w = (a, b, c, d)" by (cases w)
  have acc: "acc st p \<and> plain st p" "acc st (p + 1) \<and> plain st (p + 1)" "acc st (p + 2) \<and> plain st (p + 2)"
    "acc st (p + 3) \<and> plain st (p + 3)"
    using assms(2) [unfolded storable_def, rule_format, of 0] assms(2) [unfolded storable_def, rule_format, of 1]
      assms(2) [unfolded storable_def, rule_format, of 2] assms(2) [unfolded storable_def, rule_format, of 3] by simp_all
  obtain s1 where s1: "wr p a st = Inr ((), s1)" "wrote (\<lambda>m. m(p := a)) st s1"
    by (rule stored_byte [of st p a]) (use assms(1) acc(1) in auto)
  obtain s2 where s2: "wr (p + 1) b s1 = Inr ((), s2)" "wrote (\<lambda>m. m(p + 1 := b)) s1 s2"
    by (rule stored_byte [of s1 "p + 1" b]) (use acc(2) s1(2) wrote_ok wrote_acc in auto)
  obtain s3 where s3: "wr (p + 2) c s2 = Inr ((), s3)" "wrote (\<lambda>m. m(p + 2 := c)) s2 s3"
    by (rule stored_byte [of s2 "p + 2" c]) (use acc(3) s1(2) s2(2) wrote_ok wrote_acc in auto)
  obtain s4 where s4: "wr (p + 3) d s3 = Inr ((), s4)" "wrote (\<lambda>m. m(p + 3 := d)) s3 s4"
    by (rule stored_byte [of s3 "p + 3" d]) (use acc(4) s1(2) s2(2) s3(2) wrote_ok wrote_acc in auto)
  show ?thesis
    using s1 s2 s3 s4 by (auto simp: w store4_def put4_def wrote_def)
qed

lemma load_word_ok:
  assumes "ok st" "readable st p 4"
  obtains st' where "load_word rd p st = Inr (word_at (view st) p, st')" "same st st'"
  using load4_ok [OF assms] by (auto simp: load_word_def word_at_def)

lemma store_word_ok:
  assumes "ok st" "storable st p 4"
  obtains st' where "store_word wr p w st = Inr ((), st')" "wrote (put_word p w) st st'"
  using store4_ok [OF assms, of "bytes4 w"] by (auto simp: store_word_def wrote_def put_word_def)

lemma storable_add: "storable st p (m + n) \<longleftrightarrow> storable st p m \<and> storable st (p + of_nat m) n"
proof (induction m arbitrary: p)
  case (Suc m)
  then show ?case by (auto simp: storable_Suc add.assoc)
qed (simp add: storable_def)

lemma stosl_ok: "ok st \<Longrightarrow> storable st p (4 * n) \<Longrightarrow>
    \<exists>st'. stosl wr n p c st = Inr ((), st') \<and> wrote (put_bytes p (replicate (4 * n) c)) st st'"
proof (induction n arbitrary: st p)
  case (Suc n)
  have r: "storable st p 4" "storable st (p + 4) (4 * n)"
    using Suc.prems(2) storable_add [of st p 4 "4 * n"] by simp_all
  obtain st1 where s1: "store4 wr p (c, c, c, c) st = Inr ((), st1)" "wrote (put4 p (c, c, c, c)) st st1"
    using store4_ok [OF Suc.prems(1) r(1)] by blast
  have "\<exists>st'. stosl wr n (p + 4) c st1 = Inr ((), st') \<and> wrote (put_bytes (p + 4) (replicate (4 * n) c)) st1 st'"
    using r(2) wrote_ok [OF s1(2)] wrote_ranges(2) [OF s1(2)] by (intro Suc.IH) auto
  moreover have "put_bytes p (replicate (4 * Suc n) c) m = put_bytes (p + 4) (replicate (4 * n) c) (put4 p (c, c, c, c) m)" for m
  proof -
    have "4 * Suc n = Suc (Suc (Suc (Suc (4 * n))))" by simp
    then show ?thesis by (simp only: replicate_Suc put_bytes.simps put4_def prod.case add.assoc) simp
  qed
  ultimately show ?case using s1 by (auto simp: wrote_def)
qed (simp add: wrote_def)

lemma memset_ok:
  assumes "ok st" "storable st p (unat n)"
  shows "\<exists>st'. memset wr p c n st = Inr (p, st') \<and> wrote (put_bytes p (replicate (unat n) (ucast c))) st st'"
proof -
  show ?thesis
    using words_of_bytes [of n] stosb_ok [OF assms, of "ucast c"] stosl_ok [OF assms(1), of p "unat (n div 4)" "ucast c"] assms
    by (cases "n mod 4 = 0") (auto simp: memset_def wrote_def)
qed

lemma movsb_ok:
  assumes "ok st" "\<And>i. i < k \<Longrightarrow> acc st (s + of_nat i * step)" "\<And>i. i < k \<Longrightarrow> acc st (d + of_nat i * step) \<and> plain st (d + of_nat i * step)"
  shows "\<exists>st'. movsb rd wr step k d s st = Inr ((), st') \<and> wrote (copy step k d s) st st'"
  using assms
proof (induction k arbitrary: st d s)
  case (Suc k)
  obtain st1 where s1: "rd s st = Inr (view st s, st1)" "same st st1"
    by (rule loaded [of st s]) (use Suc.prems(1) Suc.prems(2) [of 0] in auto)
  obtain st2 where s2: "wr d (view st s) st1 = Inr ((), st2)" "wrote (\<lambda>m. m(d := view st s)) st1 st2"
    by (rule stored_byte [of st1 d "view st s"]) (use Suc.prems(3) [of 0] s1(2) wrote_ok wrote_acc in auto)
  have "acc st2 = acc st" "plain st2 = plain st" "ok st2" using s1(2) s2(2) by (simp_all add: wrote_def)
  then have "\<exists>st'. movsb rd wr step k (d + step) (s + step) st2 = Inr ((), st') \<and> wrote (copy step k (d + step) (s + step)) st2 st'"
    using Suc.prems(2) [of "Suc i" for i] Suc.prems(3) [of "Suc i" for i]
    by (intro Suc.IH) (auto simp: algebra_simps)
  with s1 s2 show ?case by (auto simp: wrote_def)
qed (simp add: wrote_def)

lemma movsl_ok:
  assumes "ok st" "\<And>i. i < k \<Longrightarrow> readable st (s + of_nat i * step) 4" "\<And>i. i < k \<Longrightarrow> storable st (d + of_nat i * step) 4"
  shows "\<exists>st'. movsl rd wr step k d s st = Inr ((), st') \<and> wrote (copy4 step k d s) st st'"
  using assms
proof (induction k arbitrary: st d s)
  case (Suc k)
  obtain st1 where s1: "load4 rd s st = Inr (get4 s (view st), st1)" "same st st1"
    using load4_ok [OF Suc.prems(1)] Suc.prems(2) [of 0] by auto
  obtain st2 where s2: "store4 wr d (get4 s (view st)) st1 = Inr ((), st2)" "wrote (put4 d (get4 s (view st))) st1 st2"
    using store4_ok [of st1 d "get4 s (view st)"] Suc.prems(3) [of 0] wrote_ok [OF s1(2)] wrote_ranges(2) [OF s1(2)] by auto
  have "\<exists>st'. movsl rd wr step k (d + step) (s + step) st2 = Inr ((), st') \<and> wrote (copy4 step k (d + step) (s + step)) st2 st'"
    using Suc.prems(2) [of "Suc i" for i] Suc.prems(3) [of "Suc i" for i] wrote_ok [OF s2(2)]
      wrote_ranges [OF s1(2)] wrote_ranges [OF s2(2)]
    by (intro Suc.IH) (auto simp: algebra_simps)
  with s1 s2 show ?case by (auto simp: wrote_def)
qed (simp add: wrote_def)

lemma memmove_bytes:
  assumes "ok st" "readable st src (unat n)" "storable st dst (unat n)"
  shows "\<exists>st'. movsb rd wr 1 (unat n) dst src st = Inr ((), st') \<and> wrote (copy 1 (unat n) dst src) st st'"
    "\<exists>st'. movsb rd wr (- 1) (unat n) (dst + n - 1) (src + n - 1) st = Inr ((), st') \<and>
      wrote (copy (- 1) (unat n) (dst + n - 1) (src + n - 1)) st st'"
proof -
  show "\<exists>st'. movsb rd wr 1 (unat n) dst src st = Inr ((), st') \<and> wrote (copy 1 (unat n) dst src) st st'"
    using assms by (intro movsb_ok) (auto simp: readable_def storable_def)
  have e: "p + n - 1 + of_nat i * (- 1) = p + of_nat (unat n - Suc i)" if "i < unat n" for i p
    using that by (simp add: of_nat_diff algebra_simps)
  show "\<exists>st'. movsb rd wr (- 1) (unat n) (dst + n - 1) (src + n - 1) st = Inr ((), st') \<and>
      wrote (copy (- 1) (unat n) (dst + n - 1) (src + n - 1)) st st'"
  proof (rule movsb_ok [OF assms(1)])
    fix i
    assume i: "i < unat n"
    then have i': "unat n - Suc i < unat n" by simp
    show "acc st (src + n - 1 + of_nat i * - 1)"
      unfolding e [OF i] using assms(2) i' unfolding readable_def by blast
    show "acc st (dst + n - 1 + of_nat i * - 1) \<and> plain st (dst + n - 1 + of_nat i * - 1)"
      unfolding e [OF i] using assms(3) i' unfolding storable_def by blast
  qed
qed

lemma memmove_words:
  assumes "ok st" "readable st src (unat n)" "storable st dst (unat n)" "n mod 4 = 0"
  shows "\<exists>st'. movsl rd wr 4 (unat (n div 4)) dst src st = Inr ((), st') \<and> wrote (copy4 4 (unat (n div 4)) dst src) st st'"
    "\<exists>st'. movsl rd wr (- 4) (unat (n div 4)) (dst + n - 4) (src + n - 4) st = Inr ((), st') \<and>
      wrote (copy4 (- 4) (unat (n div 4)) (dst + n - 4) (src + n - 4)) st st'"
proof -
  let ?k = "unat (n div 4)"
  have n: "unat n = 4 * ?k"
    using words_of_bytes [OF assms(4)] by simp
  have n': "n = of_nat (4 * ?k)"
    unfolding n [symmetric] by simp
  have "\<forall>j<4. acc st (src + of_nat (4 * i + j))" "\<forall>j<4. acc st (dst + of_nat (4 * i + j)) \<and> plain st (dst + of_nat (4 * i + j))"
    if "i < ?k" for i
    using that assms(2,3) n by (auto simp: readable_def storable_def simp del: of_nat_add of_nat_mult)
  then have r: "readable st (src + of_nat (4 * i)) 4" "storable st (dst + of_nat (4 * i)) 4" if "i < ?k" for i
    using that by (auto simp: readable_def storable_def add.assoc)
  show "\<exists>st'. movsl rd wr 4 ?k dst src st = Inr ((), st') \<and> wrote (copy4 4 ?k dst src) st st'"
    using r by (intro movsl_ok assms(1)) (simp_all add: mult.commute)
  have e: "p + n - 4 + of_nat i * (- 4) = p + of_nat (4 * (?k - Suc i))" if "i < ?k" for i p
    using that by (subst n') (simp add: of_nat_diff algebra_simps)
  show "\<exists>st'. movsl rd wr (- 4) ?k (dst + n - 4) (src + n - 4) st = Inr ((), st') \<and>
      wrote (copy4 (- 4) ?k (dst + n - 4) (src + n - 4)) st st'"
  proof (rule movsl_ok [OF assms(1)])
    fix i
    assume i: "i < ?k"
    then have i': "?k - Suc i < ?k" by simp
    show "readable st (src + n - 4 + of_nat i * - 4) 4" "storable st (dst + n - 4 + of_nat i * - 4) 4"
      unfolding e [OF i] by (rule r [OF i'])+
  qed
qed

lemma memmove_ok:
  assumes st: "ok st" "readable st src (unat n)" "storable st dst (unat n)"
    and nw: "unat src + unat n < 4294967296" "unat dst + unat n \<le> 4294967296"
  shows "\<exists>st'. memmove rd wr dst src n st = Inr (dst, st') \<and> wrote (moved (unat n) dst src) st st'"
proof -
  have "unat (src + n) = unat src + unat n"
    using nw(1) unat_add_lt [of src "unat n"] by simp
  then have c: "src < dst \<and> src + n > dst \<longleftrightarrow> unat src < unat dst \<and> unat dst < unat src + unat n"
    by (simp add: word_less_nat_alt)
  have up: "copy 1 (unat n) dst src = moved (unat n) dst src" if "\<not> (src < dst \<and> src + n > dst)"
    using that nw unfolding c by (intro ext copy_up) auto
  have down: "copy (- 1) (unat n) (dst + n - 1) (src + n - 1) = moved (unat n) dst src" if "src < dst \<and> src + n > dst"
    using that nw copy_down [of src "unat n" dst] unfolding c by (intro ext) auto
  have bw: "\<exists>st'. (if (src + n) mod 4 = 0 \<and> (dst + n) mod 4 = 0 \<and> n mod 4 = 0
         then movsl rd wr (- 4) (unat (n div 4)) (dst + n - 4) (src + n - 4) st
         else movsb rd wr (- 1) (unat n) (dst + n - 1) (src + n - 1) st) = Inr ((), st') \<and>
       wrote (moved (unat n) dst src) st st'" if "src < dst \<and> src + n > dst"
  proof (cases "(src + n) mod 4 = 0 \<and> (dst + n) mod 4 = 0 \<and> n mod 4 = 0")
    case True
    have "copy4 (- 4) (unat (n div 4)) (dst + n - 4) (src + n - 4) (view st) = moved (unat n) dst src (view st)"
      using words_moved(2) [of n dst src "view st"] True down [OF that] by simp
    with memmove_words(2) [OF st] True show ?thesis by (simp add: wrote_def)
  next
    case False
    then show ?thesis using memmove_bytes(2) [OF st] unfolding down [OF that] by (simp only: if_False)
  qed
  have fw: "\<exists>st'. (if src mod 4 = 0 \<and> dst mod 4 = 0 \<and> n mod 4 = 0 then movsl rd wr 4 (unat (n div 4)) dst src st
         else movsb rd wr 1 (unat n) dst src st) = Inr ((), st') \<and>
       wrote (moved (unat n) dst src) st st'" if "\<not> (src < dst \<and> src + n > dst)"
  proof (cases "src mod 4 = 0 \<and> dst mod 4 = 0 \<and> n mod 4 = 0")
    case True
    have "copy4 4 (unat (n div 4)) dst src (view st) = moved (unat n) dst src (view st)"
      using words_moved(1) [of n dst src "view st"] True up [OF that] by simp
    with memmove_words(1) [OF st] True show ?thesis by (simp add: wrote_def)
  next
    case False
    then show ?thesis using memmove_bytes(1) [OF st] unfolding up [OF that] by (simp only: if_False)
  qed
  show ?thesis
  proof (cases "src < dst \<and> src + n > dst")
    case True
    show ?thesis
      unfolding memmove_def Let_def if_P [OF True]
      using bw [OF True] by (elim exE conjE, intro exI conjI) (simp_all only: bindR_Inr prod.case)
  next
    case False
    show ?thesis
      unfolding memmove_def if_not_P [OF False]
      using fw [OF False] by (elim exE conjE, intro exI conjI) (simp_all only: bindR_Inr prod.case)
  qed
qed

lemma strlcpy_loop_ok:
  assumes "changed D st0 st" "supplies rd' st0 D q (xs @ [0])" "0 \<notin> set xs" "storable st d k"
    "\<And>i. i < k \<Longrightarrow> d + of_nat i \<in> D"
  shows "\<exists>st'. strlcpy_loop rd' wr k d q st = Inr (d + of_nat (length (take k xs)), st') \<and>
    wrote (put_bytes d (take k xs)) st st'"
  using assms
proof (induction k arbitrary: st q d xs)
  case 0
  then show ?case by (simp add: wrote_def changed_def)
next
  case (Suc k)
  show ?case
  proof (cases xs)
    case Nil
    then show ?thesis
      using supplies_Cons(2) [of rd' st0 D q 0 "[]" st] Suc.prems(1,2) by auto
  next
    case (Cons x ys)
    have sup: "supplies rd' st0 D q (x # (ys @ [0]))" using Suc.prems(2) Cons by simp
    obtain st1 where s1: "rd' q st = Inr (x, st1)" "same st st1"
      using supplies_Cons(2) [OF sup Suc.prems(1)] by auto
    obtain st2 where s2: "wr d x st1 = Inr ((), st2)" "wrote (\<lambda>m. m(d := x)) st1 st2"
      by (rule stored_byte [of st1 d x]) (use Suc.prems(4) s1(2) wrote_ok wrote_acc in \<open>auto simp: storable_Suc\<close>)
    have c: "changed D st0 st2"
      by (rule changed_wrote [OF changed_wrote [OF Suc.prems(1) s1(2)] s2(2)]) (use Suc.prems(5) [of 0] in auto)
    have st: "storable st2 (d + 1) k"
      using Suc.prems(4) wrote_ranges(2) [OF s1(2)] wrote_ranges(2) [OF s2(2)] by (simp only: storable_Suc [of st d])
    have "d + 1 + of_nat i \<in> D" if "i < k" for i
      using Suc.prems(5) [of "Suc i"] that by (simp add: add.assoc)
    then have "\<exists>st'. strlcpy_loop rd' wr k (d + 1) (q + 1) st2 = Inr (d + 1 + of_nat (length (take k ys)), st') \<and>
        wrote (put_bytes (d + 1) (take k ys)) st2 st'"
      using Suc.prems(3) Cons c supplies_Cons(1) [OF sup] st by (intro Suc.IH) auto
    with s1 s2 Cons Suc.prems(3) show ?thesis by (auto simp: wrote_def add.assoc)
  qed
qed

end

section \<open>Plain memory\<close>

definition flat_load :: "(u32 \<Rightarrow> u8) loader" where
  "flat_load p m = Inr (m p, m)"

definition flat_store :: "(u32 \<Rightarrow> u8) storer" where
  "flat_store p b m = Inr ((), m(p := b))"

lemma flat_access: "flat_load p m = Inr (m p, m)" "flat_store p b m = Inr ((), m(p := b))"
  by (simp_all add: flat_load_def flat_store_def)

interpretation flat: ram flat_load flat_store "\<lambda>m. m" "\<lambda>_. True" "\<lambda>_ _. True" "\<lambda>_ _. True"
  by unfold_locales (simp_all add: flat_access)

lemma flat_wrote: "flat.wrote f m m' \<longleftrightarrow> m' = f m"
  by (auto simp: flat.wrote_def)

lemma flat_ranges: "flat.readable m p n" "flat.storable m p n"
  by (simp_all add: flat.readable_def flat.storable_def)

text \<open>The two versions of \<open>memset\<close> and \<open>memmove\<close> are the same.\<close>

lemma memset_same:
  assumes "n < 0x80000000"
  shows "memset flat_store p c n m = memset_c flat_store p c n m"
proof -
  have u: "uint n < 2147483648"
    using assms by (simp add: word_less_def)
  have "sint n = uint n"
    unfolding sint_uint by (rule signed_take_bit_int_eq_self) (use u in \<open>simp_all add: order_trans [OF _ uint_ge_0]\<close>)
  then have "nat (sint n) = unat n"
    by (simp only: unat_eq_nat_uint)
  then show ?thesis
    using flat.memset_ok [of m p n c] flat.stosb_ok [of m p "unat n" "ucast c"]
    by (auto simp: flat_ranges flat_wrote memset_c_def)
qed

lemma memmove_same: "memmove flat_load flat_store dst src n m = memmove_c flat_load flat_store dst src n m"
  using flat.memmove_bytes [of m src n dst] flat.memmove_words [of m src n dst]
    words_moved [of n dst src m]
  by (auto simp: flat_ranges flat_wrote memmove_def memmove_c_def Let_def)

lemma put_bytes_outside:
  "(\<And>i. i < length bs \<Longrightarrow> p + of_nat i \<noteq> a) \<Longrightarrow> put_bytes p bs m a = m a"
proof (induction bs arbitrary: p m)
  case (Cons b bs)
  have "p + 1 + of_nat i \<noteq> a" if "i < length bs" for i
    using Cons.prems [of "Suc i"] that by (simp add: add.assoc)
  with Cons.IH [of "p + 1"] Cons.prems [of 0] show ?case by auto
qed simp

lemma put_bytes_snoc: "put_bytes d (ys @ [z]) m = (put_bytes d ys m)(d + of_nat (length ys) := z)"
  by (induction ys arbitrary: d m) (simp_all flip: add.assoc)

lemma put_bytes_cstr:
  "0 \<notin> set xs \<Longrightarrow> length xs < 4294967296 \<Longrightarrow> cstr (put_bytes d (xs @ [0]) m) d xs"
proof (induction xs arbitrary: d m)
  case (Cons x xs)
  have "d + 1 + of_nat i \<noteq> d" if "i < length (xs @ [0])" for i
  proof -
    have "of_nat (Suc i) \<noteq> (0 :: u32)"
      using that Cons.prems(2) by (simp add: word_of_nat_eq_0_iff nat_dvd_not_less del: of_nat_Suc)
    then show ?thesis by (simp add: add.assoc)
  qed
  then have "put_bytes (d + 1) (xs @ [0]) (m(d := x)) d = x"
    by (subst put_bytes_outside) auto
  with Cons show ?case by simp
qed simp

lemma byte_diff_less: "0 \<notin> set xs \<Longrightarrow> 0 \<notin> set ys \<Longrightarrow> byte_diff xs ys < 0 \<longleftrightarrow> (xs, ys) \<in> lexord {(a, b). a < b}"
  by (induction xs ys rule: byte_diff.induct) (auto simp: word_less_def uint_0_iff order.strict_iff_order)

lemma cstr_nonzero: "cstr m p xs \<Longrightarrow> 0 \<notin> set xs"
  by (induction xs arbitrary: p) auto

section \<open>Reading numbers\<close>

definition digit_byte :: "nat \<Rightarrow> u8" where
  "digit_byte d = (if d < 10 then of_nat (48 + d) else of_nat (87 + d))"

lemma digit_bytes:
  assumes "d < 16"
  shows "digit_of (digit_byte d) = Some (int d)" "digit_byte d \<notin> {0, 9, 32, 43, 45, 120}"
proof -
  have "\<forall>d \<in> set [0..<16]. digit_of (digit_byte d) = Some (int d) \<and> digit_byte d \<notin> {0, 9, 32, 43, 45, 120}"
    by (simp add: upt_rec digit_byte_def digit_of_def)
  with assms show "digit_of (digit_byte d) = Some (int d)" "digit_byte d \<notin> {0, 9, 32, 43, 45, 120}" by auto
qed

lemma foldl_ge: "1 \<le> base \<Longrightarrow> v \<le> foldl (\<lambda>v d. v * base + d) v (ds :: nat list)"
proof (induction ds arbitrary: v)
  case (Cons d ds)
  then have "v \<le> v * base + d" by (simp add: trans_le_add1)
  also have "\<dots> \<le> foldl (\<lambda>v d. v * base + d) (v * base + d) ds" using Cons by simp
  finally show ?case by simp
qed simp

lemma strtol_loop_digits:
  assumes "cstr m p (map digit_byte ds)" "\<And>d. d \<in> set ds \<Longrightarrow> d < base" "1 \<le> base" "base \<le> 16" "length ds < k"
    "foldl (\<lambda>v d. v * base + d) v ds \<le> 2147483647"
  shows "strtol_loop flat_load k p (int base) (int v) m =
    Inr ((int (foldl (\<lambda>v d. v * base + d) v ds), p + of_nat (length ds)), m)"
  using assms
proof (induction ds arbitrary: p k v)
  case Nil
  then show ?case by (cases k) (auto simp: flat_access digit_of_def)
next
  case (Cons d ds)
  obtain k' where k: "k = Suc k'" using Cons.prems(5) by (cases k) auto
  have d: "d < base" "d < 16" using Cons.prems(2) [of d] Cons.prems(4) by auto
  have "v * base + d \<le> 2147483647"
    using foldl_ge [OF Cons.prems(3), of "v * base + d" ds] Cons.prems(6) by simp
  then have le: "int v * int base + int d \<le> 2147483647"
    by (metis of_nat_add of_nat_le_iff of_nat_mult of_nat_numeral)
  have "strtol_loop flat_load k' (p + 1) (int base) (int (v * base + d)) m =
      Inr ((int (foldl (\<lambda>v d. v * base + d) (v * base + d) ds), p + 1 + of_nat (length ds)), m)"
    using Cons.prems k by (intro Cons.IH) auto
  moreover have "flat_load p m = Inr (digit_byte d, m)"
    using Cons.prems(1) by (simp add: flat_access)
  ultimately show ?case
    using k d digit_bytes(1) [OF d(2)] le by (simp add: add.assoc)
qed

lemma strtol_digits:
  assumes "cstr m p (map digit_byte ds)" "ds \<noteq> []" "\<And>d. d \<in> set ds \<Longrightarrow> d < base" "2 \<le> base" "base \<le> 16"
    "length ds < 4294967296" "foldl (\<lambda>v d. v * base + d) 0 ds \<le> 2147483647"
  shows "strtol flat_load p (int base) m = Inr ((int (foldl (\<lambda>v d. v * base + d) 0 ds), p + of_nat (length ds)), m)"
proof -
  obtain d es where ds: "ds = d # es" using assms(2) by (cases ds) auto
  have d: "digit_byte d \<notin> {0, 9, 32, 43, 45, 120}" "m p = digit_byte d"
    using assms(1) assms(3) [of d] assms(5) ds digit_bytes(2) [of d] by simp_all
  have n: "m (p + 1) \<noteq> 120"
  proof (cases es)
    case (Cons e fs)
    then show ?thesis
      using assms(1) assms(3) [of e] assms(5) ds digit_bytes(2) [of e] by auto
  qed (use assms(1) ds in simp)
  have ws: "skip_space flat_load 4294967296 p m = Inr (p, m)"
    using skip_space.simps(2) [of flat_load 4294967295 p m] d by (simp add: flat_access)
  have b: "strtol_base flat_load p (int base) m = Inr ((p, int base), m)"
    using assms(4) n by (simp add: strtol_base_def flat_access)
  have r: "flat_load p m = Inr (digit_byte d, m)"
    using d(2) by (simp add: flat_access)
  show ?thesis
    using ws b r d(1) strtol_loop_digits [OF assms(1,3) _ assms(5,6,7)] assms(4)
    by (simp add: strtol_def)
qed

section \<open>Properties\<close>

text \<open>C28. The version of \<open>memmove\<close> with string instructions, which moves words where both ends are aligned and
  runs backwards over an overlap, computes for all arguments what the C version computes. For ranges that do
  not reach the end of the address space the destination receives the old bytes of the source, also if the
  two overlap, and no other byte changes.\<close>

theorem memmove_correct:
  "memmove flat_load flat_store dst src n m = memmove_c flat_load flat_store dst src n m \<and>
   (unat src + unat n < 2 ^ 32 \<and> unat dst + unat n \<le> 2 ^ 32 \<longrightarrow>
     memmove flat_load flat_store dst src n m =
       Inr (dst, \<lambda>a. if unat dst \<le> unat a \<and> unat a < unat dst + unat n then m (src + (a - dst)) else m a))"
  using memmove_same flat.memmove_ok [of m src n dst]
  by (auto simp: flat_ranges flat_wrote moved_def [abs_def])

theorem memmove_correct_witness:
  "memmove flat_load flat_store 0x1002 0x1000 6 (\<lambda>a. ucast a) =
     Inr (0x1002, \<lambda>a. if 0x1002 \<le> unat a \<and> unat a < 0x1002 + 6 then ucast (0x1000 + (a - 0x1002)) else ucast a)"
  using memmove_correct [of "0x1002" "0x1000" 6 "\<lambda>a. ucast a", THEN conjunct2] by simp

text \<open>\<open>strcmp\<close> of two strings in memory is zero exactly for equal strings and negative exactly if the first
  precedes the second in the lexicographic order of unsigned bytes.\<close>

lemma strcmp_correct:
  assumes "cstr m p xs" "cstr m q ys" "length xs < 2 ^ 32"
  shows "\<exists>d. strcmp flat_load flat_load p q m = Inr (d, m) \<and> (d = 0 \<longleftrightarrow> xs = ys) \<and>
    (d < 0 \<longleftrightarrow> (xs, ys) \<in> lexord {(a, b). a < b})"
proof -
  have nz: "0 \<notin> set xs" "0 \<notin> set ys"
    using assms(1,2) by (auto dest: cstr_nonzero)
  have "flat.supplies flat_load m {} q (ys @ [0])"
    using assms(2) by (intro flat.cstr_supplies) (auto simp: flat_ranges)
  then have "strcmp flat_load flat_load p q m = Inr (byte_diff xs ys, m)"
    using flat.strcmp_loop_ok [of m p xs flat_load m q ys 4294967296] assms nz
    by (auto simp: strcmp_def flat_ranges flat_wrote)
  with byte_diff_0 [OF nz] byte_diff_less [OF nz] show ?thesis by simp
qed

text \<open>\<open>strlcpy\<close> into a buffer of \<open>sz > 0\<close> bytes away from the source stores the longest prefix that fits
  with a terminator, returns its length, and changes no byte outside the buffer.\<close>

lemma strlcpy_correct:
  assumes "cstr m src xs" "0 < sz" "\<And>i j. i < unat sz \<Longrightarrow> j \<le> length xs \<Longrightarrow> dst + of_nat i \<noteq> src + of_nat j"
  shows "\<exists>m'. strlcpy flat_load flat_store dst src sz m = Inr (of_nat (length (take (unat sz - 1) xs)), m') \<and>
    cstr m' dst (take (unat sz - 1) xs) \<and> (\<forall>a. (\<forall>i<unat sz. a \<noteq> dst + of_nat i) \<longrightarrow> m' a = m a)"
proof -
  let ?D = "(\<lambda>i. dst + of_nat i) ` {..<unat sz}" and ?xs = "take (unat sz - 1) xs"
  have sz: "0 < unat sz" using assms(2) by (simp add: word_less_nat_alt)
  have nz: "0 \<notin> set xs" using assms(1) by (rule cstr_nonzero)
  have len: "length ?xs < unat sz" using sz by simp
  have sup: "flat.supplies flat_load m ?D src (xs @ [0])"
    using assms(1,3) by (intro flat.cstr_supplies) (auto simp: flat_ranges, metis)
  have ch: "flat.changed ?D m m" by (simp add: flat.changed_def)
  have "\<exists>m1. strlcpy_loop flat_load flat_store (unat sz - 1) dst src m = Inr (dst + of_nat (length ?xs), m1) \<and>
      flat.wrote (put_bytes dst ?xs) m m1"
    by (rule flat.strlcpy_loop_ok [OF ch sup nz]) (auto simp: flat_ranges)
  then have "strlcpy flat_load flat_store dst src sz m =
      Inr (of_nat (length ?xs), put_bytes dst (?xs @ [0]) m)"
    using assms(2) by (auto simp: strlcpy_def flat_wrote flat_access put_bytes_snoc)
  moreover have "cstr (put_bytes dst (?xs @ [0]) m) dst ?xs"
    using nz len unsigned_less [of sz, where 'a = nat] by (intro put_bytes_cstr) (auto dest: in_set_takeD)
  moreover have "put_bytes dst (?xs @ [0]) m a = m a" if "\<forall>i<unat sz. a \<noteq> dst + of_nat i" for a
  proof (rule put_bytes_outside)
    fix i
    assume "i < length (?xs @ [0])"
    with len have "i < unat sz" by simp
    with that show "dst + of_nat i \<noteq> a" by blast
  qed
  ultimately show ?thesis by auto
qed

end
