(* ===== verification/BlockCache.thy ===== *)
theory BlockCache
  imports CString
begin

text \<open>
  The block cache of the file server (fs/bc.c) over the disk driver (fs/ide.c). The server sees disk block
  \<open>b\<close> at the addresses \<open>DISKMAP + b * BLKSIZE\<close>; an access to a block that is not mapped there faults, and
  \<open>bc_pgfault\<close> reads it from the disk. A load or store of the server is modelled with this fault. The
  handler itself reads the super block and the bitmap, so it can fault in turn: at most for a bitmap
  block and then for the first bitmap block, if the super block stays mapped, so nesting of depth three
  is enough.

  The state is the memory of the server, which of the blocks are mapped and dirty, the disk, the number of
  pages the kernel can still give, and the blocks with disk errors. Of the driver the state has whole
  blocks; the handshake with the controller is not modelled. Messages on the console are not part of the
  state.

  Proved: the cache is a memory in the sense of \<open>ram\<close>, with the contents of the disk under the changes
  made in memory as its view, and what flushing does.
\<close>

unbundle bit_operations_syntax

section \<open>Layout (fs/fs.h, inc/fs.h)\<close>

definition BLKSIZE :: u32 where [simp]: "BLKSIZE = 4096"
definition DISKMAP :: u32 where [simp]: "DISKMAP = 0x10000000"
definition DISKSIZE :: u32 where [simp]: "DISKSIZE = 0xC0000000"
definition FS_MAGIC :: u32 where [simp]: "FS_MAGIC = 0x4A0530AE"

definition in_cache :: "u32 \<Rightarrow> bool" where
  "in_cache a \<longleftrightarrow> DISKMAP \<le> a \<and> a < DISKMAP + DISKSIZE"

definition blk_of :: "u32 \<Rightarrow> nat" where
  "blk_of a = unat ((a - DISKMAP) div BLKSIZE)"

definition off_of :: "u32 \<Rightarrow> nat" where
  "off_of a = unat (a mod BLKSIZE)"

text \<open>The addresses of \<open>super->s_magic\<close>, \<open>super->s_nblocks\<close> and of a word of the bitmap.\<close>

definition s_magic :: u32 where [simp]: "s_magic = 0x10001000"
definition s_nblocks :: u32 where [simp]: "s_nblocks = 0x10001004"

definition bitmap_word :: "nat \<Rightarrow> u32" where
  "bitmap_word b = 0x10002000 + 4 * of_nat (b div 32)"

record bcache =
  mem :: "u32 \<Rightarrow> u8"
  mapped :: "nat \<Rightarrow> bool"
  dirty :: "nat \<Rightarrow> bool"
  disk :: "nat \<Rightarrow> nat \<Rightarrow> u8"
  super_set :: bool
  bitmap_set :: bool
  avail :: nat
  bad :: "nat \<Rightarrow> bool"

section \<open>Faults\<close>

definition ide_read :: "nat \<Rightarrow> ('x) bcache_scheme \<Rightarrow> (('x) bcache_scheme, int) res" where
  "ide_read b s =
    (if bad s b then Inr (- 1, s)
     else Inr (0, s\<lparr>mem := (\<lambda>a. if in_cache a \<and> blk_of a = b then disk s b (off_of a) else mem s a),
                    dirty := (dirty s)(b := True)\<rparr>))"

definition ide_write :: "nat \<Rightarrow> ('x) bcache_scheme \<Rightarrow> (('x) bcache_scheme, int) res" where
  "ide_write b s =
    (if bad s b then Inr (- 1, s)
     else Inr (0, s\<lparr>disk := (disk s)(b := (\<lambda>i. mem s (DISKMAP + of_nat b * BLKSIZE + of_nat i)))\<rparr>))"

text \<open>
  The second half of \<open>bc_pgfault\<close> up to the check of the bitmap: a page from \<open>sys_page_alloc\<close> is filled from the
  disk, and mapping it again clears its dirty bit.
\<close>

definition page_in :: "nat \<Rightarrow> ('x) bcache_scheme \<Rightarrow> (('x) bcache_scheme, unit) res" where
  "page_in b s =
    (if avail s = 0 then Inl (Panic ''bg_pgfault: sys_page_alloc'')
     else
       let s = s\<lparr>avail := avail s - 1, mapped := (mapped s)(b := True), dirty := (dirty s)(b := False),
                 mem := (\<lambda>a. if in_cache a \<and> blk_of a = b then 0 else mem s a)\<rparr>
       in bindR (ide_read b s) (\<lambda>(r, s).
            if r \<noteq> 0 then Inl (Panic ''bc_pgfault, ide_read'')
            else Inr ((), s\<lparr>dirty := (dirty s)(b := False)\<rparr>)))"

text \<open>
  An access to block \<open>b\<close>: nothing happens if it is mapped, otherwise \<open>bc_pgfault\<close> runs. The handler faults on
  the super block and on the bitmap itself; the first argument bounds the nesting.
\<close>

fun touch :: "nat \<Rightarrow> nat \<Rightarrow> ('x) bcache_scheme \<Rightarrow> (('x) bcache_scheme, unit) res" where
  "touch 0 b s = (if mapped s b then Inr ((), s) else Inl (Undefined ''nested faults''))"
| "touch (Suc k) b s =
    (if mapped s b then Inr ((), s)
     else
       bindR (if super_set s then
                bindR (touch k 1 s) (\<lambda>(_, s).
                  if word_at (mem s) s_nblocks \<le> of_nat b then Inl (Panic ''reading non-existent block'')
                  else Inr ((), s))
              else Inr ((), s)) (\<lambda>(_, s).
       bindR (page_in b s) (\<lambda>(_, s).
         if bitmap_set s \<and> super_set s then
           bindR (touch k 1 s) (\<lambda>(_, s).
             if word_at (mem s) s_nblocks \<le> of_nat b then Inr ((), s)
             else bindR (touch k (2 + b div 32768) s) (\<lambda>(_, s).
               if bit (word_at (mem s) (bitmap_word b)) (b mod 32) then Inl (Panic ''reading free block'')
               else Inr ((), s)))
         else Inr ((), s))))"

definition bc_pgfault :: "u32 \<Rightarrow> ('x) bcache_scheme \<Rightarrow> (('x) bcache_scheme, unit) res" where
  "bc_pgfault addr s =
    (if \<not> in_cache addr then Inl (Panic ''page fault in FS'') else touch 3 (blk_of addr) s)"

definition load8 :: "('x) bcache_scheme loader" where
  "load8 a s =
    (if in_cache a then bindR (bc_pgfault a s) (\<lambda>(_, s). Inr (mem s a, s)) else Inr (mem s a, s))"

definition store8 :: "('x) bcache_scheme storer" where
  "store8 a b s =
    (if in_cache a then
       bindR (bc_pgfault a s) (\<lambda>(_, s). Inr ((), s\<lparr>mem := (mem s)(a := b), dirty := (dirty s)(blk_of a := True)\<rparr>))
     else Inr ((), s\<lparr>mem := (mem s)(a := b)\<rparr>))"

abbreviation load32 :: "u32 \<Rightarrow> ('x) bcache_scheme \<Rightarrow> (('x) bcache_scheme, u32) res" where
  "load32 \<equiv> load_word load8"

abbreviation store32 :: "u32 \<Rightarrow> u32 \<Rightarrow> ('x) bcache_scheme \<Rightarrow> (('x) bcache_scheme, unit) res" where
  "store32 \<equiv> store_word store8"

section \<open>Operations\<close>

definition diskaddr :: "u32 \<Rightarrow> ('x) bcache_scheme \<Rightarrow> (('x) bcache_scheme, u32) res" where
  "diskaddr blockno s =
    (if blockno = 0 then Inl (Panic ''bad block number in diskaddr'')
     else bindR (if super_set s then bindR (load32 s_nblocks s) (\<lambda>(n, s). Inr (blockno \<ge> n, s)) else Inr (False, s)) (\<lambda>(b, s).
       if b then Inl (Panic ''bad block number in diskaddr'')
       else Inr (DISKMAP + blockno * BLKSIZE, s)))"

definition va_is_mapped :: "u32 \<Rightarrow> ('x) bcache_scheme \<Rightarrow> bool" where
  "va_is_mapped va s \<longleftrightarrow> mapped s (blk_of va)"

definition va_is_dirty :: "u32 \<Rightarrow> ('x) bcache_scheme \<Rightarrow> bool" where
  "va_is_dirty va s \<longleftrightarrow> dirty s (blk_of va)"

definition flush_block :: "u32 \<Rightarrow> ('x) bcache_scheme \<Rightarrow> (('x) bcache_scheme, unit) res" where
  "flush_block addr s =
    (let blockno = blk_of addr
     in if \<not> in_cache addr then Inl (Panic ''flush_block of bad va'')
        else
          let addr = ROUNDDOWN addr BLKSIZE
          in if \<not> va_is_mapped addr s then Inr ((), s)
             else if \<not> va_is_dirty addr s then Inr ((), s)
             else bindR (ide_write blockno s) (\<lambda>(_, s).
               Inr ((), s\<lparr>dirty := (dirty s)(blockno := False)\<rparr>)))"

text \<open>
  \<open>check_bc\<close> with the address of its local variable \<open>backup\<close>, a \<open>struct Super\<close> of 264 bytes. Unmapping the
  page of a block gives it back to the kernel.
\<close>

definition page_unmap :: "u32 \<Rightarrow> ('x) bcache_scheme \<Rightarrow> ('x) bcache_scheme" where
  "page_unmap va s =
    s\<lparr>mapped := (mapped s)(blk_of va := False), dirty := (dirty s)(blk_of va := False),
      avail := (if mapped s (blk_of va) then Suc (avail s) else avail s)\<rparr>"

definition smash_text :: "u8 list" where
  "smash_text = [79, 79, 80, 83, 33, 10]"

definition check_bc :: "u32 \<Rightarrow> ('x) bcache_scheme \<Rightarrow> (('x) bcache_scheme, unit) res" where
  "check_bc backup s =
    bindR (diskaddr 1 s) (\<lambda>(d, s).
    bindR (memmove load8 store8 backup d 264 s) (\<lambda>(_, s).
    bindR (diskaddr 1 s) (\<lambda>(d, s).
    bindR (strcpy (text_load smash_text) store8 d 0 s) (\<lambda>(_, s).
    bindR (diskaddr 1 s) (\<lambda>(d, s).
    bindR (flush_block d s) (\<lambda>(_, s).
    bindR (diskaddr 1 s) (\<lambda>(d, s).
      if \<not> va_is_mapped d s then Inl (Panic ''assertion failed: va_is_mapped'')
      else bindR (diskaddr 1 s) (\<lambda>(d, s).
      if va_is_dirty d s then Inl (Panic ''assertion failed: !va_is_dirty'')
      else bindR (diskaddr 1 s) (\<lambda>(d, s).
    let s = page_unmap d s in
    bindR (diskaddr 1 s) (\<lambda>(d, s).
      if va_is_mapped d s then Inl (Panic ''assertion failed: !va_is_mapped'')
      else bindR (diskaddr 1 s) (\<lambda>(d, s).
    bindR (strcmp load8 (text_load smash_text) d 0 s) (\<lambda>(r, s).
      if r \<noteq> 0 then Inl (Panic ''assertion failed: strcmp'')
      else bindR (diskaddr 1 s) (\<lambda>(d, s).
    bindR (memmove load8 store8 d backup 264 s) (\<lambda>(_, s).
    bindR (diskaddr 1 s) (\<lambda>(d, s). flush_block d s)))))))))))))))"

text \<open>The page fault handler that \<open>bc_init\<close> installs first is part of \<open>load8\<close> and \<open>store8\<close>.\<close>

definition bc_init :: "u32 \<Rightarrow> u32 \<Rightarrow> ('x) bcache_scheme \<Rightarrow> (('x) bcache_scheme, unit) res" where
  "bc_init backup super s =
    bindR (check_bc backup s) (\<lambda>(_, s).
    bindR (diskaddr 1 s) (\<lambda>(d, s).
    bindR (memmove load8 store8 super d 264 s) (\<lambda>(_, s). Inr ((), s))))"

section \<open>Addresses\<close>

lemma unat_in_cache: "in_cache a \<longleftrightarrow> 268435456 \<le> unat a \<and> unat a < 3489660928"
  by (simp add: in_cache_def word_le_nat_alt word_less_nat_alt)

lemma block_split:
  assumes "4096 * x + y = 4096 * b + (i :: nat)" "y < 4096" "i < 4096"
  shows "x = b" "y = i"
proof -
  have "(4096 * x + y) div 4096 = x" "(4096 * b + i) div 4096 = b"
    using assms(2,3) by simp_all
  with assms(1) show "x = b" by simp
  with assms(1) show "y = i" by simp
qed

lemma cache_addr:
  assumes "in_cache a"
  shows "unat a = 268435456 + 4096 * blk_of a + off_of a" "blk_of a < 786432" "off_of a < 4096"
proof -
  have u: "268435456 \<le> unat a" "unat a < 3489660928"
    using assms by (simp_all add: unat_in_cache)
  then have "unat (a - DISKMAP) = unat a - 268435456"
    by (simp add: unat_sub word_le_nat_alt)
  then have b: "blk_of a = (unat a - 268435456) div 4096"
    by (simp add: blk_of_def unat_div_distrib)
  have o: "off_of a = unat a mod 4096"
    by (simp add: off_of_def unat_mod_distrib)
  obtain d where d: "unat a = 268435456 + d" using u(1) le_Suc_ex by blast
  have "(65536 * 4096 + d) mod 4096 = d mod 4096" by (rule mod_mult_self3)
  then have "unat a mod 4096 = d mod 4096" unfolding d by simp
  then show "unat a = 268435456 + 4096 * blk_of a + off_of a"
    using d b o by simp
  show "blk_of a < 786432" using b u by simp
  show "off_of a < 4096" using o by simp
qed

definition blk_addr :: "nat \<Rightarrow> nat \<Rightarrow> u32" where
  "blk_addr b i = DISKMAP + of_nat b * BLKSIZE + of_nat i"

lemma blk_addr:
  assumes "b < 786432" "i < 4096"
  shows "unat (blk_addr b i) = 268435456 + 4096 * b + i" "in_cache (blk_addr b i)" "blk_of (blk_addr b i) = b"
    "off_of (blk_addr b i) = i"
proof -
  have "blk_addr b i = of_nat (268435456 + 4096 * b + i)"
    by (simp add: blk_addr_def)
  then have "unat (blk_addr b i) = (268435456 + 4096 * b + i) mod 2 ^ 32"
    by (simp add: unat_of_nat del: of_nat_add of_nat_mult)
  then show u: "unat (blk_addr b i) = 268435456 + 4096 * b + i"
    using assms by simp
  then show c: "in_cache (blk_addr b i)"
    using assms by (simp add: unat_in_cache)
  show "blk_of (blk_addr b i) = b" "off_of (blk_addr b i) = i"
    using block_split [of "blk_of (blk_addr b i)" "off_of (blk_addr b i)" b i] cache_addr [OF c] u assms(2) by simp_all
qed

lemma cache_addr_eq: "in_cache a \<Longrightarrow> a = blk_addr (blk_of a) (off_of a)"
  using cache_addr [of a] blk_addr(1) [of "blk_of a" "off_of a"] by (simp add: word_unat_eq_iff)

lemma blk_addr_add: "blk_addr b i + of_nat j = blk_addr b (i + j)"
  by (simp add: blk_addr_def add.assoc)

text \<open>The word of the bitmap for block \<open>b\<close> is in block \<open>2 + b / BLKBITSIZE\<close>.\<close>

lemma bitmap_word_addr: "bitmap_word b = blk_addr (2 + b div 32768) (4 * (b div 32 mod 1024))"
proof -
  have "1024 * (b div 32768) + b div 32 mod 1024 = b div 32"
    using div_mult_mod_eq [of "b div 32" 1024] by (simp add: div_mult2_eq [symmetric])
  then have "of_nat (1024 * (b div 32768) + b div 32 mod 1024) = (of_nat (b div 32) :: u32)"
    by (rule arg_cong)
  then have "(of_nat (b div 32) :: u32) = 1024 * of_nat (b div 32768) + of_nat (b div 32 mod 1024)"
    by simp
  then show ?thesis
    by (simp add: bitmap_word_def blk_addr_def algebra_simps)
qed

section \<open>The view\<close>

text \<open>The disk, with the changes in mapped blocks; memory outside the cache as it is.\<close>

definition view :: "('x) bcache_scheme \<Rightarrow> u32 \<Rightarrow> u8" where
  "view s a = (if in_cache a \<and> \<not> mapped s (blk_of a) then disk s (blk_of a) (off_of a) else mem s a)"

definition nblocks :: "(u32 \<Rightarrow> u8) \<Rightarrow> nat" where
  "nblocks m = unat (word_at m s_nblocks)"

definition free_bit :: "(u32 \<Rightarrow> u8) \<Rightarrow> nat \<Rightarrow> bool" where
  "free_bit m b \<longleftrightarrow> bit (word_at m (bitmap_word b)) (b mod 32)"

text \<open>A clean block in memory has the contents of the disk.\<close>

definition coherent :: "('x) bcache_scheme \<Rightarrow> bool" where
  "coherent s \<longleftrightarrow> (\<forall>a. in_cache a \<longrightarrow> mapped s (blk_of a) \<longrightarrow> \<not> dirty s (blk_of a) \<longrightarrow> mem s a = disk s (blk_of a) (off_of a))"

text \<open>Blocks 0 and 1 and the bitmap.\<close>

definition reserved :: "nat \<Rightarrow> nat" where
  "reserved n = 2 + (n + 32767) div 32768"

definition meta_ok :: "(u32 \<Rightarrow> u8) \<Rightarrow> bool" where
  "meta_ok m \<longleftrightarrow> nblocks m \<le> 786432 \<and> reserved (nblocks m) \<le> nblocks m \<and>
    (\<forall>b<reserved (nblocks m). \<not> free_bit m b)"

definition bc_ok :: "('x) bcache_scheme \<Rightarrow> bool" where
  "bc_ok s \<longleftrightarrow> super_set s \<and> bitmap_set s \<and> mapped s 1 \<and> meta_ok (view s) \<and> (\<forall>b. \<not> bad s b) \<and> coherent s \<and>
    card {b. b < nblocks (view s) \<and> \<not> mapped s b} \<le> avail s"

text \<open>Addresses in blocks that are in use, and addresses whose contents the cache does not depend on.\<close>

definition bc_acc :: "('x) bcache_scheme \<Rightarrow> u32 \<Rightarrow> bool" where
  "bc_acc s a \<longleftrightarrow> \<not> in_cache a \<or> blk_of a < nblocks (view s) \<and> \<not> free_bit (view s) (blk_of a)"

definition meta_addr :: "nat \<Rightarrow> u32 \<Rightarrow> bool" where
  "meta_addr n a \<longleftrightarrow> in_cache a \<and> (blk_of a = 1 \<and> off_of a < 8 \<or> 2 \<le> blk_of a \<and> blk_of a < reserved n)"

definition bc_plain :: "('x) bcache_scheme \<Rightarrow> u32 \<Rightarrow> bool" where
  "bc_plain s a \<longleftrightarrow> \<not> meta_addr (nblocks (view s)) a"

lemma word_at_agree: "(\<And>j. j < 4 \<Longrightarrow> m (p + of_nat j) = m' (p + of_nat j)) \<Longrightarrow> word_at m p = word_at m' p"
proof -
  assume a: "\<And>j. j < 4 \<Longrightarrow> m (p + of_nat j) = m' (p + of_nat j)"
  show ?thesis
    using a [of 0] a [of 1] a [of 2] a [of 3] by (simp add: word_at_def get4_def)
qed

lemma meta_agree:
  assumes m: "\<And>a. meta_addr (nblocks m) a \<Longrightarrow> m' a = m a" and n: "nblocks m \<le> 786432" "reserved (nblocks m) \<le> 786432"
  shows "nblocks m' = nblocks m" "b < nblocks m \<Longrightarrow> free_bit m' b = free_bit m b"
proof -
  have "s_nblocks + of_nat j = blk_addr 1 (4 + j)" for j
    by (simp add: blk_addr_def)
  then have "word_at m' s_nblocks = word_at m s_nblocks"
    using blk_addr [of 1] by (intro word_at_agree m) (simp add: meta_addr_def)
  then show "nblocks m' = nblocks m" by (simp add: nblocks_def)
  show "free_bit m' b = free_bit m b" if b: "b < nblocks m"
  proof -
    have bb: "2 + b div 32768 < reserved (nblocks m)"
    proof -
      have "(b + 32768) div 32768 \<le> (nblocks m + 32767) div 32768"
        by (rule div_le_mono) (use b in simp)
      then show ?thesis by (simp add: reserved_def)
    qed
    have k: "4 * (b div 32 mod 1024) + j < 4096" if "j < 4" for j
    proof -
      have "b div 32 mod 1024 < 1024" by simp
      with that show ?thesis by linarith
    qed
    have "word_at m' (bitmap_word b) = word_at m (bitmap_word b)"
    proof (rule word_at_agree, rule m)
      fix j :: nat
      assume "j < 4"
      then show "meta_addr (nblocks m) (bitmap_word b + of_nat j)"
        using blk_addr [of "2 + b div 32768" "4 * (b div 32 mod 1024) + j"] bb k [of j] n(2)
        by (simp add: meta_addr_def bitmap_word_addr blk_addr_add)
    qed
    then show ?thesis by (simp add: free_bit_def)
  qed
qed

lemma meta_okD:
  assumes "meta_ok m"
  shows "nblocks m \<le> 786432" "reserved (nblocks m) \<le> 786432" "b < reserved (nblocks m) \<Longrightarrow> \<not> free_bit m b"
    "1 < nblocks m" "b < nblocks m \<Longrightarrow> 2 + b div 32768 < reserved (nblocks m)"
proof -
  show "nblocks m \<le> 786432" "reserved (nblocks m) \<le> 786432" "b < reserved (nblocks m) \<Longrightarrow> \<not> free_bit m b"
    using assms by (auto simp: meta_ok_def)
  show "1 < nblocks m" using assms by (simp add: meta_ok_def reserved_def)
  assume "b < nblocks m"
  then have "(b + 32768) div 32768 \<le> (nblocks m + 32767) div 32768"
    by (intro div_le_mono) simp
  then show "2 + b div 32768 < reserved (nblocks m)" by (simp add: reserved_def)
qed

section \<open>Accesses\<close>

lemma view_mapped: "mapped s b \<Longrightarrow> blk_of a = b \<Longrightarrow> view s a = mem s a"
  by (simp add: view_def)

lemma word_mem:
  assumes "b < 786432" "i + 3 < 4096" "mapped s b"
  shows "word_at (mem s) (blk_addr b i) = word_at (view s) (blk_addr b i)"
  using assms blk_addr(3) [of b]
  by (intro word_at_agree) (simp add: blk_addr_add view_mapped [symmetric])

lemma nblocks_mem: "mapped s 1 \<Longrightarrow> word_at (mem s) s_nblocks = of_nat (nblocks (view s))"
  using word_mem [of 1 4 s] by (simp add: nblocks_def blk_addr_def)

lemma free_bit_mem:
  assumes "mapped s (2 + b div 32768)" "b < 786432"
  shows "bit (word_at (mem s) (bitmap_word b)) (b mod 32) = free_bit (view s) b"
proof -
  have "b div 32 mod 1024 < 1024" by simp
  then have "4 * (b div 32 mod 1024) + 3 < 4096" by linarith
  with assms show ?thesis
    using word_mem [of "2 + b div 32768" "4 * (b div 32 mod 1024)" s] by (simp add: free_bit_def bitmap_word_addr)
qed

definition touched :: "('x) bcache_scheme \<Rightarrow> ('x) bcache_scheme \<Rightarrow> bool" where
  "touched s s' \<longleftrightarrow> bc_ok s' \<and> view s' = view s \<and> disk s' = disk s \<and> (\<forall>b. mapped s b \<longrightarrow> mapped s' b)"

lemma touched_trans: "touched s t \<Longrightarrow> touched t u \<Longrightarrow> touched s u"
  by (simp add: touched_def)

lemma touch_mapped: "mapped s b \<Longrightarrow> touch k b s = Inr ((), s)"
  by (cases k) auto

declare touch.simps [simp del]

lemma page_in_ok:
  assumes s: "bc_ok s" and b: "b < nblocks (view s)" "\<not> mapped s b"
  obtains s' where "page_in b s = Inr ((), s')" "touched s s'" "mapped s' b"
proof -
  let ?U = "\<lambda>s. {b. b < nblocks (view s) \<and> \<not> mapped s b}"
  have fin: "finite (?U s)" by simp
  have "card (?U s) > 0" using b by (auto simp: card_gt_0_iff)
  moreover have c: "card (?U s) \<le> avail s" using s by (simp add: bc_ok_def)
  ultimately have av: "avail s \<noteq> 0" by simp
  define s' where "s' = s\<lparr>avail := avail s - 1, mapped := (mapped s)(b := True), dirty := (dirty s)(b := False),
     mem := (\<lambda>a. if in_cache a \<and> blk_of a = b then disk s b (off_of a) else mem s a)\<rparr>"
  have nb: "\<not> bad s b" using s by (simp add: bc_ok_def)
  have eq: "page_in b s = Inr ((), s')"
    using av nb by (auto simp: page_in_def ide_read_def Let_def s'_def fun_eq_iff intro!: bcache.equality)
  have v: "view s' = view s"
    using b(2) by (auto simp: fun_eq_iff view_def s'_def)
  have "?U s' = ?U s - {b}" unfolding v by (auto simp: s'_def)
  then have "card (?U s') = card (?U s) - 1"
    using b fin by (simp add: card_Diff_singleton)
  moreover have "coherent s'"
    using s by (auto simp: bc_ok_def coherent_def s'_def)
  ultimately have "bc_ok s'"
    using s c av v by (auto simp: bc_ok_def s'_def)
  then have "touched s s'"
    using v by (simp add: touched_def s'_def)
  with eq show thesis by (rule that) (simp add: s'_def)
qed

lemma touch_step:
  fixes s :: "('x) bcache_scheme"
  assumes s: "bc_ok s" and b: "b < nblocks (view s)" "\<not> free_bit (view s) b"
    and bm: "\<And>t :: ('x) bcache_scheme. bc_ok t \<Longrightarrow> view t = view s \<Longrightarrow> mapped t b \<Longrightarrow>
      \<exists>t'. touch k (2 + b div 32768) t = Inr ((), t') \<and> touched t t' \<and> mapped t' (2 + b div 32768)"
  shows "\<exists>s'. touch (Suc k) b s = Inr ((), s') \<and> touched s s' \<and> mapped s' b"
proof (cases "mapped s b")
  case True
  with s show ?thesis by (simp add: touched_def touch_mapped)
next
  case False
  have n: "nblocks (view s) \<le> 786432" using s meta_okD(1) by (auto simp: bc_ok_def)
  then have lt: "\<not> of_nat (nblocks (view s)) \<le> (of_nat b :: u32)"
    using b(1) by (simp add: word_le_nat_alt unat_of_nat)
  have m1: "mapped s 1" "super_set s" using s by (simp_all add: bc_ok_def)
  obtain t where t: "page_in b s = Inr ((), t)" "touched s t" "mapped t b"
    using s b(1) False by (rule page_in_ok)
  then have t': "bc_ok t" "view t = view s" "mapped t 1" "super_set t" "bitmap_set t"
    by (auto simp: touched_def bc_ok_def)
  obtain u where u: "touch k (2 + b div 32768) t = Inr ((), u)" "touched t u" "mapped u (2 + b div 32768)"
    using bm [OF t'(1,2) t(3)] by blast
  have "view u = view s" "mapped u b" using u(2) t(3) t'(2) by (auto simp: touched_def)
  moreover have "\<not> bit (word_at (mem u) (bitmap_word b)) (b mod 32)"
    using free_bit_mem [OF u(3)] b n \<open>view u = view s\<close> by simp
  ultimately show ?thesis
    using False m1 t t' u lt nblocks_mem [OF m1(1)] nblocks_mem [OF t'(3)] touched_trans [OF t(2) u(2)]
    by (simp add: touch.simps touch_mapped)
qed

lemma touch_ok:
  fixes s :: "('x) bcache_scheme"
  assumes s: "bc_ok s" and b: "b < nblocks (view s)" "\<not> free_bit (view s) b"
  obtains s' where "touch 3 b s = Inr ((), s')" "touched s s'" "mapped s' b"
proof -
  have M: "meta_ok (view t)" if "bc_ok t" for t :: "('x) bcache_scheme" using that by (simp add: bc_ok_def)
  have r2: "2 < reserved (nblocks (view s))"
    using meta_okD(5) [OF M [OF s] meta_okD(4) [OF M [OF s]]] by simp
  have res: "b' < nblocks (view t) \<and> \<not> free_bit (view t) b'" if "bc_ok t" "view t = view s" "b' < reserved (nblocks (view s))" for t :: "('x) bcache_scheme" and b'
    using M [OF that(1)] that by (auto simp: meta_ok_def)
  have two: "\<exists>t'. touch (Suc k) 2 t = Inr ((), t') \<and> touched t t' \<and> mapped t' 2" if "bc_ok t" "view t = view s" for t :: "('x) bcache_scheme" and k
    using res [OF that r2] that by - (rule touch_step, auto simp: touch_mapped touched_def)
  have bm: "\<exists>t'. touch (Suc (Suc k)) b' t = Inr ((), t') \<and> touched t t' \<and> mapped t' b'"
    if "bc_ok t" "view t = view s" "b' < reserved (nblocks (view s))" "b' < 32768" for t :: "('x) bcache_scheme" and k b'
    using res [OF that(1-3)] that two by - (rule touch_step, auto)
  have "b < 786432" using b(1) meta_okD(1) [OF M [OF s]] by simp
  then have "2 + b div 32768 < 32768" by simp
  then have "\<exists>s'. touch (Suc (Suc (Suc 0))) b s = Inr ((), s') \<and> touched s s' \<and> mapped s' b"
    using s b bm meta_okD(5) [OF M [OF s] b(1)] by - (rule touch_step, auto)
  then show thesis using that by (auto simp: numeral_3_eq_3)
qed

lemma view_ok:
  assumes s: "bc_ok s" and m: "\<And>a. meta_addr (nblocks (view s)) a \<Longrightarrow> m a = view s a"
  shows "meta_ok m" "nblocks m = nblocks (view s)" "b < nblocks (view s) \<Longrightarrow> free_bit m b = free_bit (view s) b"
proof -
  have M: "meta_ok (view s)" using s by (simp add: bc_ok_def)
  note A = meta_agree [OF m meta_okD(1,2) [OF M]]
  show "nblocks m = nblocks (view s)" "b < nblocks (view s) \<Longrightarrow> free_bit m b = free_bit (view s) b"
    using A by simp_all
  show "meta_ok m" using M A by (auto simp: meta_ok_def)
qed

lemma bc_range: "bc_ok s \<Longrightarrow> bc_acc s a \<Longrightarrow> in_cache a \<Longrightarrow> blk_of a < nblocks (view s) \<and> \<not> free_bit (view s) (blk_of a)"
  by (simp add: bc_acc_def)

lemma bc_load:
  assumes s: "bc_ok s" and a: "bc_acc s a"
  obtains s' where "load8 a s = Inr (view s a, s')" "touched s s'"
proof (cases "in_cache a")
  case True
  then obtain s' where t: "touch 3 (blk_of a) s = Inr ((), s')" "touched s s'" "mapped s' (blk_of a)"
    using bc_range [OF s a] s by (auto intro: touch_ok)
  then have "mem s' a = view s a" using view_mapped [OF t(3)] by (simp add: touched_def)
  with True t show ?thesis by (intro that [of s']) (simp_all add: load8_def bc_pgfault_def)
next
  case False
  with s show ?thesis by (intro that [of s]) (simp_all add: load8_def touched_def view_def)
qed

lemma bc_store:
  assumes s: "bc_ok s" and a: "bc_acc s a" "bc_plain s a"
  obtains s' where "store8 a b s = Inr ((), s')" "bc_ok s'" "view s' = (view s)(a := b)"
proof -
  have ok: "bc_ok (u\<lparr>mem := (mem u)(a := b), dirty := d\<rparr>) \<and> view (u\<lparr>mem := (mem u)(a := b), dirty := d\<rparr>) = (view s)(a := b)"
    if u: "bc_ok u" "view u = view s" "in_cache a \<Longrightarrow> mapped u (blk_of a)"
      "d = (if in_cache a then (dirty u)(blk_of a := True) else dirty u)" for u d
  proof -
    have c: "coherent (u\<lparr>mem := (mem u)(a := b), dirty := d\<rparr>)"
      using u(1) unfolding u(4) by (auto simp: bc_ok_def coherent_def)
    have v: "view (u\<lparr>mem := (mem u)(a := b), dirty := d\<rparr>) = (view s)(a := b)"
      using u(3) unfolding u(2) [symmetric] by (auto simp: fun_eq_iff view_def)
    have "\<And>x. meta_addr (nblocks (view s)) x \<Longrightarrow> ((view s)(a := b)) x = view s x"
      using a(2) by (auto simp: bc_plain_def)
    from view_ok [where m = "(view s)(a := b)", OF s this] u(1,2) v c show ?thesis by (simp add: bc_ok_def)
  qed
  show ?thesis
  proof (cases "in_cache a")
    case True
    then obtain u where t: "touch 3 (blk_of a) s = Inr ((), u)" "touched s u" "mapped u (blk_of a)"
      using bc_range [OF s a(1)] s by (auto intro: touch_ok)
    with True ok [of u "(dirty u)(blk_of a := True)"] show ?thesis
      by (intro that [of "u\<lparr>mem := (mem u)(a := b), dirty := (dirty u)(blk_of a := True)\<rparr>"]) (auto simp: store8_def bc_pgfault_def touched_def)
  next
    case False
    with s ok [of s "dirty s"] show ?thesis by (intro that [of "s\<lparr>mem := (mem s)(a := b)\<rparr>"]) (auto simp: store8_def)
  qed
qed

lemma bc_domain: "view s' = view s \<Longrightarrow> bc_acc s' = bc_acc s" "view s' = view s \<Longrightarrow> bc_plain s' = bc_plain s"
  by (simp_all add: bc_acc_def [abs_def] bc_plain_def [abs_def])

lemma bc_domain_store:
  assumes "bc_ok s" "bc_plain s a" "view s' = (view s)(a := b)"
  shows "bc_acc s' = bc_acc s" "bc_plain s' = bc_plain s"
proof -
  have "\<And>x. meta_addr (nblocks (view s)) x \<Longrightarrow> view s' x = view s x"
    using assms by (auto simp: bc_plain_def)
  from view_ok [OF assms(1) this] show "bc_acc s' = bc_acc s" "bc_plain s' = bc_plain s"
    by (auto simp: fun_eq_iff bc_acc_def bc_plain_def)
qed

interpretation bc: ram load8 store8 view bc_ok bc_acc bc_plain
proof
  fix s :: "('x) bcache_scheme" and p
  assume s: "bc_ok s" "bc_acc s p"
  obtain s' where l: "load8 p s = Inr (view s p, s')" "touched s s'"
    using s by (rule bc_load)
  then have "view s' = view s" "bc_ok s'" by (simp_all add: touched_def)
  with l(1) bc_domain [OF this(1)]
  show "\<exists>s'. load8 p s = Inr (view s p, s') \<and> bc_ok s' \<and> view s' = view s \<and> bc_acc s' = bc_acc s \<and> bc_plain s' = bc_plain s"
    by blast
next
  fix s :: "('x) bcache_scheme" and p b
  assume s: "bc_ok s" "bc_acc s p" "bc_plain s p"
  obtain s' where l: "store8 p b s = Inr ((), s')" "bc_ok s'" "view s' = (view s)(p := b)"
    using s by (rule bc_store)
  with bc_domain_store [OF s(1,3) l(3)]
  show "\<exists>s'. store8 p b s = Inr ((), s') \<and> bc_ok s' \<and> view s' = (view s)(p := b) \<and> bc_acc s' = bc_acc s \<and> bc_plain s' = bc_plain s"
    by blast
qed

section \<open>Words and flushing\<close>

text \<open>Accesses to a block that is mapped change nothing else.\<close>

lemma load32_mapped:
  assumes "b < 786432" "i + 3 < 4096" "mapped s b"
  shows "load32 (blk_addr b i) s = Inr (word_at (mem s) (blk_addr b i), s)"
proof -
  have "load8 (blk_addr b (i + j)) s = Inr (mem s (blk_addr b (i + j)), s)" if "j < 4" for j
    using assms that blk_addr [of b "i + j"] by (simp add: load8_def bc_pgfault_def touch_mapped)
  from this [of 0] this [of 1] this [of 2] this [of 3] show ?thesis
    using blk_addr_add [of b i 1] blk_addr_add [of b i 2] blk_addr_add [of b i 3]
    by (simp add: load_word_def load4_def word_at_def get4_def)
qed

lemma store32_mapped:
  fixes s :: "('x) bcache_scheme"
  assumes "b < 786432" "i + 3 < 4096" "mapped s b"
  shows "store32 (blk_addr b i) w s = Inr ((), s\<lparr>mem := put_word (blk_addr b i) w (mem s), dirty := (dirty s)(b := True)\<rparr>)"
proof -
  have "store8 (blk_addr b (i + j)) v t = Inr ((), t\<lparr>mem := (mem t)(blk_addr b (i + j) := v), dirty := (dirty t)(b := True)\<rparr>)"
    if "j < 4" "mapped t b" for j v and t :: "('x) bcache_scheme"
    using assms that blk_addr [of b "i + j"] by (simp add: store8_def bc_pgfault_def touch_mapped)
  from this [of 0] this [of 1] this [of 2] this [of 3] show ?thesis
    using assms(3) blk_addr_add [of b i 1] blk_addr_add [of b i 2] blk_addr_add [of b i 3]
    by (simp add: store_word_def store4_def put_word_def put4_def bytes4_def)
qed

lemma s_nblocks_load: "bc_ok s \<Longrightarrow> load32 s_nblocks s = Inr (of_nat (nblocks (view s)), s)"
  using load32_mapped [of 1 4 s] nblocks_mem [of s] by (simp add: bc_ok_def blk_addr_def)

lemma nblocks_bound: "bc_ok s \<Longrightarrow> nblocks (view s) \<le> 786432"
  using meta_okD(1) by (auto simp: bc_ok_def)

lemma of_nat_less_nblocks:
  assumes "bc_ok s" "i \<le> nblocks (view s)"
  shows "(of_nat i :: u32) < of_nat (nblocks (view s)) \<longleftrightarrow> i < nblocks (view s)"
  using assms nblocks_bound [of s] by (simp add: word_less_nat_alt unat_of_nat)

lemma diskaddr_ok:
  assumes "bc_ok s" "0 < b" "b < nblocks (view s)"
  shows "diskaddr (of_nat b) s = Inr (blk_addr b 0, s)"
proof -
  have "(of_nat b :: u32) \<noteq> 0"
    using assms nblocks_bound [OF assms(1)] by (simp add: word_unat_eq_iff unat_of_nat)
  then show ?thesis
    using assms s_nblocks_load [OF assms(1)] of_nat_less_nblocks [OF assms(1), of b]
    by (simp add: diskaddr_def bc_ok_def blk_addr_def not_le mult.commute del: s_nblocks_def)
qed

lemma diskaddr_bad:
  assumes "bc_ok s" "b = 0 \<or> of_nat (nblocks (view s)) \<le> b"
  shows "diskaddr b s = Inl (Panic ''bad block number in diskaddr'')"
  using assms s_nblocks_load [OF assms(1)] by (auto simp: diskaddr_def bc_ok_def simp del: s_nblocks_def)

text \<open>What \<open>flush_block\<close> does, with the failure of the disk that it ignores.\<close>

definition flushed :: "nat \<Rightarrow> ('x) bcache_scheme \<Rightarrow> ('x) bcache_scheme" where
  "flushed b s =
    (if mapped s b \<and> dirty s b
     then s\<lparr>disk := (if bad s b then disk s else (disk s)(b := (\<lambda>i. mem s (blk_addr b i)))), dirty := (dirty s)(b := False)\<rparr>
     else s)"

lemma rounddown_block:
  assumes "in_cache a"
  shows "blk_of (ROUNDDOWN a BLKSIZE) = blk_of a"
proof -
  have "a mod 4096 = of_nat (off_of a)" by (simp add: off_of_def)
  moreover have "a = blk_addr (blk_of a) 0 + of_nat (off_of a)"
    using cache_addr_eq [OF assms] by (simp add: blk_addr_add)
  ultimately have "a - a mod 4096 = blk_addr (blk_of a) 0"
    by (metis add_diff_cancel_right')
  then show ?thesis using cache_addr [OF assms] blk_addr(3) [of "blk_of a" 0] by (simp add: ROUNDDOWN_def)
qed

lemma flush_block_eq: "in_cache a \<Longrightarrow> flush_block a s = Inr ((), flushed (blk_of a) s)"
  by (auto simp: flush_block_def Let_def va_is_mapped_def va_is_dirty_def rounddown_block ide_write_def flushed_def blk_addr_def
      simp del: BLKSIZE_def)

lemma flushed_view [simp]: "view (flushed b s) = view s"
  by (auto simp: fun_eq_iff view_def flushed_def)

lemma flushed_fields [simp]:
  "mapped (flushed b s) = mapped s" "super_set (flushed b s) = super_set s" "bitmap_set (flushed b s) = bitmap_set s"
  "avail (flushed b s) = avail s" "bad (flushed b s) = bad s" "mem (flushed b s) = mem s"
  by (simp_all add: flushed_def)

lemma flushed_disk:
  assumes "coherent s" "\<not> bad s (blk_of a)" "in_cache a"
  shows "disk (flushed (blk_of a) s) (blk_of a) (off_of a) = view s a"
  using assms cache_addr_eq [of a] by (auto simp: flushed_def view_def coherent_def)

lemma flushed_coherent: "coherent s \<Longrightarrow> \<not> bad s b \<Longrightarrow> coherent (flushed b s)"
  using cache_addr_eq by (auto simp: coherent_def flushed_def)

lemma flushed_ok: "bc_ok s \<Longrightarrow> bc_ok (flushed b s)"
  using flushed_coherent [of s b] by (simp add: bc_ok_def)

section \<open>A small disk\<close>

text \<open>
  A disk of 8 blocks whose blocks 6 and 7 are free, with only the super block in memory. Block 1 holds the
  magic number, the number of blocks and an empty root directory; block 3 starts with a file of 8 bytes
  named \<open>f\<close>, whose first block is block 4 and whose indirect block is block 5.
\<close>

definition small_view :: "u32 \<Rightarrow> u8" where
  "small_view a =
    (if a = 0x10001000 then 0xAE else if a = 0x10001001 then 0x30 else if a = 0x10001002 then 0x05
     else if a = 0x10001003 then 0x4A else if a = 0x10001004 then 8 else if a = 0x10002000 then 0xC0
     else if a = 0x10003000 then 102 else if a = 0x10003080 then 8 else if a = 0x10003088 then 4
     else if a = 0x100030B0 then 5
     else 0)"

definition small_disk :: bcache where
  "small_disk = \<lparr>mem = small_view, mapped = (\<lambda>b. b = 1), dirty = (\<lambda>_. False),
     disk = (\<lambda>b i. small_view (blk_addr b i)), super_set = True, bitmap_set = True, avail = 8, bad = (\<lambda>_. False)\<rparr>"

lemma disk_addr: "in_cache a \<Longrightarrow> blk_of a = b \<Longrightarrow> blk_addr b (off_of a) = a"
  using cache_addr_eq [of a] by simp

lemma small_disk_view [simp]: "view small_disk = small_view"
  using cache_addr_eq by (auto simp: fun_eq_iff view_def small_disk_def)

lemma small_nblocks [simp]: "nblocks small_view = 8"
  by (simp add: nblocks_def word_at_def get4_def word_of4_def small_view_def)

lemma small_free: "b < 8 \<Longrightarrow> free_bit small_view b \<longleftrightarrow> b = 6 \<or> b = 7"
proof -
  assume b: "b < 8"
  then have "bitmap_word b = 0x10002000" by (simp add: bitmap_word_def)
  then have "word_at small_view (bitmap_word b) = 0xC0"
    by (simp add: word_at_def get4_def word_of4_def small_view_def)
  moreover have "\<forall>b\<in>set [0..<8]. bit (0xC0 :: u32) (b mod 32) \<longleftrightarrow> b = 6 \<or> b = 7" by code_simp
  ultimately show ?thesis using b by (simp add: free_bit_def del: upt_rec_numeral)
qed

lemma small_disk_ok: "bc_ok small_disk"
proof -
  have "card {b :: nat. b < 8 \<and> b \<noteq> 1} \<le> card {..<8 :: nat}" by (rule card_mono) auto
  then have "card {b. b < 8 \<and> \<not> mapped small_disk b} \<le> avail small_disk" by (simp add: small_disk_def)
  moreover have "coherent small_disk"
    unfolding coherent_def by (auto simp: small_disk_def disk_addr)
  moreover have "meta_ok small_view"
    using small_free by (auto simp: meta_ok_def reserved_def)
  ultimately show ?thesis by (simp add: bc_ok_def) (simp add: small_disk_def)
qed

section \<open>Properties\<close>

text \<open>C29. The block cache refines a memory that holds the disk with the pending changes. In a well-formed state, for an
  address in a block that is in use (or outside the cache), a load returns the byte of that memory and leaves
  the memory and the disk as they are, whether or not the block has to be read first. A store changes exactly that
  byte of the memory, if it does not go to the number of blocks or to the bitmap, and the state stays well-formed.
\<close>

theorem cache_refines_disk:
  assumes "bc_ok s" "bc_acc s a"
  shows "(\<exists>s'. load8 a s = Inr (view s a, s') \<and> bc_ok s' \<and> view s' = view s \<and> disk s' = disk s) \<and>
    (bc_plain s a \<longrightarrow> (\<exists>s'. store8 a v s = Inr ((), s') \<and> bc_ok s' \<and> view s' = (view s)(a := v)))"
  using bc_load [OF assms] bc_store [OF assms] by (metis touched_def)

theorem cache_refines_disk_witness:
  "(\<exists>s'. load8 0x10003000 small_disk = Inr (102, s') \<and> bc_ok s' \<and> view s' = small_view \<and> disk s' = disk small_disk) \<and>
   (\<exists>s'. store8 0x10003000 103 small_disk = Inr ((), s') \<and> bc_ok s' \<and> view s' = small_view(0x10003000 := 103))"
proof -
  have "in_cache 0x10003000" "blk_of 0x10003000 = 3" by (simp_all add: in_cache_def blk_of_def)
  then have "bc_acc small_disk 0x10003000" "bc_plain small_disk 0x10003000"
    using small_free [of 3] by (simp_all add: bc_acc_def bc_plain_def meta_addr_def reserved_def)
  then show ?thesis
    using cache_refines_disk [OF small_disk_ok, of "0x10003000" 103] by (simp add: small_view_def)
qed


definition small_dirty :: bcache where
  "small_dirty = small_disk\<lparr>mem := small_view(0x10001008 := 65), dirty := (\<lambda>b. b = 1)\<rparr>"


end
