(* ===== verification/Fs.thy ===== *)
theory Fs
  imports BlockCache "HOL-Library.Signed_Division"
begin

text \<open>
  The file system (fs/fs.c) on the block cache: the bitmap of free blocks, the blocks of a file,
  directories and paths, and reading, writing, resizing and flushing of files.

  A \<open>struct File *\<close> is an address in the cache; its fields are at the offsets 0 (\<open>f_name\<close>), 128 (\<open>f_size\<close>),
  132 (\<open>f_type\<close>), 136 (\<open>f_direct\<close>) and 176 (\<open>f_indirect\<close>) of 256 bytes. A function that returns an error
  code and stores a pointer through an argument returns the pair; the pointer says nothing if the code is
  negative. \<open>off_t\<close> is a signed word: it is kept as \<open>u32\<close> and read with \<open>sint\<close>, and additions that would
  overflow it are undefined behaviour. Path names and the local arrays for their elements are byte lists
  without the terminator. All functions but those of the initialisation run after \<open>super\<close> and \<open>bitmap\<close> are set.
\<close>

unbundle bit_operations_syntax

section \<open>The super block and the bitmap\<close>

definition check_super :: "('x) bcache_scheme \<Rightarrow> (('x) bcache_scheme, unit) res" where
  "check_super s =
    bindR (load32 s_magic s) (\<lambda>(m, s).
      if m \<noteq> FS_MAGIC then Inl (Panic ''bad file system magic number'')
      else bindR (load32 s_nblocks s) (\<lambda>(n, s).
        if n > DISKSIZE div BLKSIZE then Inl (Panic ''file system is too large'') else Inr ((), s)))"

definition block_is_free :: "u32 \<Rightarrow> ('x) bcache_scheme \<Rightarrow> (('x) bcache_scheme, bool) res" where
  "block_is_free blockno s =
    (if \<not> super_set s then Inr (False, s)
     else bindR (load32 s_nblocks s) (\<lambda>(n, s).
       if blockno \<ge> n then Inr (False, s)
       else bindR (load32 (bitmap_word (unat blockno)) s) (\<lambda>(w, s).
         Inr (bit w (unat blockno mod 32), s))))"

definition free_block :: "u32 \<Rightarrow> ('x) bcache_scheme \<Rightarrow> (('x) bcache_scheme, unit) res" where
  "free_block blockno s =
    (if blockno = 0 then Inl (Panic ''attempt to free zero block'')
     else bindR (load32 (bitmap_word (unat blockno)) s) (\<lambda>(w, s).
       store32 (bitmap_word (unat blockno)) (w OR push_bit (unat blockno mod 32) 1) s))"

fun alloc_loop :: "nat \<Rightarrow> nat \<Rightarrow> ('x) bcache_scheme \<Rightarrow> (('x) bcache_scheme, int) res" where
  "alloc_loop 0 i s = int_overflow"
| "alloc_loop (Suc k) i s =
    bindR (load32 s_nblocks s) (\<lambda>(n, s).
      if of_nat i < n then
        bindR (block_is_free (of_nat i) s) (\<lambda>(b, s).
          if b then
            bindR (load32 (bitmap_word i) s) (\<lambda>(w, s).
            bindR (store32 (bitmap_word i) (w AND NOT (push_bit (i mod 32) 1)) s) (\<lambda>(_, s).
            bindR (flush_block (bitmap_word 0) s) (\<lambda>(_, s). Inr (int i, s))))
          else alloc_loop k (Suc i) s)
      else Inr (- E_NO_DISK, s))"

definition alloc_block :: "('x) bcache_scheme \<Rightarrow> (('x) bcache_scheme, int) res" where
  "alloc_block s = alloc_loop 2147483648 0 s"

definition check_used :: "u32 \<Rightarrow> ('x) bcache_scheme \<Rightarrow> (('x) bcache_scheme, unit) res" where
  "check_used b s =
    bindR (block_is_free b s) (\<lambda>(r, s).
      if r then Inl (Panic ''assertion failed: !block_is_free'') else Inr ((), s))"

text \<open>The loop over the bitmap blocks; \<open>i * BLKBITSIZE\<close> is a word, and \<open>s_nblocks\<close> is read every time.\<close>

fun check_bitmap_loop :: "nat \<Rightarrow> u32 \<Rightarrow> ('x) bcache_scheme \<Rightarrow> (('x) bcache_scheme, unit) res" where
  "check_bitmap_loop 0 i s = endless"
| "check_bitmap_loop (Suc k) i s =
    bindR (load32 s_nblocks s) (\<lambda>(n, s).
      if i * 32768 < n then bindR (check_used (2 + i) s) (\<lambda>(_, s). check_bitmap_loop k (i + 1) s)
      else Inr ((), s))"

definition check_bitmap :: "('x) bcache_scheme \<Rightarrow> (('x) bcache_scheme, unit) res" where
  "check_bitmap s =
    bindR (check_bitmap_loop all_addrs 0 s) (\<lambda>(_, s).
    bindR (check_used 0 s) (\<lambda>(_, s). check_used 1 s))"

text \<open>The choice of the disk is not modelled. The arguments are the addresses of local variables of \<open>bc_init\<close>.\<close>

definition fs_init :: "u32 \<Rightarrow> u32 \<Rightarrow> ('x) bcache_scheme \<Rightarrow> (('x) bcache_scheme, unit) res" where
  "fs_init backup super s =
    bindR (bc_init backup super s) (\<lambda>(_, s).
    bindR (diskaddr 1 s) (\<lambda>(_, s).
    bindR (check_super (s\<lparr>super_set := True\<rparr>)) (\<lambda>(_, s).
    bindR (diskaddr 2 s) (\<lambda>(_, s).
    check_bitmap (s\<lparr>bitmap_set := True\<rparr>)))))"

section \<open>The blocks of a file\<close>

definition f_size :: "u32 \<Rightarrow> u32" where [simp]: "f_size f = f + 128"
definition f_type :: "u32 \<Rightarrow> u32" where [simp]: "f_type f = f + 132"
definition f_direct :: "u32 \<Rightarrow> u32 \<Rightarrow> u32" where [simp]: "f_direct f i = f + 136 + 4 * i"
definition f_indirect :: "u32 \<Rightarrow> u32" where [simp]: "f_indirect f = f + 176"

definition NDIRECT :: u32 where [simp]: "NDIRECT = 10"
definition NINDIRECT :: u32 where [simp]: "NINDIRECT = 1024"
definition BLKFILES :: nat where [simp]: "BLKFILES = 16"
definition MAXNAMELEN :: nat where [simp]: "MAXNAMELEN = 128"
definition FTYPE_DIR :: u32 where [simp]: "FTYPE_DIR = 1"

definition file_block_walk :: "u32 \<Rightarrow> u32 \<Rightarrow> bool \<Rightarrow> ('x) bcache_scheme \<Rightarrow> (('x) bcache_scheme, int \<times> u32) res" where
  "file_block_walk f filebno alloc s =
    (if filebno < NDIRECT then Inr ((0, f_direct f filebno), s)
     else if filebno < NDIRECT + NINDIRECT then
       bindR (load32 (f_indirect f) s) (\<lambda>(w, s).
         if w \<noteq> 0 then Inr ((0, f_indirect f + 4 * filebno - 4 * NDIRECT), s)
         else if alloc then
           bindR (alloc_block s) (\<lambda>(r, s).
             if r < 0 then Inr ((- E_NO_DISK, 0), s)
             else
               bindR (store32 (f_indirect f) (of_int r) s) (\<lambda>(_, s).
               bindR (diskaddr (of_int r) s) (\<lambda>(a, s).
               bindR (memset store8 a 0 BLKSIZE s) (\<lambda>(_, s).
                 Inr ((0, f_indirect f + 4 * filebno - 4 * NDIRECT), s)))))
         else Inr ((- E_NOT_FOUND, 0), s))
     else Inr ((- E_INVAL, 0), s))"

definition file_get_block :: "u32 \<Rightarrow> u32 \<Rightarrow> ('x) bcache_scheme \<Rightarrow> (('x) bcache_scheme, int \<times> u32) res" where
  "file_get_block f filebno s =
    bindR (file_block_walk f filebno True s) (\<lambda>((r, blkno), s).
      if r < 0 then Inr ((r, 0), s)
      else
        bindR (load32 blkno s) (\<lambda>(w, s).
        bindR (if w = 0 then
                 bindR (alloc_block s) (\<lambda>(r, s).
                   if r < 0 then Inr (r, s)
                   else bindR (store32 blkno (of_int r) s) (\<lambda>(_, s). Inr (0, s)))
               else Inr (0, s)) (\<lambda>(r, s).
          if r < 0 then Inr ((r, 0), s)
          else
            bindR (load32 blkno s) (\<lambda>(w, s).
            bindR (diskaddr w s) (\<lambda>(a, s). Inr ((0, a), s))))))"

section \<open>Directories and paths\<close>

text \<open>The loop over the entries of a block, and the loop over the blocks of a directory; None is the end of a loop.\<close>

fun scan_entries :: "(u32 \<Rightarrow> ('x) bcache_scheme \<Rightarrow> (('x) bcache_scheme, bool) res) \<Rightarrow> u32 list \<Rightarrow> ('x) bcache_scheme \<Rightarrow>
    (('x) bcache_scheme, u32 option) res" where
  "scan_entries P [] s = Inr (None, s)"
| "scan_entries P (f # fs) s =
    bindR (P f s) (\<lambda>(b, s). if b then Inr (Some f, s) else scan_entries P fs s)"

fun scan_blocks :: "(u32 \<Rightarrow> ('x) bcache_scheme \<Rightarrow> (('x) bcache_scheme, bool) res) \<Rightarrow> u32 \<Rightarrow> nat list \<Rightarrow> ('x) bcache_scheme \<Rightarrow>
    (('x) bcache_scheme, (int \<times> u32) option) res" where
  "scan_blocks P dir [] s = Inr (None, s)"
| "scan_blocks P dir (i # is) s =
    bindR (file_get_block dir (of_nat i) s) (\<lambda>((r, blk), s).
      if r < 0 then Inr (Some (r, 0), s)
      else
        bindR (scan_entries P (map (\<lambda>j. blk + 256 * of_nat j) [0..<BLKFILES]) s) (\<lambda>(e, s).
          case e of Some f \<Rightarrow> Inr (Some (0, f), s) | None \<Rightarrow> scan_blocks P dir is s))"

text \<open>The number of blocks of a directory: signed division, used as an unsigned number.\<close>

definition dir_nblock :: "u32 \<Rightarrow> ('x) bcache_scheme \<Rightarrow> (('x) bcache_scheme, u32) res" where
  "dir_nblock dir s =
    bindR (load32 (f_size dir) s) (\<lambda>(sz, s).
      if sint sz smod 4096 \<noteq> 0 then Inl (Panic ''assertion failed: (dir->f_size % BLKSIZE) == 0'')
      else bindR (load32 (f_size dir) s) (\<lambda>(sz, s). Inr (word_of_int (sint sz sdiv 4096), s)))"

definition dir_lookup :: "u32 \<Rightarrow> u8 list \<Rightarrow> ('x) bcache_scheme \<Rightarrow> (('x) bcache_scheme, int \<times> u32) res" where
  "dir_lookup dir name s =
    bindR (dir_nblock dir s) (\<lambda>(nblock, s).
    bindR (scan_blocks (\<lambda>f s. bindR (strcmp load8 (text_load name) f 0 s) (\<lambda>(r, s). Inr (r = 0, s)))
             dir [0..<unat nblock] s) (\<lambda>(r, s).
      case r of Some rf \<Rightarrow> Inr (rf, s) | None \<Rightarrow> Inr ((- E_NOT_FOUND, 0), s)))"

definition in_int :: "int \<Rightarrow> bool" where
  "in_int x \<longleftrightarrow> - 2147483648 \<le> x \<and> x \<le> 2147483647"

definition dir_alloc_file :: "u32 \<Rightarrow> ('x) bcache_scheme \<Rightarrow> (('x) bcache_scheme, int \<times> u32) res" where
  "dir_alloc_file dir s =
    bindR (dir_nblock dir s) (\<lambda>(nblock, s).
    bindR (scan_blocks (\<lambda>f s. bindR (load8 f s) (\<lambda>(b, s). Inr (b = 0, s))) dir [0..<unat nblock] s) (\<lambda>(r, s).
      case r of
        Some rf \<Rightarrow> Inr (rf, s)
      | None \<Rightarrow>
          bindR (load32 (f_size dir) s) (\<lambda>(sz, s).
            if \<not> in_int (sint sz + 4096) then int_overflow
            else
              bindR (store32 (f_size dir) (sz + BLKSIZE) s) (\<lambda>(_, s). file_get_block dir nblock s))))"

definition skip_slash :: "u8 list \<Rightarrow> u8 list" where
  "skip_slash p = dropWhile (\<lambda>b. b = 47) p"

lemma skip_slash_shorter: "path \<noteq> [] \<Longrightarrow> length (skip_slash (dropWhile (\<lambda>b. b \<noteq> 47) path)) < length path"
proof -
  assume "path \<noteq> []"
  then obtain b bs where p: "path = b # bs" by (cases path) auto
  have "length (skip_slash xs) \<le> length xs" for xs
    by (simp add: skip_slash_def length_dropWhile_le)
  moreover have "length (dropWhile (\<lambda>b. b \<noteq> 47) bs) \<le> length bs" by (rule length_dropWhile_le)
  ultimately show ?thesis
    unfolding p by (cases "b = 47") (auto simp: skip_slash_def less_Suc_eq_le intro: order_trans)
qed

text \<open>The results of \<open>walk_path\<close>: the code, \<open>*pdir\<close>, \<open>*pf\<close> and, if they are set, the bytes of \<open>lastelem\<close>.\<close>

function walk_loop :: "u8 list \<Rightarrow> u32 \<Rightarrow> u32 \<Rightarrow> ('x) bcache_scheme \<Rightarrow> (('x) bcache_scheme, int \<times> u32 \<times> u32 \<times> u8 list) res" where
  "walk_loop path dir f s =
    (if path = [] then Inr ((0, dir, f, []), s)
     else
       let dir = f;
           name = takeWhile (\<lambda>b. b \<noteq> 47) path;
           path' = skip_slash (dropWhile (\<lambda>b. b \<noteq> 47) path)
       in if length name \<ge> MAXNAMELEN then Inr ((- E_BAD_PATH, 0, 0, []), s)
          else
            bindR (load32 (f_type dir) s) (\<lambda>(ty, s).
              if ty \<noteq> FTYPE_DIR then Inr ((- E_NOT_FOUND, 0, 0, []), s)
              else
                bindR (dir_lookup dir name s) (\<lambda>((r, f), s).
                  if r < 0 then
                    if r = - E_NOT_FOUND \<and> path' = [] then Inr ((r, dir, 0, name), s)
                    else Inr ((r, 0, 0, []), s)
                  else walk_loop path' dir f s)))"
  by pat_completeness auto

termination walk_loop
  by (relation "measure (\<lambda>(path, _). length path)") (simp_all add: skip_slash_shorter)

declare walk_loop.simps [simp del]

definition s_root :: u32 where [simp]: "s_root = 0x10001008"

definition walk_path :: "u8 list \<Rightarrow> ('x) bcache_scheme \<Rightarrow> (('x) bcache_scheme, int \<times> u32 \<times> u32 \<times> u8 list) res" where
  "walk_path path s = walk_loop (skip_slash path) 0 s_root s"

section \<open>File operations\<close>

definition file_free_block :: "u32 \<Rightarrow> u32 \<Rightarrow> ('x) bcache_scheme \<Rightarrow> (('x) bcache_scheme, int) res" where
  "file_free_block f filebno s =
    bindR (file_block_walk f filebno False s) (\<lambda>((r, ptr), s).
      if r < 0 then Inr (r, s)
      else
        bindR (load32 ptr s) (\<lambda>(w, s).
          if w \<noteq> 0 then
            bindR (load32 ptr s) (\<lambda>(w, s).
            bindR (free_block w s) (\<lambda>(_, s).
            bindR (store32 ptr 0 s) (\<lambda>(_, s). Inr (0, s))))
          else Inr (0, s)))"

text \<open>\<open>(size + BLKSIZE - 1) / BLKSIZE\<close>, in signed arithmetic.\<close>

definition size_blocks :: "u32 \<Rightarrow> 'st \<Rightarrow> ('st, int) res" where
  "size_blocks sz st = (if in_int (sint sz + 4096) then Inr ((sint sz + 4096 - 1) sdiv 4096, st) else int_overflow)"

definition file_truncate_blocks :: "u32 \<Rightarrow> u32 \<Rightarrow> ('x) bcache_scheme \<Rightarrow> (('x) bcache_scheme, unit) res" where
  "file_truncate_blocks f newsize s =
    bindR (load32 (f_size f) s) (\<lambda>(sz, s).
    bindR (size_blocks sz s) (\<lambda>(old_nblocks, s).
    bindR (size_blocks newsize s) (\<lambda>(new_nblocks, s).
    let old_nblocks = word_of_int old_nblocks :: u32; new_nblocks = word_of_int new_nblocks :: u32 in
    bindR (forR (\<lambda>bno s. bindR (file_free_block f (of_nat bno) s) (\<lambda>(_, s). Inr ((), s)))
             [unat new_nblocks..<unat old_nblocks] s) (\<lambda>(_, s).
      if new_nblocks \<le> NDIRECT then
        bindR (load32 (f_indirect f) s) (\<lambda>(w, s).
          if w \<noteq> 0 then
            bindR (load32 (f_indirect f) s) (\<lambda>(w, s).
            bindR (free_block w s) (\<lambda>(_, s). store32 (f_indirect f) 0 s))
          else Inr ((), s))
      else Inr ((), s)))))"

definition file_set_size :: "u32 \<Rightarrow> u32 \<Rightarrow> ('x) bcache_scheme \<Rightarrow> (('x) bcache_scheme, int) res" where
  "file_set_size f newsize s =
    bindR (load32 (f_size f) s) (\<lambda>(sz, s).
    bindR (if sint sz > sint newsize then file_truncate_blocks f newsize s else Inr ((), s)) (\<lambda>(_, s).
    bindR (store32 (f_size f) newsize s) (\<lambda>(_, s).
    bindR (flush_block f s) (\<lambda>(_, s). Inr (0, s)))))"

text \<open>
  The loops of \<open>file_read\<close> and \<open>file_write\<close>: \<open>fin\<close> is \<open>offset + count\<close>, an unsigned word. In \<open>bn\<close> the comparison is
  unsigned as well. A step moves \<open>pos\<close> up, at most to \<open>fin\<close>, so the loops end.
\<close>

definition chunk :: "u32 \<Rightarrow> u32 \<Rightarrow> u32" where
  "chunk pos fin = min (BLKSIZE - word_of_int (sint pos smod 4096)) (fin - pos)"

lemma word_of_int_pos: "0 < x \<Longrightarrow> x < 4294967296 \<Longrightarrow> (word_of_int x :: u32) \<noteq> 0"
  using uint_word_of_int [of x, where 'a = 32] by auto

lemma chunk_progress:
  assumes "pos < fin"
  shows "pos < pos + chunk pos fin" "pos + chunk pos fin \<le> fin"
proof -
  have "sint pos smod 4096 < 4096" "- 4096 < sint pos smod 4096"
    using smod_int_range [of 4096 "sint pos"] by simp_all
  then have "4096 - sint pos smod 4096 > 0" "4096 - sint pos smod 4096 < 4294967296" by simp_all
  then have "(word_of_int (4096 - sint pos smod 4096) :: u32) \<noteq> 0"
    by (rule word_of_int_pos)
  then have "(BLKSIZE - word_of_int (sint pos smod 4096) :: u32) \<noteq> 0" by simp
  moreover have "fin - pos \<noteq> 0" using assms by simp
  ultimately have "chunk pos fin \<noteq> 0" by (simp add: chunk_def min_def)
  moreover have "chunk pos fin \<le> fin - pos" by (simp add: chunk_def)
  ultimately have "0 < unat (chunk pos fin)" "unat (chunk pos fin) \<le> unat fin - unat pos"
    using assms by (simp_all add: unat_gt_0 word_le_nat_alt unat_sub word_less_nat_alt)
  then have "unat (pos + chunk pos fin) = unat pos + unat (chunk pos fin)"
    using assms unsigned_less [of fin, where 'a = nat] by (simp add: unat_word_ariths(1) word_less_nat_alt)
  then show "pos < pos + chunk pos fin" "pos + chunk pos fin \<le> fin"
    using assms \<open>0 < unat (chunk pos fin)\<close> \<open>unat (chunk pos fin) \<le> unat fin - unat pos\<close>
    by (simp_all add: word_le_nat_alt word_less_nat_alt)
qed

lemma chunk_decreases: "pos < fin \<Longrightarrow> unat fin - unat (pos + chunk pos fin) < unat fin - unat pos"
  using chunk_progress [of pos fin] by (simp add: word_le_nat_alt word_less_nat_alt)

function file_read_loop :: "u32 \<Rightarrow> u32 \<Rightarrow> u32 \<Rightarrow> u32 \<Rightarrow> ('x) bcache_scheme \<Rightarrow> (('x) bcache_scheme, int) res" where
  "file_read_loop f buf pos fin s =
    (if pos < fin then
       bindR (file_get_block f (word_of_int (sint pos sdiv 4096)) s) (\<lambda>((r, blk), s).
         if r < 0 then Inr (r, s)
         else
           let bn = chunk pos fin in
           bindR (memmove load8 store8 buf (blk + word_of_int (sint pos smod 4096)) bn s) (\<lambda>(_, s).
             if in_int (sint pos + sint bn) then file_read_loop f (buf + bn) (pos + bn) fin s
             else int_overflow))
     else Inr (0, s))"
  by pat_completeness auto

termination file_read_loop
  by (relation "measure (\<lambda>(f, buf, pos, fin, s). unat fin - unat pos)") (simp_all add: chunk_decreases)

function file_write_loop :: "u32 \<Rightarrow> u32 \<Rightarrow> u32 \<Rightarrow> u32 \<Rightarrow> ('x) bcache_scheme \<Rightarrow> (('x) bcache_scheme, int) res" where
  "file_write_loop f buf pos fin s =
    (if pos < fin then
       bindR (file_get_block f (word_of_int (sint pos sdiv 4096)) s) (\<lambda>((r, blk), s).
         if r < 0 then Inr (r, s)
         else
           let bn = chunk pos fin in
           bindR (memmove load8 store8 (blk + word_of_int (sint pos smod 4096)) buf bn s) (\<lambda>(_, s).
             if in_int (sint pos + sint bn) then file_write_loop f (buf + bn) (pos + bn) fin s
             else int_overflow))
     else Inr (0, s))"
  by pat_completeness auto

termination file_write_loop
  by (relation "measure (\<lambda>(f, buf, pos, fin, s). unat fin - unat pos)") (simp_all add: chunk_decreases)

declare file_read_loop.simps [simp del] file_write_loop.simps [simp del]

definition file_read :: "u32 \<Rightarrow> u32 \<Rightarrow> u32 \<Rightarrow> u32 \<Rightarrow> ('x) bcache_scheme \<Rightarrow> (('x) bcache_scheme, int) res" where
  "file_read f buf count offset s =
    bindR (load32 (f_size f) s) (\<lambda>(sz, s).
      if sint offset \<ge> sint sz then Inr (0, s)
      else
        bindR (load32 (f_size f) s) (\<lambda>(sz, s).
          if \<not> in_int (sint sz - sint offset) then int_overflow
          else
            let count = min count (sz - offset) in
            bindR (file_read_loop f buf offset (offset + count) s) (\<lambda>(r, s).
              Inr (if r < 0 then r else sint count, s))))"

definition file_write :: "u32 \<Rightarrow> u32 \<Rightarrow> u32 \<Rightarrow> u32 \<Rightarrow> ('x) bcache_scheme \<Rightarrow> (('x) bcache_scheme, int) res" where
  "file_write f buf count offset s =
    bindR (load32 (f_size f) s) (\<lambda>(sz, s).
    bindR (if offset + count > sz then file_set_size f (offset + count) s else Inr (0, s)) (\<lambda>(r, s).
      if r < 0 then Inr (r, s)
      else
        bindR (file_write_loop f buf offset (offset + count) s) (\<lambda>(r, s).
          Inr (if r < 0 then r else sint count, s))))"

fun file_flush_loop :: "nat \<Rightarrow> nat \<Rightarrow> u32 \<Rightarrow> ('x) bcache_scheme \<Rightarrow> (('x) bcache_scheme, unit) res" where
  "file_flush_loop 0 i f s = int_overflow"
| "file_flush_loop (Suc k) i f s =
    bindR (load32 (f_size f) s) (\<lambda>(sz, s).
    bindR (size_blocks sz s) (\<lambda>(n, s).
      if int i < n then
        bindR (file_block_walk f (of_nat i) False s) (\<lambda>((r, pdiskbno), s).
        bindR (if r < 0 \<or> pdiskbno = 0 then Inr (0, s) else load32 pdiskbno s) (\<lambda>(w, s).
        bindR (if w = 0 then Inr ((), s)
               else bindR (load32 pdiskbno s) (\<lambda>(w, s). bindR (diskaddr w s) (\<lambda>(a, s). flush_block a s))) (\<lambda>(_, s).
          file_flush_loop k (Suc i) f s)))
      else Inr ((), s)))"

definition file_flush :: "u32 \<Rightarrow> ('x) bcache_scheme \<Rightarrow> (('x) bcache_scheme, unit) res" where
  "file_flush f s =
    bindR (file_flush_loop 2147483648 0 f s) (\<lambda>(_, s).
    bindR (flush_block f s) (\<lambda>(_, s).
    bindR (load32 (f_indirect f) s) (\<lambda>(w, s).
      if w \<noteq> 0 then
        bindR (load32 (f_indirect f) s) (\<lambda>(w, s). bindR (diskaddr w s) (\<lambda>(a, s). flush_block a s))
      else Inr ((), s))))"

definition file_create :: "u8 list \<Rightarrow> ('x) bcache_scheme \<Rightarrow> (('x) bcache_scheme, int \<times> u32) res" where
  "file_create path s =
    bindR (walk_path path s) (\<lambda>((r, dir, _, name), s).
      if r = 0 then Inr ((- E_FILE_EXISTS, 0), s)
      else if r \<noteq> - E_NOT_FOUND \<or> dir = 0 then Inr ((r, 0), s)
      else
        bindR (dir_alloc_file dir s) (\<lambda>((r, f), s).
          if r < 0 then Inr ((r, 0), s)
          else
            bindR (strcpy (text_load name) store8 f 0 s) (\<lambda>(_, s).
            bindR (file_flush dir s) (\<lambda>(_, s). Inr ((0, f), s)))))"

definition file_open :: "u8 list \<Rightarrow> ('x) bcache_scheme \<Rightarrow> (('x) bcache_scheme, int \<times> u32) res" where
  "file_open path s = bindR (walk_path path s) (\<lambda>((r, _, f, _), s). Inr ((r, f), s))"

fun fs_sync_loop :: "nat \<Rightarrow> nat \<Rightarrow> ('x) bcache_scheme \<Rightarrow> (('x) bcache_scheme, unit) res" where
  "fs_sync_loop 0 i s = int_overflow"
| "fs_sync_loop (Suc k) i s =
    bindR (load32 s_nblocks s) (\<lambda>(n, s).
      if of_nat i < n then
        bindR (diskaddr (of_nat i) s) (\<lambda>(a, s). bindR (flush_block a s) (\<lambda>(_, s). fs_sync_loop k (Suc i) s))
      else Inr ((), s))"

definition fs_sync :: "('x) bcache_scheme \<Rightarrow> (('x) bcache_scheme, unit) res" where
  "fs_sync s = fs_sync_loop 2147483647 1 s"

section \<open>The bitmap\<close>

text \<open>The first access to a block faults it in; the rest of a word is then in memory.\<close>

lemma touch_first:
  assumes "touch 3 b s = Inr ((), t)" "mapped t b" "b < 786432" "i + 3 < 4096"
  shows "load32 (blk_addr b i) s = load32 (blk_addr b i) t" "store32 (blk_addr b i) w s = store32 (blk_addr b i) w t"
proof -
  have "load8 (blk_addr b i) s = load8 (blk_addr b i) t" "store8 (blk_addr b i) v s = store8 (blk_addr b i) v t" for v
    using assms blk_addr [of b i] by (simp_all add: load8_def store8_def bc_pgfault_def touch_mapped)
  then show "load32 (blk_addr b i) s = load32 (blk_addr b i) t" "store32 (blk_addr b i) w s = store32 (blk_addr b i) w t"
    by (simp_all add: load_word_def load4_def store_word_def store4_def bytes4_def)
qed

lemma bitmap_block:
  assumes "bc_ok s" "b < nblocks (view s)"
  shows "2 + b div 32768 < nblocks (view s)" "\<not> free_bit (view s) (2 + b div 32768)" "2 + b div 32768 < 786432"
    "4 * (b div 32 mod 1024) + 3 < 4096"
proof -
  have m: "meta_ok (view s)" using assms(1) by (simp add: bc_ok_def)
  have r: "2 + b div 32768 < reserved (nblocks (view s))" by (rule meta_okD(5) [OF m assms(2)])
  then show "2 + b div 32768 < nblocks (view s)" using m by (simp add: meta_ok_def)
  then show "2 + b div 32768 < 786432" using meta_okD(1) [OF m] by simp
  show "\<not> free_bit (view s) (2 + b div 32768)" by (rule meta_okD(3) [OF m r])
  have "b div 32 mod 1024 < 1024" by simp
  then show "4 * (b div 32 mod 1024) + 3 < 4096" by linarith
qed

lemma bitmap_load:
  assumes "bc_ok s" "b < nblocks (view s)"
  obtains t where "load32 (bitmap_word b) s = Inr (word_at (view s) (bitmap_word b), t)" "touched s t" "mapped t (2 + b div 32768)"
proof -
  note B = bitmap_block [OF assms]
  obtain t where t: "touch 3 (2 + b div 32768) s = Inr ((), t)" "touched s t" "mapped t (2 + b div 32768)"
    by (rule touch_ok [OF assms(1) B(1,2)])
  have "load32 (bitmap_word b) s = Inr (word_at (view s) (bitmap_word b), t)"
    unfolding bitmap_word_addr touch_first(1) [OF t(1,3) B(3,4)] load32_mapped [OF B(3,4) t(3)]
    using word_mem [OF B(3,4) t(3)] t(2) by (simp add: touched_def)
  with t show thesis by (intro that)
qed

lemma block_is_free_ok:
  assumes "bc_ok s" "b < nblocks (view s)"
  obtains t where "block_is_free (of_nat b) s = Inr (free_bit (view s) b, t)" "touched s t" "mapped t (2 + b div 32768)"
proof -
  obtain t where t: "load32 (bitmap_word b) s = Inr (word_at (view s) (bitmap_word b), t)" "touched s t" "mapped t (2 + b div 32768)"
    using assms by (rule bitmap_load)
  have b: "unat (of_nat b :: u32) = b" "\<not> of_nat (nblocks (view s)) \<le> (of_nat b :: u32)"
    using assms nblocks_bound [OF assms(1)] of_nat_less_nblocks [OF assms(1), of b] by (simp_all add: unat_of_nat not_le)
  have "super_set s" using assms(1) by (simp add: bc_ok_def)
  then have "block_is_free (of_nat b) s = Inr (free_bit (view s) b, t)"
    using t(1) b s_nblocks_load [OF assms(1)] by (simp add: block_is_free_def free_bit_def del: s_nblocks_def)
  with t(2,3) show thesis by (intro that)
qed

text \<open>The memory with the bit of block \<open>b\<close> in the bitmap set (the block is free) or cleared (it is in use).\<close>

definition mark_used :: "nat \<Rightarrow> (u32 \<Rightarrow> u8) \<Rightarrow> u32 \<Rightarrow> u8" where
  "mark_used b m = put_word (bitmap_word b) (word_at m (bitmap_word b) AND NOT (push_bit (b mod 32) 1)) m"

definition mark_free :: "nat \<Rightarrow> (u32 \<Rightarrow> u8) \<Rightarrow> u32 \<Rightarrow> u8" where
  "mark_free b m = put_word (bitmap_word b) (word_at m (bitmap_word b) OR push_bit (b mod 32) 1) m"

lemma unat_bitmap_word: "b < 786432 \<Longrightarrow> unat (bitmap_word b) = 268443648 + 4 * (b div 32)"
proof -
  assume "b < 786432"
  then have "b div 32 < 24576" by simp
  then show ?thesis by (simp add: bitmap_word_def unat_word_ariths unat_of_nat)
qed

lemma words_apart:
  fixes p q :: u32
  assumes "unat p + 4 \<le> unat q \<or> unat q + 4 \<le> unat p" "unat p + 4 \<le> 4294967296" "unat q + 4 \<le> 4294967296"
  shows "word_at (put_word p w m) q = word_at m q"
proof (rule word_at_agree)
  fix j :: nat
  assume j: "j < 4"
  have "unat (q + of_nat j) = unat q + j" using j assms(3) by (simp add: unat_add_lt)
  moreover have "unat (p + 1) = unat p + 1" "unat (p + 2) = unat p + 2" "unat (p + 3) = unat p + 3"
    using assms(2) unat_add_lt [of p 1] unat_add_lt [of p 2] unat_add_lt [of p 3] by simp_all
  ultimately show "put_word p w m (q + of_nat j) = m (q + of_nat j)"
    using assms(1) j by (intro put_word_outside) auto
qed

lemma bitmap_word_put:
  assumes "b < 786432" "b' < 786432"
  shows "word_at (put_word (bitmap_word b) w m) (bitmap_word b') = (if b div 32 = b' div 32 then w else word_at m (bitmap_word b'))"
proof (cases "b div 32 = b' div 32")
  case True
  then have "bitmap_word b' = bitmap_word b" by (simp add: bitmap_word_def)
  with True show ?thesis by (simp add: word_at_put)
next
  case False
  then have "4 * (b div 32) + 4 \<le> 4 * (b' div 32) \<or> 4 * (b' div 32) + 4 \<le> 4 * (b div 32)" by linarith
  moreover have "b div 32 < 24576" "b' div 32 < 24576" using assms by simp_all
  ultimately show ?thesis
    using False unat_bitmap_word [OF assms(1)] unat_bitmap_word [OF assms(2)] by (intro trans [OF words_apart]) auto
qed

lemma nblocks_put_bitmap: "b < 786432 \<Longrightarrow> nblocks (put_word (bitmap_word b) w m) = nblocks m"
  unfolding nblocks_def by (subst words_apart) (simp_all add: unat_bitmap_word)

lemma same_bit: "b div 32 = b' div 32 \<Longrightarrow> b mod 32 = b' mod 32 \<longleftrightarrow> b = (b' :: nat)"
  by (metis div_mult_mod_eq)

lemma mark_used_bits:
  assumes "b < 786432" "b' < 786432"
  shows "free_bit (mark_used b m) b' \<longleftrightarrow> free_bit m b' \<and> b' \<noteq> b" "nblocks (mark_used b m) = nblocks m"
proof -
  show "nblocks (mark_used b m) = nblocks m" using assms(1) by (simp add: mark_used_def nblocks_put_bitmap)
  have "b' mod 32 < 32" by simp
  then show "free_bit (mark_used b m) b' \<longleftrightarrow> free_bit m b' \<and> b' \<noteq> b"
    using assms same_bit [of b b'] bitmap_word_put [OF assms]
    by (auto simp: free_bit_def mark_used_def bit_simps bitmap_word_def)
qed

lemma mark_free_bits:
  assumes "b < 786432" "b' < 786432"
  shows "free_bit (mark_free b m) b' \<longleftrightarrow> free_bit m b' \<or> b' = b" "nblocks (mark_free b m) = nblocks m"
proof -
  show "nblocks (mark_free b m) = nblocks m" using assms(1) by (simp add: mark_free_def nblocks_put_bitmap)
  have "b' mod 32 < 32" by simp
  then show "free_bit (mark_free b m) b' \<longleftrightarrow> free_bit m b' \<or> b' = b"
    using assms same_bit [of b b'] bitmap_word_put [OF assms]
    by (auto simp: free_bit_def mark_free_def bit_simps bitmap_word_def)
qed

lemma word_block:
  assumes "a \<in> {blk_addr b i, blk_addr b i + 1, blk_addr b i + 2, blk_addr b i + 3}" "b < 786432" "i + 3 < 4096"
  shows "blk_of a = b"
  using assms blk_addr(3) [of b i] blk_addr(3) [of b "i + 1"] blk_addr(3) [of b "i + 2"] blk_addr(3) [of b "i + 3"]
    blk_addr_add [of b i 1] blk_addr_add [of b i 2] blk_addr_add [of b i 3] by auto

lemma view_put_word:
  assumes "b < 786432" "i + 3 < 4096" "mapped s b"
  shows "view (s\<lparr>mem := put_word (blk_addr b i) w (mem s), dirty := d\<rparr>) = put_word (blk_addr b i) w (view s)"
proof
  fix a
  let ?A = "{blk_addr b i, blk_addr b i + 1, blk_addr b i + 2, blk_addr b i + 3}"
  show "view (s\<lparr>mem := put_word (blk_addr b i) w (mem s), dirty := d\<rparr>) a = put_word (blk_addr b i) w (view s) a"
  proof (cases "a \<in> ?A")
    case True
    then have "blk_of a = b" using assms(1,2) by (rule word_block)
    then show ?thesis using True assms(3) by (auto simp: view_def put_word_def put4_def split: prod.splits)
  next
    case False
    then show ?thesis by (simp add: view_def put_word_outside)
  qed
qed

lemma bitmap_store:
  assumes s: "bc_ok s" "b < nblocks (view s)" "mapped s (2 + b div 32768)" and m: "meta_ok (put_word (bitmap_word b) w (view s))"
  obtains t where "store32 (bitmap_word b) w s = Inr ((), t)" "bc_ok t" "view t = put_word (bitmap_word b) w (view s)"
    "disk t = disk s" "mapped t = mapped s"
proof -
  note B = bitmap_block(3,4) [OF s(1,2)]
  define t where "t = s\<lparr>mem := put_word (bitmap_word b) w (mem s), dirty := (dirty s)(2 + b div 32768 := True)\<rparr>"
  have v: "view t = put_word (bitmap_word b) w (view s)"
    unfolding t_def bitmap_word_addr by (rule view_put_word [OF B s(3)])
  have n: "nblocks (view t) = nblocks (view s)"
    unfolding v using s nblocks_bound [OF s(1)] by (intro nblocks_put_bitmap) simp
  have "a \<notin> {bitmap_word b, bitmap_word b + 1, bitmap_word b + 2, bitmap_word b + 3}" if "in_cache a" "blk_of a \<noteq> 2 + b div 32768" for a
    using that word_block [OF _ B, of a] unfolding bitmap_word_addr by blast
  then have "coherent t"
    using s(1) by (auto simp: bc_ok_def coherent_def t_def put_word_outside)
  then have "bc_ok t"
    using s(1) m n v by (simp add: bc_ok_def) (simp add: t_def)
  moreover have "store32 (bitmap_word b) w s = Inr ((), t)"
    unfolding t_def bitmap_word_addr by (rule store32_mapped [OF B s(3)])
  ultimately show thesis using v by (intro that [of t]) (simp_all add: t_def)
qed

lemma mark_used_meta: "meta_ok m \<Longrightarrow> b < nblocks m \<Longrightarrow> meta_ok (mark_used b m)"
  using mark_used_bits [of b _ m] mark_used_bits(2) [of b b m] by (auto simp: meta_ok_def)

lemma mark_free_meta: "meta_ok m \<Longrightarrow> reserved (nblocks m) \<le> b \<Longrightarrow> b < nblocks m \<Longrightarrow> meta_ok (mark_free b m)"
  using mark_free_bits [of b _ m] mark_free_bits(2) [of b b m] by (auto simp: meta_ok_def)

definition bitmap_saved :: "('x) bcache_scheme \<Rightarrow> bool" where
  "bitmap_saved s \<longleftrightarrow> (\<forall>a. in_cache a \<and> blk_of a = 2 \<longrightarrow> disk s 2 (off_of a) = view s a)"

lemma alloc_mark:
  assumes "bc_ok s" "b < nblocks (view s)"
  obtains t u v where "load32 (bitmap_word b) s = Inr (word_at (view s) (bitmap_word b), t)"
    "store32 (bitmap_word b) (word_at (view s) (bitmap_word b) AND NOT (push_bit (b mod 32) 1)) t = Inr ((), u)"
    "flush_block (bitmap_word 0) u = Inr ((), v)" "bc_ok v" "view v = mark_used b (view s)" "bitmap_saved v"
    "\<And>b'. b' \<noteq> 2 \<Longrightarrow> disk v b' = disk s b'"
proof -
  obtain t where t: "load32 (bitmap_word b) s = Inr (word_at (view s) (bitmap_word b), t)" "touched s t" "mapped t (2 + b div 32768)"
    using assms by (rule bitmap_load)
  have t': "bc_ok t" "view t = view s" "disk t = disk s" using t(2) by (simp_all add: touched_def)
  have m: "meta_ok (put_word (bitmap_word b) (word_at (view s) (bitmap_word b) AND NOT (push_bit (b mod 32) 1)) (view t))"
    using mark_used_meta [of "view s" b] assms t' by (simp add: bc_ok_def mark_used_def)
  obtain u where u: "store32 (bitmap_word b) (word_at (view s) (bitmap_word b) AND NOT (push_bit (b mod 32) 1)) t = Inr ((), u)"
    "bc_ok u" "view u = put_word (bitmap_word b) (word_at (view s) (bitmap_word b) AND NOT (push_bit (b mod 32) 1)) (view t)"
    "disk u = disk t"
    by (rule bitmap_store [OF t'(1) _ t(3) m]) (use assms(2) t'(2) in auto)
  have i: "in_cache (bitmap_word 0)" "blk_of (bitmap_word 0) = 2"
    by (simp_all add: bitmap_word_def in_cache_def blk_of_def)
  have c: "coherent u" "\<not> bad u b'" for b' using u(2) by (simp_all add: bc_ok_def)
  have "bitmap_saved (flushed 2 u)"
    unfolding bitmap_saved_def using flushed_disk [OF c(1) c(2)] by (metis flushed_view)
  moreover have "disk (flushed 2 u) b' = disk s b'" if "b' \<noteq> 2" for b'
    using that u(4) t'(3) by (simp add: flushed_def)
  ultimately show thesis
    using that [OF t(1) u(1)] flush_block_eq [OF i(1), of u] i(2) flushed_ok [OF u(2)] u(3) t'(2)
    by (simp add: mark_used_def)
qed

lemma alloc_loop_ok:
  assumes "bc_ok s" "i \<le> nblocks (view s)" "nblocks (view s) - i < k"
  shows "\<exists>t. alloc_loop k i s = Inr (case find (free_bit (view s)) [i..<nblocks (view s)] of None \<Rightarrow> - E_NO_DISK | Some b \<Rightarrow> int b, t) \<and>
    (case find (free_bit (view s)) [i..<nblocks (view s)] of None \<Rightarrow> touched s t
     | Some b \<Rightarrow> bc_ok t \<and> view t = mark_used b (view s) \<and> bitmap_saved t \<and> (\<forall>b'. b' \<noteq> 2 \<longrightarrow> disk t b' = disk s b'))"
  using assms
proof (induction k arbitrary: i s)
  case (Suc k)
  note n = s_nblocks_load [OF Suc.prems(1)]
  show ?case
  proof (cases "i < nblocks (view s)")
    case True
    then have l: "[i..<nblocks (view s)] = i # [Suc i..<nblocks (view s)]" by (rule upt_conv_Cons)
    obtain t where t: "block_is_free (of_nat i) s = Inr (free_bit (view s) i, t)" "touched s t"
      using Suc.prems(1) True by (rule block_is_free_ok)
    have t': "bc_ok t" "view t = view s" "disk t = disk s" using t(2) by (simp_all add: touched_def)
    have lt: "(of_nat i :: u32) < of_nat (nblocks (view s))"
      using of_nat_less_nblocks [OF Suc.prems(1)] True by simp
    show ?thesis
    proof (cases "free_bit (view s) i")
      case free: True
      obtain x y z where "load32 (bitmap_word i) t = Inr (word_at (view t) (bitmap_word i), x)"
        "store32 (bitmap_word i) (word_at (view t) (bitmap_word i) AND NOT (push_bit (i mod 32) 1)) x = Inr ((), y)"
        "flush_block (bitmap_word 0) y = Inr ((), z)" "bc_ok z" "view z = mark_used i (view t)" "bitmap_saved z"
        "\<And>b'. b' \<noteq> 2 \<Longrightarrow> disk z b' = disk t b'"
        by (rule alloc_mark [OF t'(1), of i]) (use True t'(2) in auto)
      with free l t t' n lt show ?thesis by (simp del: s_nblocks_def)
    next
      case used: False
      have "Suc i \<le> nblocks (view t)" "nblocks (view t) - Suc i < k" using True Suc.prems(3) t'(2) by auto
      from Suc.IH [OF t'(1) this, unfolded t'(2,3)]
      obtain u where "alloc_loop k (Suc i) t = Inr (case find (free_bit (view s)) [Suc i..<nblocks (view s)] of None \<Rightarrow> - E_NO_DISK | Some b \<Rightarrow> int b, u)"
        "case find (free_bit (view s)) [Suc i..<nblocks (view s)] of None \<Rightarrow> touched t u
         | Some b \<Rightarrow> bc_ok u \<and> view u = mark_used b (view s) \<and> bitmap_saved u \<and> (\<forall>b'. b' \<noteq> 2 \<longrightarrow> disk u b' = disk s b')"
        by blast
      with used l t n lt show ?thesis
        using touched_trans [OF t(2)] by (auto split: option.split simp del: s_nblocks_def)
    qed
  next
    case False
    with Suc.prems have "i = nblocks (view s)" by simp
    then have "\<not> (of_nat i :: u32) < of_nat (nblocks (view s))" by simp
    with n False Suc.prems(1) show ?thesis by (simp add: touched_def del: s_nblocks_def)
  qed
qed simp

lemma alloc_block_ok:
  assumes "bc_ok s"
  obtains t where "alloc_block s = Inr (case find (free_bit (view s)) [0..<nblocks (view s)] of None \<Rightarrow> - E_NO_DISK | Some b \<Rightarrow> int b, t)"
    "case find (free_bit (view s)) [0..<nblocks (view s)] of None \<Rightarrow> touched s t
     | Some b \<Rightarrow> bc_ok t \<and> view t = mark_used b (view s) \<and> bitmap_saved t \<and> (\<forall>b'. b' \<noteq> 2 \<longrightarrow> disk t b' = disk s b')"
proof -
  have "nblocks (view s) - 0 < 2147483648" using nblocks_bound [OF assms] by simp
  from alloc_loop_ok [OF assms _ this] that show thesis unfolding alloc_block_def by blast
qed

lemma free_block_ok:
  assumes "bc_ok s" "reserved (nblocks (view s)) \<le> b" "b < nblocks (view s)"
  obtains t where "free_block (of_nat b) s = Inr ((), t)" "bc_ok t" "view t = mark_free b (view s)"
proof -
  have b: "b \<noteq> 0" "unat (of_nat b :: u32) = b"
    using assms(2,3) nblocks_bound [OF assms(1)] by (simp_all add: reserved_def unat_of_nat)
  then have nz: "(of_nat b :: u32) \<noteq> 0" by (metis unat_0)
  obtain t where t: "load32 (bitmap_word b) s = Inr (word_at (view s) (bitmap_word b), t)" "touched s t" "mapped t (2 + b div 32768)"
    using assms(1,3) by (rule bitmap_load)
  have t': "bc_ok t" "view t = view s" using t(2) by (simp_all add: touched_def)
  have m: "meta_ok (put_word (bitmap_word b) (word_at (view s) (bitmap_word b) OR push_bit (b mod 32) 1) (view t))"
    using mark_free_meta [of "view s" b] assms t' by (simp add: bc_ok_def mark_free_def)
  obtain u where "store32 (bitmap_word b) (word_at (view s) (bitmap_word b) OR push_bit (b mod 32) 1) t = Inr ((), u)"
    "bc_ok u" "view u = put_word (bitmap_word b) (word_at (view s) (bitmap_word b) OR push_bit (b mod 32) 1) (view t)"
    by (rule bitmap_store [OF t'(1) _ t(3) m]) (use assms(3) t'(2) in auto)
  with t(1) t'(2) b nz show thesis by (intro that [of u]) (simp_all add: free_block_def mark_free_def)
qed

text \<open>Allocating and freeing a block again restores the bitmap.\<close>

lemma put_word_at: "put_word p (word_at m p) m = m"
proof -
  have "bytes4 (word_of4 (a, b, c, d)) = (a, b, c, d)" for a b c d :: u8
    by (auto simp: bytes4_def word_of4_def bit_eq_iff bit_simps dest: bit_imp_le_length)
  then show ?thesis by (simp add: put_word_def word_at_def get4_def put4_def fun_eq_iff)
qed

lemma put_word_twice: "put_word p w' (put_word p w m) = put_word p w' m"
proof
  fix a
  show "put_word p w' (put_word p w m) a = put_word p w' m a"
  proof (cases "a \<in> {p, p + 1, p + 2, p + 3}")
    case True
    then show ?thesis by (auto simp: put_word_def put4_def bytes4_def)
  next
    case False
    then show ?thesis by (simp add: put_word_outside)
  qed
qed

lemma mark_free_used:
  assumes "free_bit m b"
  shows "mark_free b (mark_used b m) = m"
proof -
  let ?w = "word_at m (bitmap_word b)"
  have "bit ?w (b mod 32)" using assms by (simp add: free_bit_def)
  then have "(?w AND NOT (push_bit (b mod 32) 1)) OR push_bit (b mod 32) 1 = ?w"
    by (intro bit_word_eqI) (auto simp: bit_simps)
  then show ?thesis
    by (simp add: mark_free_def mark_used_def word_at_put put_word_twice put_word_at)
qed

text \<open>Flushing every block.\<close>

lemma fs_sync_loop_ok:
  assumes "bc_ok s" "1 \<le> i" "i \<le> nblocks (view s)" "nblocks (view s) - i < k"
    "\<And>a. in_cache a \<Longrightarrow> 1 \<le> blk_of a \<Longrightarrow> blk_of a < i \<Longrightarrow> disk s (blk_of a) (off_of a) = view s a"
  shows "\<exists>t. fs_sync_loop k i s = Inr ((), t) \<and> bc_ok t \<and> view t = view s \<and> disk t 0 = disk s 0 \<and>
    (\<forall>a. in_cache a \<and> 1 \<le> blk_of a \<and> blk_of a < nblocks (view s) \<longrightarrow> disk t (blk_of a) (off_of a) = view s a)"
  using assms
proof (induction k arbitrary: i s)
  case (Suc k)
  note n = s_nblocks_load [OF Suc.prems(1)]
  show ?case
  proof (cases "i < nblocks (view s)")
    case True
    then have i: "i < 786432" using nblocks_bound [OF Suc.prems(1)] by simp
    have lt: "(of_nat i :: u32) < of_nat (nblocks (view s))"
      using of_nat_less_nblocks [OF Suc.prems(1)] True by simp
    have c: "coherent s" "\<not> bad s b" for b using Suc.prems(1) by (simp_all add: bc_ok_def)
    have "disk (flushed i s) (blk_of a) (off_of a) = view s a" if "in_cache a" "1 \<le> blk_of a" "blk_of a < Suc i" for a
    proof (cases "blk_of a = i")
      case True
      with flushed_disk [OF c(1,2) that(1)] show ?thesis by simp
    next
      case False
      with that Suc.prems(5) [of a] show ?thesis by (simp add: flushed_def)
    qed
    moreover have "disk (flushed i s) 0 = disk s 0" using Suc.prems(2) by (simp add: flushed_def)
    ultimately have "\<exists>t. fs_sync_loop k (Suc i) (flushed i s) = Inr ((), t) \<and> bc_ok t \<and> view t = view s \<and> disk t 0 = disk s 0 \<and>
        (\<forall>a. in_cache a \<and> 1 \<le> blk_of a \<and> blk_of a < nblocks (view s) \<longrightarrow> disk t (blk_of a) (off_of a) = view s a)"
      using Suc.IH [of "flushed i s" "Suc i"] flushed_ok [OF Suc.prems(1)] Suc.prems(4) True by simp
    moreover have "diskaddr (of_nat i) s = Inr (blk_addr i 0, s)"
      using Suc.prems(1,2) True by (intro diskaddr_ok) auto
    moreover have "flush_block (blk_addr i 0) s = Inr ((), flushed i s)"
      using flush_block_eq [of "blk_addr i 0" s] blk_addr [OF i, of 0] by simp
    ultimately show ?thesis using n lt by (simp del: s_nblocks_def)
  next
    case False
    with Suc.prems(3) have "i = nblocks (view s)" by simp
    with n Suc.prems(1,5) show ?thesis by (simp del: s_nblocks_def)
  qed
qed simp

section \<open>Properties of blocks\<close>

text \<open>C31. \<open>alloc_block\<close> takes the first free block. In a well-formed state it always returns. If no block of the disk is
  free it returns \<open>-E_NO_DISK\<close> and nothing that the server sees, and nothing on the disk, has changed. Otherwise it
  returns the lowest free block, which is not the super block or a block of the bitmap; afterwards this block is in
  use, every other block is as free as before, only the word of the bitmap with its bit has changed, the first
  block of the bitmap is on the disk as the server sees it, and no other block of the disk has changed.
\<close>

theorem alloc_block_correct:
  assumes "bc_ok s"
  shows "case find (free_bit (view s)) [0..<nblocks (view s)] of
      None \<Rightarrow> \<exists>s'. alloc_block s = Inr (- E_NO_DISK, s') \<and> bc_ok s' \<and> view s' = view s \<and> disk s' = disk s
    | Some b \<Rightarrow> \<exists>s'. alloc_block s = Inr (int b, s') \<and> bc_ok s' \<and>
        reserved (nblocks (view s)) \<le> b \<and> b < nblocks (view s) \<and> free_bit (view s) b \<and> (\<forall>b'<b. \<not> free_bit (view s) b') \<and>
        (\<forall>b'<nblocks (view s). free_bit (view s') b' \<longleftrightarrow> free_bit (view s) b' \<and> b' \<noteq> b) \<and>
        (\<forall>a. a \<notin> {bitmap_word b, bitmap_word b + 1, bitmap_word b + 2, bitmap_word b + 3} \<longrightarrow> view s' a = view s a) \<and>
        bitmap_saved s' \<and> (\<forall>b'. b' \<noteq> 2 \<longrightarrow> disk s' b' = disk s b')"
proof -
  obtain t where t: "alloc_block s = Inr (case find (free_bit (view s)) [0..<nblocks (view s)] of None \<Rightarrow> - E_NO_DISK | Some b \<Rightarrow> int b, t)"
    "case find (free_bit (view s)) [0..<nblocks (view s)] of None \<Rightarrow> touched s t
     | Some b \<Rightarrow> bc_ok t \<and> view t = mark_used b (view s) \<and> bitmap_saved t \<and> (\<forall>b'. b' \<noteq> 2 \<longrightarrow> disk t b' = disk s b')"
    using assms by (rule alloc_block_ok)
  show ?thesis
  proof (cases "find (free_bit (view s)) [0..<nblocks (view s)]")
    case None
    with t show ?thesis by (auto simp: touched_def)
  next
    case (Some b)
    then obtain i where i: "i < nblocks (view s)" "free_bit (view s) i" "b = i" "\<forall>j<i. \<not> free_bit (view s) j"
      by (auto simp: find_Some_iff)
    have m: "meta_ok (view s)" using assms by (simp add: bc_ok_def)
    have "reserved (nblocks (view s)) \<le> b" using meta_okD(3) [OF m, of b] i by (meson not_le)
    moreover have "free_bit (mark_used b (view s)) b' \<longleftrightarrow> free_bit (view s) b' \<and> b' \<noteq> b" if "b' < nblocks (view s)" for b'
      using that i nblocks_bound [OF assms] by (intro mark_used_bits) auto
    ultimately show ?thesis
      using t i Some by (simp add: mark_used_def put_word_outside)
  qed
qed

theorem alloc_block_correct_witness:
  "\<exists>s'. alloc_block small_disk = Inr (6, s') \<and> bc_ok s' \<and> \<not> free_bit (view s') 6 \<and> free_bit (view s') 7 \<and> bitmap_saved s'"
proof -
  have "find (free_bit small_view) [0..<8] = Some 6"
    using small_free by (auto simp: find_Some_iff intro!: exI [of _ 6])
  with alloc_block_correct [OF small_disk_ok] small_free [of 7] show ?thesis
    by (auto simp del: upt_rec_numeral)
qed

text \<open>Freeing a block undoes its allocation: after a successful \<open>alloc_block\<close>, \<open>free_block\<close> of the block
  returns and the server sees exactly the memory it saw before, bitmap included.
\<close>

lemma alloc_free_roundtrip:
  assumes "bc_ok s" "alloc_block s = Inr (r, s')" "0 \<le> r"
  shows "\<exists>s''. free_block (of_int r) s' = Inr ((), s'') \<and> bc_ok s'' \<and> view s'' = view s"
proof -
  obtain t where t: "alloc_block s = Inr (case find (free_bit (view s)) [0..<nblocks (view s)] of None \<Rightarrow> - E_NO_DISK | Some b \<Rightarrow> int b, t)"
    "case find (free_bit (view s)) [0..<nblocks (view s)] of None \<Rightarrow> touched s t
     | Some b \<Rightarrow> bc_ok t \<and> view t = mark_used b (view s) \<and> bitmap_saved t \<and> (\<forall>b'. b' \<noteq> 2 \<longrightarrow> disk t b' = disk s b')"
    using assms(1) by (rule alloc_block_ok)
  obtain b where f: "find (free_bit (view s)) [0..<nblocks (view s)] = Some b"
    using t(1) assms(2,3) by (cases "find (free_bit (view s)) [0..<nblocks (view s)]") auto
  then have b: "b < nblocks (view s)" "free_bit (view s) b" by (auto simp: find_Some_iff)
  have r: "r = int b" "t = s'" "bc_ok s'" "view s' = mark_used b (view s)" using t assms(2) f by auto
  have m: "meta_ok (view s)" using assms(1) by (simp add: bc_ok_def)
  have n: "nblocks (view s') = nblocks (view s)"
    unfolding r(4) using b nblocks_bound [OF assms(1)] by (intro mark_used_bits(2) [of b b]) auto
  have "reserved (nblocks (view s')) \<le> b" unfolding n using meta_okD(3) [OF m, of b] b by (meson not_le)
  moreover have "b < nblocks (view s')" using b(1) n by simp
  ultimately obtain u where "free_block (of_nat b) s' = Inr ((), u)" "bc_ok u" "view u = mark_free b (view s')"
    using r(3) by (auto intro: free_block_ok)
  then show ?thesis using r(1,4) mark_free_used [OF b(2)] by simp
qed

text \<open>C32. \<open>fs_sync\<close> makes the file system durable: in a well-formed state it returns, what the server sees has not changed,
  and the disk holds every byte of every block from block 1 on as the server sees it; block 0 is not written.
\<close>

theorem fs_sync_durable:
  assumes "bc_ok s"
  shows "\<exists>s'. fs_sync s = Inr ((), s') \<and> bc_ok s' \<and> view s' = view s \<and> disk s' 0 = disk s 0 \<and>
    (\<forall>a. in_cache a \<and> 1 \<le> blk_of a \<and> blk_of a < nblocks (view s) \<longrightarrow> disk s' (blk_of a) (off_of a) = view s a)"
proof -
  have "meta_ok (view s)" using assms by (simp add: bc_ok_def)
  then have "1 \<le> nblocks (view s)" "nblocks (view s) - 1 < 2147483647"
    using meta_okD(1,4) by fastforce+
  then show ?thesis
    unfolding fs_sync_def using assms by (intro fs_sync_loop_ok) auto
qed

theorem fs_sync_durable_witness: "\<exists>s'. fs_sync small_disk = Inr ((), s') \<and> disk s' 1 4 = 8"
proof -
  have i: "in_cache 0x10001004" "blk_of 0x10001004 = 1" "off_of 0x10001004 = 4"
    by (simp_all add: in_cache_def blk_of_def off_of_def)
  from fs_sync_durable [OF small_disk_ok] i show ?thesis
    by (auto dest!: spec [of _ "0x10001004"] simp: small_view_def)
qed

end
