(* ===== verification/Mmu.thy ===== *)
theory Mmu
  imports Prelude
begin

text \<open>
  The x86 paging constants and address macros of inc/mmu.h and the layout constants of
  inc/memlayout.h. A linear address is split into a page directory index, a page table index and
  an offset; a page table entry holds a frame address in its upper twenty bits and flags in the
  lower twelve.
\<close>

unbundle bit_operations_syntax

section \<open>Constants\<close>

definition NPDENTRIES :: nat where [simp]: "NPDENTRIES = 1024"
definition NPTENTRIES :: nat where [simp]: "NPTENTRIES = 1024"
definition PGSIZE :: u32 where [simp]: "PGSIZE = 4096"
definition PGSHIFT :: nat where [simp]: "PGSHIFT = 12"
definition PTSIZE :: u32 where [simp]: "PTSIZE = 4194304"
definition PTXSHIFT :: nat where [simp]: "PTXSHIFT = 12"
definition PDXSHIFT :: nat where [simp]: "PDXSHIFT = 22"

definition PTE_P :: u32 where [simp]: "PTE_P = 0x001"
definition PTE_W :: u32 where [simp]: "PTE_W = 0x002"
definition PTE_U :: u32 where [simp]: "PTE_U = 0x004"
definition PTE_PWT :: u32 where [simp]: "PTE_PWT = 0x008"
definition PTE_PCD :: u32 where [simp]: "PTE_PCD = 0x010"
definition PTE_D :: u32 where [simp]: "PTE_D = 0x040"
definition PTE_AVAIL :: u32 where [simp]: "PTE_AVAIL = 0xE00"
definition PTE_SYSCALL :: u32 where [simp]: "PTE_SYSCALL = 0xE07"
definition PTE_SHARE :: u32 where [simp]: "PTE_SHARE = 0x400"

definition FL_IF :: u32 where [simp]: "FL_IF = 0x200"
definition FL_IOPL_3 :: u32 where [simp]: "FL_IOPL_3 = 0x3000"

definition KERNBASE :: u32 where [simp]: "KERNBASE = 0xF0000000"
definition IOPHYSMEM :: u32 where [simp]: "IOPHYSMEM = 0x0A0000"
definition EXTPHYSMEM :: u32 where [simp]: "EXTPHYSMEM = 0x100000"
definition KSTACKTOP :: u32 where [simp]: "KSTACKTOP = KERNBASE"
definition KSTKSIZE :: u32 where [simp]: "KSTKSIZE = 8 * PGSIZE"
definition KSTKGAP :: u32 where [simp]: "KSTKGAP = 8 * PGSIZE"
definition MMIOLIM :: u32 where [simp]: "MMIOLIM = KSTACKTOP - PTSIZE"
definition MMIOBASE :: u32 where [simp]: "MMIOBASE = MMIOLIM - PTSIZE"
definition ULIM :: u32 where [simp]: "ULIM = MMIOBASE"
definition UVPT :: u32 where [simp]: "UVPT = ULIM - PTSIZE"
definition UPAGES :: u32 where [simp]: "UPAGES = UVPT - PTSIZE"
definition UENVS :: u32 where [simp]: "UENVS = UPAGES - PTSIZE"
definition UTOP :: u32 where [simp]: "UTOP = UENVS"
definition UXSTACKTOP :: u32 where [simp]: "UXSTACKTOP = UTOP"
definition USTACKTOP :: u32 where [simp]: "USTACKTOP = UTOP - 2 * PGSIZE"
definition MPENTRY_PADDR :: u32 where [simp]: "MPENTRY_PADDR = 0x7000"

definition GD_KT :: u16 where [simp]: "GD_KT = 0x08"
definition GD_KD :: u16 where [simp]: "GD_KD = 0x10"
definition GD_UT :: u16 where [simp]: "GD_UT = 0x18"
definition GD_UD :: u16 where [simp]: "GD_UD = 0x20"

section \<open>Address macros\<close>

definition PGNUM :: "u32 \<Rightarrow> u32" where
  "PGNUM la = drop_bit PTXSHIFT la"

definition PDX :: "u32 \<Rightarrow> u32" where
  "PDX la = drop_bit PDXSHIFT la AND 0x3FF"

definition PTX :: "u32 \<Rightarrow> u32" where
  "PTX la = drop_bit PTXSHIFT la AND 0x3FF"

definition PGOFF :: "u32 \<Rightarrow> u32" where
  "PGOFF la = la AND 0xFFF"

definition PGADDR :: "u32 \<Rightarrow> u32 \<Rightarrow> u32 \<Rightarrow> u32" where
  "PGADDR d t off = push_bit PDXSHIFT d OR push_bit PTXSHIFT t OR off"

definition PTE_ADDR :: "u32 \<Rightarrow> u32" where
  "PTE_ADDR pte = pte AND NOT 0xFFF"

text \<open>
  The frame number a page table or page directory entry points at, and the two indices of a
  linear address, as natural numbers: the model indexes physical memory with them.
\<close>

abbreviation frame :: "u32 \<Rightarrow> nat" where
  "frame pte \<equiv> unat (PGNUM (PTE_ADDR pte))"

abbreviation pdx :: "u32 \<Rightarrow> nat" where
  "pdx va \<equiv> unat (PDX va)"

abbreviation ptx :: "u32 \<Rightarrow> nat" where
  "ptx va \<equiv> unat (PTX va)"

section \<open>Facts on the macros\<close>

lemma mask_consts:
  "(0x3FF :: u32) = mask 10" "(0xFFF :: u32) = mask 12" "(0xFFFFF :: u32) = mask 20"
  by (simp_all add: mask_eq_exp_minus_1)

lemma u32_less: "unat (w :: u32) < 4294967296"
  using unsigned_less [of w] by simp

lemma unat_PDX: "unat (PDX la) = unat la div 4194304"
proof -
  have "take_bit 10 (unat la div 4194304) = unat la div 4194304"
    using u32_less [of la] by (intro take_bit_nat_eq_self) simp
  then show ?thesis
    by (simp add: PDX_def mask_consts(1) unat_div_distrib drop_bit_eq_div
        unsigned_take_bit_eq flip: take_bit_eq_mask)
qed

lemma unat_PTX: "unat (PTX la) = unat la div 4096 mod 1024"
  by (simp add: PTX_def mask_consts(1) unat_div_distrib drop_bit_eq_div unsigned_take_bit_eq
      flip: take_bit_eq_mask) (simp add: take_bit_eq_mod unat_mod_distrib unat_div_distrib)

lemma unat_PGNUM: "unat (PGNUM la) = unat la div 4096"
  by (simp add: PGNUM_def drop_bit_eq_div unat_div_distrib)

lemma unat_PGOFF: "unat (PGOFF la) = unat la mod 4096"
  by (simp add: PGOFF_def mask_consts(2) flip: take_bit_eq_mask)
    (simp add: take_bit_eq_mod unat_mod_distrib)

lemma pdx_less [simp]: "unat (PDX la) < 1024"
  using u32_less [of la] by (simp add: unat_PDX)

lemma ptx_less [simp]: "unat (PTX la) < 1024"
  by (simp add: unat_PTX)

lemma PGNUM_split: "unat (PGNUM la) = unat (PDX la) * 1024 + unat (PTX la)"
  using div_mult_mod_eq [of "unat la div 4096" 1024]
  by (simp add: unat_PGNUM unat_PDX unat_PTX flip: div_mult2_eq)

text \<open>Two addresses lie on the same page exactly when both indices agree.\<close>

lemma same_page_iff: "PGNUM a = PGNUM b \<longleftrightarrow> pdx a = pdx b \<and> ptx a = ptx b"
proof
  assume "PGNUM a = PGNUM b"
  then have "unat a div 4096 = unat b div 4096"
    by (simp flip: unat_PGNUM)
  then have "unat a div 4096 div 1024 = unat b div 4096 div 1024 \<and>
    unat a div 4096 mod 1024 = unat b div 4096 mod 1024"
    by simp
  then show "pdx a = pdx b \<and> ptx a = ptx b"
    by (simp add: unat_PDX unat_PTX flip: div_mult2_eq)
next
  assume "pdx a = pdx b \<and> ptx a = ptx b"
  then have "unat (PGNUM a) = unat (PGNUM b)"
    by (simp add: PGNUM_split)
  then show "PGNUM a = PGNUM b"
    by (simp add: word_unat_eq_iff)
qed

text \<open>Decomposing an address and putting it together again is the identity, both ways.\<close>

lemma PGADDR_decompose: "PGADDR (PDX la) (PTX la) (PGOFF la) = la"
proof (rule bit_word_eqI)
  fix n :: nat
  assume "n < LENGTH(32)"
  then show "bit (PGADDR (PDX la) (PTX la) (PGOFF la)) n = bit la n"
    by (cases "n < 12"; cases "n < 22")
      (auto simp: PGADDR_def PDX_def PTX_def PGOFF_def mask_consts bit_simps)
qed

lemma bit_imp_less:
  assumes "unat (w :: u32) < 2 ^ k" and "bit w n"
  shows "n < k"
proof (rule ccontr)
  assume "\<not> n < k"
  then have "unat w < 2 ^ n"
    using assms(1) by (meson not_less order_less_le_trans one_le_numeral power_increasing)
  then have "\<not> bit (unat w) n"
    by (simp add: bit_iff_odd)
  then show False
    using assms(2) by (simp add: bit_unsigned_iff)
qed

lemma index_bits: "unat (d :: u32) < 1024 \<Longrightarrow> bit d n \<Longrightarrow> n < 10"
  using bit_imp_less [of d 10] by simp

lemma offset_bits: "unat (off :: u32) < 4096 \<Longrightarrow> bit off n \<Longrightarrow> n < 12"
  using bit_imp_less [of off 12] by simp

lemma PDX_PGADDR:
  assumes d: "unat d < 1024" and t: "unat t < 1024" and off: "unat off < 4096"
  shows "PDX (PGADDR d t off) = d"
  by (rule bit_word_eqI) (auto simp: PGADDR_def PDX_def mask_consts bit_simps
      dest: index_bits [OF d] index_bits [OF t] offset_bits [OF off])

lemma PTX_PGADDR:
  assumes d: "unat d < 1024" and t: "unat t < 1024" and off: "unat off < 4096"
  shows "PTX (PGADDR d t off) = t"
  by (rule bit_word_eqI) (auto simp: PGADDR_def PTX_def mask_consts bit_simps
      dest: index_bits [OF d] index_bits [OF t] offset_bits [OF off])

lemma UTOP_val: "UTOP = 0xEEC00000"
  by simp

lemma below_UTOP_unat: "va < UTOP \<longleftrightarrow> unat va < 4005560320"
  by (simp add: word_less_nat_alt)

lemma below_UTOP_iff: "va < UTOP \<longleftrightarrow> pdx va < 955"
  unfolding below_UTOP_unat unat_PDX by linarith

section \<open>Signed readings and low bits\<close>

lemma sint_u32: "sint (w :: u32) = (if unat w < 2 ^ 31 then int (unat w) else int (unat w) - 2 ^ 32)"
proof -
  have "sint w = (uint w + 2 ^ 31) mod 2 ^ 32 - 2 ^ 31"
    by (simp add: sint_uint signed_take_bit_eq_take_bit_shift take_bit_eq_mod)
  moreover have "uint w = int (unat w)" by simp
  moreover have "(int n + 2 ^ 31) mod 2 ^ 32 = (if n < 2 ^ 31 then int n + 2 ^ 31 else int n - 2 ^ 31)"
    if "n < 2 ^ 32" for n :: nat
  proof (cases "n < 2 ^ 31")
    case True
    then show ?thesis by (simp add: mod_pos_pos_trivial)
  next
    case False
    have "(int n + 2 ^ 31) mod 2 ^ 32 = (int n - 2 ^ 31 + 2 ^ 32) mod 2 ^ 32"
      by (rule arg_cong [where f = "\<lambda>k. k mod 2 ^ 32"]) simp
    also have "\<dots> = (int n - 2 ^ 31) mod 2 ^ 32" by (rule mod_add_self2)
    also have "\<dots> = int n - 2 ^ 31" using False that by (intro mod_pos_pos_trivial) auto
    finally show ?thesis using False by simp
  qed
  ultimately show ?thesis using u32_less [of w] by (simp del: of_nat_unat)
qed

lemma and_not_1023: "unat ((w :: u32) AND NOT 0x3FF) = unat w div 1024 * 1024"
proof -
  have "w = (w AND NOT 0x3FF) OR (w AND 0x3FF)"
    by (rule bit_word_eqI) (auto simp: bit_simps)
  also have "\<dots> = (w AND NOT 0x3FF) + (w AND 0x3FF)"
    by (rule disjunctive_add_eq_or [symmetric]) (rule bit_word_eqI, auto simp: bit_simps)
  also have "w AND 0x3FF = w mod 1024"
    by (simp add: mask_consts flip: take_bit_eq_mask) (simp add: take_bit_eq_mod)
  finally have "w AND NOT 0x3FF = w - w mod 1024"
    by (metis add_diff_cancel_right')
  moreover have "unat (w - w mod 1024) = unat w - unat w mod 1024"
    by (subst unat_sub) (simp_all add: word_le_nat_alt unat_mod_distrib)
  ultimately show ?thesis
    by (metis minus_mod_eq_div_mult)
qed

lemma or_low:
  assumes "1024 dvd unat (g :: u32)" "e < 1024"
  shows "unat (g OR of_nat e) = unat g + e"
proof -
  obtain q where q: "unat g = 1024 * q"
    using assms(1) by (elim dvdE)
  have e: "unat (of_nat e :: u32) = e"
    using assms(2) by (simp add: unat_of_nat take_bit_nat_eq_self)
  have g: "g = g AND NOT 0x3FF"
    unfolding word_unat_eq_iff and_not_1023 q by simp
  have ee: "of_nat e = (of_nat e :: u32) AND 0x3FF"
    using e assms(2) by (simp add: word_unat_eq_iff mask_consts flip: take_bit_eq_mask)
      (simp add: take_bit_eq_mod unat_mod_distrib)
  have "(g AND NOT 0x3FF) AND (of_nat e AND 0x3FF) = 0"
    by (rule bit_word_eqI) (auto simp: bit_simps)
  then have "g AND of_nat e = 0"
    using g ee by metis
  then have "g OR of_nat e = g + of_nat e"
    by (rule disjunctive_add_eq_or [symmetric])
  moreover have "unat g + e < 2 ^ 32"
    using u32_less [of g] assms(2) unfolding q by simp
  ultimately show ?thesis
    using e by (simp add: unat_word_ariths(1))
qed

end
