(* ===== verification/FsFiles.thy ===== *)
theory FsFiles
  imports Fs Mmu
begin

text \<open>
  Reading and writing of files (\<open>file_read\<close> and \<open>file_write\<close> of fs/fs.c) whose blocks are present among the
  direct blocks: byte \<open>p\<close> of the file is at \<open>file_addr\<close>, a read copies a range of these bytes to the buffer and a write
  changes exactly the bytes of its range.
\<close>

unbundle bit_operations_syntax

section \<open>Files\<close>

definition slot :: "(u32 \<Rightarrow> u8) \<Rightarrow> u32 \<Rightarrow> nat \<Rightarrow> nat" where
  "slot m f bn = unat (word_at m (f_direct f (of_nat bn)))"

definition file_size :: "(u32 \<Rightarrow> u8) \<Rightarrow> u32 \<Rightarrow> nat" where
  "file_size m f = unat (word_at m (f_size f))"

definition file_addr :: "(u32 \<Rightarrow> u8) \<Rightarrow> u32 \<Rightarrow> nat \<Rightarrow> u32" where
  "file_addr m f p = blk_addr (slot m f (p div 4096)) (p mod 4096)"

text \<open>Addresses that hold file system structures or file data: the blocks of the disk other than block 0.\<close>

definition fs_addr :: "u32 \<Rightarrow> bool" where
  "fs_addr a \<longleftrightarrow> in_cache a \<and> 0 < blk_of a"

text \<open>The file at \<open>f\<close>, whose first \<open>k\<close> blocks are present, distinct and do not hold its \<open>struct File\<close>.\<close>

definition file_ok :: "('x) bcache_scheme \<Rightarrow> u32 \<Rightarrow> nat \<Rightarrow> bool" where
  "file_ok s f k \<longleftrightarrow> k \<le> 10 \<and> file_size (view s) f < 2147483648 \<and>
    (\<forall>i<256. fs_addr (f + of_nat i) \<and> bc_acc s (f + of_nat i) \<and> bc_plain s (f + of_nat i)) \<and>
    (\<forall>bn<k. 0 < slot (view s) f bn \<and> slot (view s) f bn < 786432 \<and>
      (\<forall>j<4096. bc_acc s (blk_addr (slot (view s) f bn) j) \<and> bc_plain s (blk_addr (slot (view s) f bn) j)) \<and>
      (\<forall>i<256. blk_of (f + of_nat i) \<noteq> slot (view s) f bn)) \<and>
    inj_on (slot (view s) f) {..<k}"

lemma file_okD:
  assumes "file_ok s f k"
  shows "k \<le> 10" "file_size (view s) f < 2147483648"
    "i < 256 \<Longrightarrow> fs_addr (f + of_nat i)" "i < 256 \<Longrightarrow> bc_acc s (f + of_nat i)" "i < 256 \<Longrightarrow> bc_plain s (f + of_nat i)"
    "bn < k \<Longrightarrow> 0 < slot (view s) f bn" "bn < k \<Longrightarrow> slot (view s) f bn < 786432"
    "bn < k \<Longrightarrow> j < 4096 \<Longrightarrow> bc_acc s (blk_addr (slot (view s) f bn) j)"
    "bn < k \<Longrightarrow> j < 4096 \<Longrightarrow> bc_plain s (blk_addr (slot (view s) f bn) j)"
    "bn < k \<Longrightarrow> i < 256 \<Longrightarrow> blk_of (f + of_nat i) \<noteq> slot (view s) f bn"
    "inj_on (slot (view s) f) {..<k}"
  using assms by (auto simp: file_ok_def)

text \<open>The fields of the file are among its 256 bytes.\<close>

lemma field_agree:
  assumes "\<And>i. i < 256 \<Longrightarrow> m (f + of_nat i) = m' (f + of_nat i)" "d + 3 < 256"
  shows "word_at m (f + of_nat d) = word_at m' (f + of_nat d)"
proof (rule word_at_agree)
  fix j :: nat
  assume "j < 4"
  then show "m (f + of_nat d + of_nat j) = m' (f + of_nat d + of_nat j)"
    using assms(1) [of "d + j"] assms(2) by (simp add: add.assoc)
qed

lemma slot_eq: "slot m f bn = unat (word_at m (f + of_nat (136 + 4 * bn)))"
  by (simp add: slot_def algebra_simps)

lemma file_agree:
  assumes "\<And>i. i < 256 \<Longrightarrow> m (f + of_nat i) = m' (f + of_nat i)"
  shows "bn < 10 \<Longrightarrow> slot m f bn = slot m' f bn" "file_size m f = file_size m' f"
    "p < 40960 \<Longrightarrow> file_addr m f p = file_addr m' f p"
proof -
  show s: "slot m f bn = slot m' f bn" if "bn < 10" for bn
    unfolding slot_eq using that field_agree [of m f m' "136 + 4 * bn"] assms by simp
  show "file_size m f = file_size m' f"
    using field_agree [of m f m' 128] assms by (simp add: file_size_def)
  show "file_addr m f p = file_addr m' f p" if "p < 40960"
    using that by (simp add: file_addr_def s)
qed

lemma file_ok_agree:
  assumes "file_ok s f k" "bc_acc t = bc_acc s" "bc_plain t = bc_plain s" "\<And>i. i < 256 \<Longrightarrow> view t (f + of_nat i) = view s (f + of_nat i)"
  shows "file_ok t f k"
proof -
  have "slot (view t) f bn = slot (view s) f bn" if "bn < k" for bn
    using file_agree(1) [of "view t" f "view s"] assms(4) that file_okD(1) [OF assms(1)] by simp
  moreover have "file_size (view t) f = file_size (view s) f" using file_agree(2) [of "view t" f "view s"] assms(4) by simp
  moreover have "inj_on (slot (view t) f) {..<k}"
    using file_okD(11) [OF assms(1)] calculation(1) by (simp add: inj_on_def)
  ultimately show ?thesis
    using assms(1-3) unfolding file_ok_def by auto
qed

section \<open>Blocks\<close>

lemma field_readable:
  assumes "file_ok s f k" "d + 3 < 256"
  shows "bc.readable s (f + of_nat d) 4"
  unfolding bc.readable_def
proof (intro allI impI)
  fix j :: nat
  assume "j < 4"
  then show "bc_acc s (f + of_nat d + of_nat j)"
    using file_okD(4) [OF assms(1), of "d + j"] assms(2) by (simp add: add.assoc)
qed

lemma get_block_ok:
  assumes s: "bc_ok s" "file_ok s f k" "bn < k"
  obtains t where "file_get_block f (of_nat bn) s = Inr ((0, blk_addr (slot (view s) f bn) 0), t)" "bc.same s t"
proof -
  let ?w = "word_at (view s) (f + of_nat (136 + 4 * bn))"
  have bn: "bn < 10" using s(3) file_okD(1) [OF s(2)] by simp
  have a: "f_direct f (of_nat bn) = f + of_nat (136 + 4 * bn)" by (simp add: algebra_simps)
  have r: "bc.readable s (f + of_nat (136 + 4 * bn)) 4" using s(2) bn by (intro field_readable) auto
  obtain t where t: "load32 (f + of_nat (136 + 4 * bn)) s = Inr (?w, t)" "bc.same s t"
    using s(1) r by (rule bc.load_word_ok)
  obtain u where u: "load32 (f + of_nat (136 + 4 * bn)) t = Inr (word_at (view t) (f + of_nat (136 + 4 * bn)), u)" "bc.same t u"
    by (rule bc.load_word_ok [of t "f + of_nat (136 + 4 * bn)"]) (use bc.wrote_ok [OF t(2)] bc.wrote_ranges(1) [OF t(2)] r in auto)
  have su: "bc.same s u" "bc_ok u" "view t = view s" "view u = view s"
    using bc.wrote_trans [OF t(2) u(2)] t(2) u(2) by (simp_all add: bc.wrote_def)
  have w: "0 < unat ?w" "unat ?w < 786432" "bc_acc s (blk_addr (unat ?w) 0)"
    using file_okD(6-8) [OF s(2,3)] by (simp_all add: slot_eq)
  then have "unat ?w < nblocks (view u)"
    using blk_addr [OF w(2), of 0] su(4) by (simp add: bc_acc_def)
  then have "diskaddr ?w u = Inr (blk_addr (unat ?w) 0, u)"
    using diskaddr_ok [OF su(2) w(1)] by simp
  moreover have "file_block_walk f (of_nat bn) True s = Inr ((0, f + of_nat (136 + 4 * bn)), s)"
  proof -
    have "(of_nat bn :: u32) < NDIRECT" using bn by (simp add: word_less_nat_alt unat_of_nat)
    then show ?thesis using a by (simp add: file_block_walk_def del: f_direct_def NDIRECT_def)
  qed
  moreover have "?w \<noteq> 0" using w(1) by auto
  ultimately have "file_get_block f (of_nat bn) s = Inr ((0, blk_addr (slot (view s) f bn) 0), u)"
    using t(1) u(1) su(3) by (simp add: file_get_block_def slot_eq del: of_nat_add of_nat_mult)
  with su(1) show thesis by (intro that)
qed

section \<open>Positions\<close>

lemma sint_small: "unat (w :: u32) < 2147483648 \<Longrightarrow> sint w = int (unat w)"
  by (simp add: sint_u32)

lemma int_to_word: "(word_of_int (int n) :: u32) = of_nat n"
  by simp

lemma pos_block:
  fixes pos :: u32
  assumes "unat pos < 2147483648"
  shows "word_of_int (sint pos sdiv 4096) = (of_nat (unat pos div 4096) :: u32)"
    "word_of_int (sint pos smod 4096) = (of_nat (unat pos mod 4096) :: u32)"
proof -
  have "sint pos sdiv 4096 = int (unat pos div 4096)" "sint pos smod 4096 = int (unat pos mod 4096)"
    using sint_small [OF assms] by (cases "unat pos = 0"; simp add: signed_divide_int_def signed_modulo_int_def zdiv_int zmod_int del: of_nat_unat unat_eq_zero)+
  then show "word_of_int (sint pos sdiv 4096) = (of_nat (unat pos div 4096) :: u32)"
    "word_of_int (sint pos smod 4096) = (of_nat (unat pos mod 4096) :: u32)"
    by (simp_all only: int_to_word)
qed

lemma chunk_small:
  assumes "unat fin < 2147483648" "unat pos < unat fin"
  shows "unat (chunk pos fin) = min (4096 - unat pos mod 4096) (unat fin - unat pos)"
    "chunk pos fin = of_nat (min (4096 - unat pos mod 4096) (unat fin - unat pos))"
proof -
  have p: "unat pos < 2147483648" using assms by simp
  have "unat (of_nat (unat pos mod 4096) :: u32) = unat pos mod 4096" by (simp add: unat_of_nat)
  moreover have "unat pos mod 4096 < 4096" by simp
  ultimately have "unat (BLKSIZE - of_nat (unat pos mod 4096) :: u32) = 4096 - unat pos mod 4096"
    by (subst unat_sub) (simp_all add: word_le_nat_alt)
  moreover have "unat (fin - pos) = unat fin - unat pos"
    using assms(2) by (intro unat_sub) (simp add: word_le_nat_alt)
  ultimately show u: "unat (chunk pos fin) = min (4096 - unat pos mod 4096) (unat fin - unat pos)"
    by (simp add: chunk_def pos_block [OF p] min_def word_le_nat_alt del: BLKSIZE_def)
  show "chunk pos fin = of_nat (min (4096 - unat pos mod 4096) (unat fin - unat pos))"
    unfolding u [symmetric] by simp
qed

lemma in_int_step:
  fixes pos :: u32
  assumes "c \<le> 4096" "unat pos + c < 2147483648"
  shows "in_int (sint pos + sint (of_nat c :: u32))"
proof -
  have "unat (of_nat c :: u32) = c" using assms(1) by (simp add: unat_of_nat)
  then have "sint (of_nat c :: u32) = int c" "sint pos = int (unat pos)"
    using assms sint_small [of "of_nat c"] sint_small [of pos] by (simp_all del: of_nat_unat)
  then show ?thesis using assms(2) by (simp add: in_int_def del: of_nat_unat)
qed

lemma same_block: "x < 4096 - p mod 4096 \<Longrightarrow> (p + x) div 4096 = p div 4096 \<and> (p + x) mod 4096 = p mod 4096 + (x :: nat)"
proof -
  assume x: "x < 4096 - p mod 4096"
  have e: "p + x = 4096 * (p div 4096) + (p mod 4096 + x)" by simp
  have "p mod 4096 + x < 4096" using x by linarith
  moreover have "(4096 * q + r) div 4096 = q \<and> (4096 * q + r) mod 4096 = r" if "r < 4096" for q r :: nat
    using that by simp
  ultimately have "(4096 * (p div 4096) + (p mod 4096 + x)) div 4096 = p div 4096 \<and>
    (4096 * (p div 4096) + (p mod 4096 + x)) mod 4096 = p mod 4096 + x" by blast
  then show ?thesis unfolding e [symmetric] .
qed

lemma file_addr_same_block:
  "x < 4096 - p mod 4096 \<Longrightarrow> file_addr m f (p + x) = blk_addr (slot m f (p div 4096)) (p mod 4096 + x)"
  using same_block [of x p] by (simp add: file_addr_def)

section \<open>Reading\<close>

text \<open>The memory after \<open>n\<close> bytes of the file from position \<open>p\<close> on have been copied to \<open>buf\<close>.\<close>

definition read_into :: "u32 \<Rightarrow> u32 \<Rightarrow> nat \<Rightarrow> nat \<Rightarrow> (u32 \<Rightarrow> u8) \<Rightarrow> u32 \<Rightarrow> u8" where
  "read_into f buf p n m a =
    (if unat buf \<le> unat a \<and> unat a < unat buf + n then m (file_addr m f (p + (unat a - unat buf))) else m a)"

definition outside :: "u32 \<Rightarrow> nat \<Rightarrow> bool" where
  "outside buf n \<longleftrightarrow> unat buf + n < 4294967296 \<and> (\<forall>i<n. \<not> fs_addr (buf + of_nat i))"

lemma outside_range:
  assumes "outside buf n" "fs_addr a"
  shows "\<not> (unat buf \<le> unat a \<and> unat a < unat buf + n)"
proof
  assume "unat buf \<le> unat a \<and> unat a < unat buf + n"
  then have "a = buf + of_nat (unat a - unat buf)" "unat a - unat buf < n"
    using assms(1) unat_add_lt [of buf "unat a - unat buf"] by (auto simp: outside_def word_unat_eq_iff)
  with assms show False unfolding outside_def by metis
qed

lemma outside_part:
  assumes "outside buf n" "c \<le> n"
  shows "outside buf c" "outside (buf + of_nat c) (n - c)" "unat (buf + of_nat c) = unat buf + c"
proof -
  show u: "unat (buf + of_nat c) = unat buf + c"
    using assms by (intro unat_add_lt) (simp add: outside_def)
  show "outside buf c" using assms by (auto simp: outside_def)
  have "\<not> fs_addr (buf + of_nat c + of_nat i)" if "i < n - c" for i
  proof -
    have "c + i < n" using that by simp
    with assms(1) have "\<not> fs_addr (buf + of_nat (c + i))" unfolding outside_def by blast
    then show ?thesis by (simp add: add.assoc)
  qed
  with u assms show "outside (buf + of_nat c) (n - c)" by (simp add: outside_def)
qed

lemma data_addr:
  assumes "file_ok s f k" "p < 4096 * k"
  shows "fs_addr (file_addr (view s) f p)" "bc_acc s (file_addr (view s) f p)" "bc_plain s (file_addr (view s) f p)"
    "blk_of (file_addr (view s) f p) = slot (view s) f (p div 4096)"
proof -
  have bn: "p div 4096 < k" "p mod 4096 < 4096" using assms(2) by (auto simp: less_mult_imp_div_less mult.commute)
  note b = blk_addr [OF file_okD(7) [OF assms(1) bn(1)] bn(2)]
  show "blk_of (file_addr (view s) f p) = slot (view s) f (p div 4096)" using b by (simp add: file_addr_def)
  show "fs_addr (file_addr (view s) f p)"
    using b file_okD(6) [OF assms(1) bn(1)] by (simp add: fs_addr_def file_addr_def)
  show "bc_acc s (file_addr (view s) f p)" "bc_plain s (file_addr (view s) f p)"
    using file_okD(8,9) [OF assms(1) bn] by (simp_all add: file_addr_def)
qed

text \<open>A change outside the file leaves the file and its bytes as they are.\<close>

lemma file_kept:
  assumes "file_ok s f k" "bc_acc t = bc_acc s" "bc_plain t = bc_plain s" "\<And>a. fs_addr a \<Longrightarrow> view t a = view s a"
  shows "file_ok t f k" "p < 4096 * k \<Longrightarrow> file_addr (view t) f p = file_addr (view s) f p"
    "p < 4096 * k \<Longrightarrow> view t (file_addr (view s) f p) = view s (file_addr (view s) f p)"
proof -
  have a: "view t (f + of_nat i) = view s (f + of_nat i)" if "i < 256" for i
    using assms(4) file_okD(3) [OF assms(1) that] .
  show "file_ok t f k" by (rule file_ok_agree [OF assms(1-3) a])
  show "file_addr (view t) f p = file_addr (view s) f p" if "p < 4096 * k"
    using that file_okD(1) [OF assms(1)] a by (intro file_agree(3)) auto
  show "view t (file_addr (view s) f p) = view s (file_addr (view s) f p)" if "p < 4096 * k"
    using assms(4) data_addr(1) [OF assms(1) that] .
qed

lemma block_range:
  assumes "file_ok s f k" "p div 4096 < k" "c \<le> 4096 - p mod 4096"
  defines "b \<equiv> blk_addr (slot (view s) f (p div 4096)) (p mod 4096)"
  shows "bc.readable s b c" "bc.storable s b c" "unat b + c < 4294967296" "i < c \<Longrightarrow> b + of_nat i = file_addr (view s) f (p + i)"
proof -
  show e: "b + of_nat i = file_addr (view s) f (p + i)" if "i < c" for i
    using that assms(3) file_addr_same_block [of i p] by (simp add: b_def blk_addr_add)
  have j: "p mod 4096 + i < 4096" if "i < c" for i using that assms(3) by linarith
  have "bc_acc s (b + of_nat i)" "bc_plain s (b + of_nat i)" if "i < c" for i
    using file_okD(8,9) [OF assms(1,2) j [OF that]] by (simp_all add: b_def blk_addr_add)
  then show "bc.readable s b c" "bc.storable s b c"
    by (simp_all add: bc.readable_def bc.storable_def)
  have w: "slot (view s) f (p div 4096) < 786432" by (rule file_okD(7) [OF assms(1,2)])
  moreover have "p mod 4096 < 4096" by simp
  ultimately have "unat b = 268435456 + 4096 * slot (view s) f (p div 4096) + p mod 4096"
    unfolding b_def by (rule blk_addr(1))
  then show "unat b + c < 4294967296" using w assms(3) by linarith
qed

lemma read_chunk:
  assumes s: "bc_ok s" "file_ok s f k" "p div 4096 < k" "c \<le> 4096 - p mod 4096" and b: "bc.storable s buf c" "unat buf + c < 4294967296"
  obtains t where "memmove load8 store8 buf (blk_addr (slot (view s) f (p div 4096)) (p mod 4096)) (of_nat c) s = Inr (buf, t)"
    "bc.wrote (read_into f buf p c) s t"
proof -
  let ?src = "blk_addr (slot (view s) f (p div 4096)) (p mod 4096)"
  note R = block_range [OF s(2-4)]
  have c: "unat (of_nat c :: u32) = c" using s(4) by (simp add: unat_of_nat)
  obtain t where t: "memmove load8 store8 buf ?src (of_nat c) s = Inr (buf, t)" "bc.wrote (moved c buf ?src) s t"
    using bc.memmove_ok [OF s(1), of ?src "of_nat c" buf] R(1,3) b c by auto
  have "moved c buf ?src (view s) = read_into f buf p c (view s)"
  proof
    fix a
    show "moved c buf ?src (view s) a = read_into f buf p c (view s) a"
    proof (cases "unat buf \<le> unat a \<and> unat a < unat buf + c")
      case True
      then have "a - buf = of_nat (unat a - unat buf)" "unat a - unat buf < c"
        using b(2) unat_add_lt [of buf "unat a - unat buf"] by (auto simp: word_unat_eq_iff unat_sub_if_size unat_of_nat)
      then have "?src + (a - buf) = file_addr (view s) f (p + (unat a - unat buf))" using R(4) by metis
      with True show ?thesis by (simp only: moved_def read_into_def if_True)
    next
      case False
      then show ?thesis by (auto simp: moved_def read_into_def)
    qed
  qed
  with t show thesis by (intro that) (simp_all add: bc.wrote_def)
qed

text \<open>Copying the parts before and after a position one after the other.\<close>

lemma read_into_add:
  assumes "outside buf n" "c \<le> n" "\<And>q. p \<le> q \<Longrightarrow> q < p + n \<Longrightarrow> fs_addr (file_addr m f q)"
    "\<And>q. p \<le> q \<Longrightarrow> q < p + n \<Longrightarrow> file_addr (read_into f buf p c m) f q = file_addr m f q"
  shows "read_into f (buf + of_nat c) (p + c) (n - c) (read_into f buf p c m) = read_into f buf p n m"
proof
  fix a
  let ?m = "read_into f buf p c m"
  have u: "unat (buf + of_nat c) = unat buf + c" by (rule outside_part(3) [OF assms(1,2)])
  have keep: "?m (file_addr m f q) = m (file_addr m f q)" if "p \<le> q" "q < p + n" for q
    using outside_range [OF outside_part(1) [OF assms(1,2)] assms(3) [OF that]] by (auto simp: read_into_def)
  show "read_into f (buf + of_nat c) (p + c) (n - c) ?m a = read_into f buf p n m a"
  proof (cases "unat buf + c \<le> unat a \<and> unat a < unat buf + n")
    case True
    then have q: "p \<le> p + (unat a - unat buf)" "p + (unat a - unat buf) < p + n"
      "p + c + (unat a - (unat buf + c)) = p + (unat a - unat buf)" by auto
    with True u assms(2) keep [OF q(1,2)] assms(4) [OF q(1,2)] show ?thesis by (simp add: read_into_def [of f "buf + of_nat c"]) (simp add: read_into_def)
  next
    case False
    with u assms(2) show ?thesis by (auto simp: read_into_def)
  qed
qed

text \<open>The arithmetic of one turn of the loops: \<open>c\<close> bytes of block \<open>pos / BLKSIZE\<close> are copied.\<close>

lemma turn:
  assumes "pos < fin" "unat fin \<le> 4096 * k" "k \<le> 10"
  obtains c where "0 < c" "c \<le> unat fin - unat pos" "c \<le> 4096 - unat pos mod 4096" "chunk pos fin = of_nat c"
    "unat (pos + of_nat c) = unat pos + c" "in_int (sint pos + sint (of_nat c :: u32))" "unat pos div 4096 < k"
    "unat pos < 2147483648"
proof -
  define c where "c = min (4096 - unat pos mod 4096) (unat fin - unat pos)"
  have lt: "unat pos < unat fin" "unat fin < 2147483648" "unat pos < 2147483648"
    using assms by (auto simp: word_less_nat_alt)
  have bn: "unat pos div 4096 < k" using lt(1) assms(2) by (simp add: less_mult_imp_div_less mult.commute)
  have c: "0 < c" "c \<le> unat fin - unat pos" "c \<le> 4096 - unat pos mod 4096" "chunk pos fin = of_nat c"
    using lt(1) chunk_small [OF lt(2,1)] by (simp_all add: c_def)
  have "unat (pos + of_nat c) = unat pos + c" using lt c(2) by (intro unat_add_lt) simp
  moreover have "in_int (sint pos + sint (of_nat c :: u32))" using lt c(2,3) by (intro in_int_step) auto
  ultimately show thesis using c bn lt(3) that by blast
qed

lemma read_turn:
  assumes s: "bc_ok s" "file_ok s f k" "p div 4096 < k" "c \<le> 4096 - p mod 4096" and b: "bc.storable s buf n" "outside buf n" "c \<le> n"
  obtains t u where "file_get_block f (of_nat (p div 4096)) s = Inr ((0, blk_addr (slot (view s) f (p div 4096)) 0), t)"
    "memmove load8 store8 buf (blk_addr (slot (view s) f (p div 4096)) (p mod 4096)) (of_nat c) t = Inr (buf, u)"
    "bc.wrote (read_into f buf p c) s u" "file_ok u f k" "\<forall>q<4096 * k. file_addr (view u) f q = file_addr (view s) f q"
    "bc.storable u (buf + of_nat c) (n - c)"
proof -
  obtain t where t: "file_get_block f (of_nat (p div 4096)) s = Inr ((0, blk_addr (slot (view s) f (p div 4096)) 0), t)" "bc.same s t"
    using s(1-3) by (rule get_block_ok)
  have e: "view t = view s" "bc_ok t" "bc_acc t = bc_acc s" "bc_plain t = bc_plain s" using t(2) by (simp_all add: bc.wrote_def)
  have ft: "file_ok t f k" using file_ok_agree [OF s(2) e(3,4)] e(1) by simp
  have st: "bc.storable s buf c" "bc.storable s (buf + of_nat c) (n - c)"
    using bc.storable_add [of s buf c "n - c"] b(1,3) by simp_all
  have "unat buf + c < 4294967296" using b(2,3) by (simp add: outside_def)
  then obtain u where u: "memmove load8 store8 buf (blk_addr (slot (view s) f (p div 4096)) (p mod 4096)) (of_nat c) t = Inr (buf, u)"
    "bc.wrote (read_into f buf p c) t u"
    using read_chunk [OF e(2) ft s(3,4)] st(1) e by (auto simp: bc.storable_def)
  have w: "bc.wrote (read_into f buf p c) s u" using u(2) e by (simp add: bc.wrote_def)
  have kept: "view u a = view s a" if "fs_addr a" for a
    using w outside_range [OF outside_part(1) [OF b(2,3)] that] by (auto simp: bc.wrote_def read_into_def)
  have "bc.storable u (buf + of_nat c) (n - c)" using st(2) bc.wrote_ranges(2) [OF w] by simp
  with t(1) u(1) w show thesis
    using that file_kept [OF s(2) bc.wrote_acc [OF w] kept] by blast
qed

lemma read_loop_ok:
  assumes "bc_ok s" "file_ok s f k" "unat pos \<le> unat fin" "unat fin \<le> 4096 * k"
    "bc.storable s buf (unat fin - unat pos)" "outside buf (unat fin - unat pos)"
  shows "\<exists>t. file_read_loop f buf pos fin s = Inr (0, t) \<and> bc.wrote (read_into f buf (unat pos) (unat fin - unat pos)) s t"
  using assms
proof (induction "unat fin - unat pos" arbitrary: s pos buf rule: less_induct)
  case less
  let ?p = "unat pos" and ?n = "unat fin - unat pos"
  show ?case
  proof (cases "pos < fin")
    case False
    then have "?n = 0" by (simp add: word_less_nat_alt)
    moreover have "read_into f buf ?p 0 m = m" for m by (auto simp: read_into_def fun_eq_iff)
    ultimately show ?thesis
      using False less.prems(1) by (simp add: file_read_loop.simps [of f buf pos fin s] bc.wrote_def)
  next
    case True
    obtain c where c: "0 < c" "c \<le> ?n" "c \<le> 4096 - ?p mod 4096" "chunk pos fin = of_nat c" "unat (pos + of_nat c) = ?p + c"
      "in_int (sint pos + sint (of_nat c :: u32))" "?p div 4096 < k" "?p < 2147483648"
      using True less.prems(4) file_okD(1) [OF less.prems(2)] by (rule turn)
    obtain s1 s2 where s2: "file_get_block f (of_nat (?p div 4096)) s = Inr ((0, blk_addr (slot (view s) f (?p div 4096)) 0), s1)"
      "memmove load8 store8 buf (blk_addr (slot (view s) f (?p div 4096)) (?p mod 4096)) (of_nat c) s1 = Inr (buf, s2)"
      "bc.wrote (read_into f buf ?p c) s s2" "file_ok s2 f k" "\<forall>q<4096 * k. file_addr (view s2) f q = file_addr (view s) f q"
      "bc.storable s2 (buf + of_nat c) (?n - c)"
      using less.prems(1,2) c(7,3) less.prems(5,6) c(2) by (rule read_turn)
    have ar: "unat fin - (?p + c) < ?n" "?p + c \<le> unat fin" using c(1,2) True [unfolded word_less_nat_alt] by linarith+
    obtain t where t: "file_read_loop f (buf + of_nat c) (pos + of_nat c) fin s2 = Inr (0, t)"
      "bc.wrote (read_into f (buf + of_nat c) (?p + c) (?n - c)) s2 t"
      using less.hyps [of "pos + of_nat c" s2 "buf + of_nat c"] c(5) ar bc.wrote_ok [OF s2(3)] s2(4,6) less.prems(4)
        outside_part(2) [OF less.prems(6) c(2)] by auto
    have "read_into f (buf + of_nat c) (?p + c) (?n - c) (read_into f buf ?p c (view s)) = read_into f buf ?p ?n (view s)"
      using data_addr(1) [OF less.prems(2)] s2(3,5) less.prems(3,4)
      by (intro read_into_add [OF less.prems(6) c(2)]) (auto simp: bc.wrote_def)
    then have "bc.wrote (read_into f buf ?p ?n) s t" using t(2) s2(3) by (simp add: bc.wrote_def)
    with t(1) s2(1,2) True c(6) show ?thesis
      by (simp add: file_read_loop.simps [of f buf pos fin s] pos_block [OF c(8)] c(4) blk_addr_add Let_def)
  qed
qed

section \<open>Writing\<close>

text \<open>From \<open>m\<close> to \<open>m'\<close> exactly \<open>n\<close> bytes of the file from position \<open>p\<close> on have changed, to those in the buffer.\<close>

definition write_from :: "u32 \<Rightarrow> u32 \<Rightarrow> nat \<Rightarrow> nat \<Rightarrow> (u32 \<Rightarrow> u8) \<Rightarrow> (u32 \<Rightarrow> u8) \<Rightarrow> bool" where
  "write_from f buf p n m m' \<longleftrightarrow>
    (\<forall>i<n. m' (file_addr m f (p + i)) = m (buf + of_nat i)) \<and>
    (\<forall>a. a \<notin> (\<lambda>i. file_addr m f (p + i)) ` {..<n} \<longrightarrow> m' a = m a)"

lemma file_addr_inj:
  assumes "file_ok s f k" "p < 4096 * k" "q < 4096 * k" "file_addr (view s) f p = file_addr (view s) f q"
  shows "p = q"
proof -
  have bn: "p div 4096 < k" "q div 4096 < k" using assms(2,3) by (auto simp: less_mult_imp_div_less mult.commute)
  have "slot (view s) f (p div 4096) = slot (view s) f (q div 4096)"
    using data_addr(4) [OF assms(1,2)] data_addr(4) [OF assms(1,3)] assms(4) by simp
  then have "p div 4096 = q div 4096"
    using file_okD(11) [OF assms(1)] bn by (auto dest: inj_onD)
  moreover have "p mod 4096 = q mod 4096"
    using blk_addr(4) [OF file_okD(7) [OF assms(1) bn(1)], of "p mod 4096"]
      blk_addr(4) [OF file_okD(7) [OF assms(1) bn(2)], of "q mod 4096"] assms(4) by (simp add: file_addr_def)
  ultimately show ?thesis by (metis div_mult_mod_eq)
qed

lemma write_from_keeps:
  assumes "file_ok s f k" "write_from f buf p n (view s) m" "p + n \<le> 4096 * k"
  shows "i < 256 \<Longrightarrow> m (f + of_nat i) = view s (f + of_nat i)" "\<not> fs_addr a \<Longrightarrow> m a = view s a"
proof -
  show "m (f + of_nat i) = view s (f + of_nat i)" if i: "i < 256"
  proof -
    have "f + of_nat i \<noteq> file_addr (view s) f (p + j)" if "j < n" for j
    proof -
      have q: "p + j < 4096 * k" using that assms(3) by simp
      then have "(p + j) div 4096 < k" by (simp add: less_mult_imp_div_less mult.commute)
      from file_okD(10) [OF assms(1) this i] data_addr(4) [OF assms(1) q] show ?thesis by metis
    qed
    with assms(2) show ?thesis unfolding write_from_def by blast
  qed
  show "m a = view s a" if "\<not> fs_addr a"
  proof -
    have "a \<noteq> file_addr (view s) f (p + j)" if "j < n" for j
      using data_addr(1) [OF assms(1), of "p + j"] that assms(3) \<open>\<not> fs_addr a\<close> by auto
    with assms(2) show ?thesis unfolding write_from_def by blast
  qed
qed

lemma write_from_add:
  assumes f: "file_ok s f k" "p + n \<le> 4096 * k" "c \<le> n" and o: "outside buf n"
    and m: "write_from f buf p c (view s) m" "write_from f (buf + of_nat c) (p + c) (n - c) m m'"
  shows "write_from f buf p n (view s) m'"
proof -
  have pc: "p + c \<le> 4096 * k" using f by simp
  note K = write_from_keeps [OF f(1) m(1) pc]
  have fa: "file_addr m f q = file_addr (view s) f q" if "q < 4096 * k" for q
    using file_agree(3) [of m f "view s" q] K(1) that file_okD(1) [OF f(1)] by simp
  have low: "m (file_addr (view s) f (p + i)) = view s (buf + of_nat i)" if "i < c" for i
    using m(1) that unfolding write_from_def by blast
  have high: "m' (file_addr (view s) f (p + i)) = view s (buf + of_nat i)" if "c \<le> i" "i < n" for i
  proof -
    obtain j where j: "i = c + j" "j < n - c" using \<open>c \<le> i\<close> \<open>i < n\<close> by (metis add_diff_inverse_nat diff_less_mono not_le)
    have "m' (file_addr m f (p + c + j)) = m (buf + of_nat c + of_nat j)" using m(2) j(2) unfolding write_from_def by blast
    moreover have "m (buf + of_nat i) = view s (buf + of_nat i)" using o \<open>i < n\<close> by (intro K(2)) (simp add: outside_def)
    ultimately show ?thesis using fa [of "p + i"] f(2) \<open>i < n\<close> j(1) by (simp add: add.assoc)
  qed
  have rest: "m' a = m a" if "\<And>j. j < n - c \<Longrightarrow> a \<noteq> file_addr (view s) f (p + (c + j))" for a
  proof -
    have "a \<notin> (\<lambda>j. file_addr m f (p + c + j)) ` {..<n - c}"
      using that fa f(2) by (auto simp: add.assoc)
    then show ?thesis using m(2) unfolding write_from_def by blast
  qed
  have "m' (file_addr (view s) f (p + i)) = view s (buf + of_nat i)" if "i < n" for i
  proof (cases "i < c")
    case True
    have "file_addr (view s) f (p + i) \<noteq> file_addr (view s) f (p + (c + j))" if "j < n - c" for j
    proof -
      have "p + i < 4096 * k" "p + (c + j) < 4096 * k" "p + i \<noteq> p + (c + j)"
        using True that f(2) by linarith+
      then show ?thesis using file_addr_inj [OF f(1)] by blast
    qed
    with rest low [OF True] show ?thesis by metis
  qed (use high that in auto)
  moreover have "m' a = view s a" if "a \<notin> (\<lambda>i. file_addr (view s) f (p + i)) ` {..<n}" for a
  proof -
    have ne: "a \<noteq> file_addr (view s) f (p + i)" if "i < n" for i using \<open>a \<notin> _\<close> that by auto
    then have "m' a = m a" by (intro rest) auto
    moreover have "a \<notin> (\<lambda>i. file_addr (view s) f (p + i)) ` {..<c}"
      unfolding image_iff using ne f(3) by (meson lessThan_iff order_less_le_trans)
    ultimately show ?thesis using m(1) unfolding write_from_def by metis
  qed
  ultimately show ?thesis by (simp add: write_from_def)
qed

lemma write_chunk:
  assumes s: "bc_ok s" "file_ok s f k" "p div 4096 < k" "c \<le> 4096 - p mod 4096" and b: "bc.readable s buf c" "unat buf + c < 4294967296"
  obtains t where "memmove load8 store8 (blk_addr (slot (view s) f (p div 4096)) (p mod 4096)) buf (of_nat c) s = Inr (blk_addr (slot (view s) f (p div 4096)) (p mod 4096), t)"
    "bc_ok t" "bc_acc t = bc_acc s" "bc_plain t = bc_plain s" "write_from f buf p c (view s) (view t)"
proof -
  let ?dst = "blk_addr (slot (view s) f (p div 4096)) (p mod 4096)"
  note R = block_range [OF s(2-4)]
  have c: "unat (of_nat c :: u32) = c" using s(4) by (simp add: unat_of_nat)
  obtain t where t: "memmove load8 store8 ?dst buf (of_nat c) s = Inr (?dst, t)" "bc.wrote (moved c ?dst buf) s t"
    using bc.memmove_ok [OF s(1), of buf "of_nat c" ?dst] R(2,3) b c by auto
  have u: "unat (?dst + of_nat i) = unat ?dst + i" if "i < c" for i
    using that R(3) by (intro unat_add_lt) simp
  have "moved c ?dst buf (view s) (?dst + of_nat i) = view s (buf + of_nat i)" if "i < c" for i
    using that u [OF that] by (simp add: moved_def)
  moreover have "moved c ?dst buf (view s) a = view s a" if "a \<notin> (\<lambda>i. file_addr (view s) f (p + i)) ` {..<c}" for a
  proof -
    have "\<not> (unat ?dst \<le> unat a \<and> unat a < unat ?dst + c)"
    proof
      assume "unat ?dst \<le> unat a \<and> unat a < unat ?dst + c"
      then have i: "unat a - unat ?dst < c" "a = ?dst + of_nat (unat a - unat ?dst)"
        using u [of "unat a - unat ?dst"] by (auto simp: word_unat_eq_iff)
      have "a \<in> (\<lambda>i. file_addr (view s) f (p + i)) ` {..<c}"
        using trans [OF i(2) R(4) [OF i(1)]] i(1) by (intro image_eqI [of _ _ "unat a - unat ?dst"]) auto
      with that show False by contradiction
    qed
    then show ?thesis by (auto simp: moved_def)
  qed
  ultimately have "write_from f buf p c (view s) (moved c ?dst buf (view s))"
    unfolding write_from_def by (simp add: R(4) [symmetric])
  with t show thesis by (intro that [of t]) (simp_all add: bc.wrote_def)
qed

lemma write_turn:
  assumes s: "bc_ok s" "file_ok s f k" "p div 4096 < k" "c \<le> 4096 - p mod 4096" "p + n \<le> 4096 * k" and b: "bc.readable s buf n" "outside buf n" "c \<le> n"
  obtains t u where "file_get_block f (of_nat (p div 4096)) s = Inr ((0, blk_addr (slot (view s) f (p div 4096)) 0), t)"
    "memmove load8 store8 (blk_addr (slot (view s) f (p div 4096)) (p mod 4096)) buf (of_nat c) t = Inr (blk_addr (slot (view s) f (p div 4096)) (p mod 4096), u)"
    "bc_ok u" "bc_acc u = bc_acc s" "bc_plain u = bc_plain s" "write_from f buf p c (view s) (view u)" "file_ok u f k" "bc.readable u (buf + of_nat c) (n - c)"
proof -
  obtain t where t: "file_get_block f (of_nat (p div 4096)) s = Inr ((0, blk_addr (slot (view s) f (p div 4096)) 0), t)" "bc.same s t"
    using s(1-3) by (rule get_block_ok)
  have e: "view t = view s" "bc_ok t" "bc_acc t = bc_acc s" "bc_plain t = bc_plain s" using t(2) by (simp_all add: bc.wrote_def)
  have ft: "file_ok t f k" using file_ok_agree [OF s(2) e(3,4)] e(1) by simp
  have r: "bc.readable t buf c" using b(1,3) e(3) by (auto simp: bc.readable_def)
  have l: "unat buf + c < 4294967296" using b(2,3) by (simp add: outside_def)
  obtain u where u: "memmove load8 store8 (blk_addr (slot (view s) f (p div 4096)) (p mod 4096)) buf (of_nat c) t = Inr (blk_addr (slot (view s) f (p div 4096)) (p mod 4096), u)"
    "bc_ok u" "bc_acc u = bc_acc s" "bc_plain u = bc_plain s" "write_from f buf p c (view s) (view u)"
    using write_chunk [OF e(2) ft s(3,4) r l] unfolding e by blast
  have "p + c \<le> 4096 * k" using s(5) b(3) by simp
  then have "file_ok u f k"
    using file_ok_agree [OF s(2) u(3,4)] write_from_keeps(1) [OF s(2) u(5)] by simp
  moreover have "bc.readable u (buf + of_nat c) (n - c)"
    unfolding bc.readable_def u(3)
  proof (intro allI impI)
    fix i
    assume "i < n - c"
    then have "c + i < n" by simp
    with b(1) have "bc_acc s (buf + of_nat (c + i))" unfolding bc.readable_def by blast
    then show "bc_acc s (buf + of_nat c + of_nat i)" by (simp add: add.assoc)
  qed
  ultimately show thesis using that t(1) u by blast
qed

lemma write_loop_ok:
  assumes "bc_ok s" "file_ok s f k" "unat pos \<le> unat fin" "unat fin \<le> 4096 * k"
    "bc.readable s buf (unat fin - unat pos)" "outside buf (unat fin - unat pos)"
  shows "\<exists>t. file_write_loop f buf pos fin s = Inr (0, t) \<and> bc_ok t \<and> bc_acc t = bc_acc s \<and> bc_plain t = bc_plain s \<and>
    write_from f buf (unat pos) (unat fin - unat pos) (view s) (view t)"
  using assms
proof (induction "unat fin - unat pos" arbitrary: s pos buf rule: less_induct)
  case less
  let ?p = "unat pos" and ?n = "unat fin - unat pos"
  show ?case
  proof (cases "pos < fin")
    case False
    then have "?n = 0" by (simp add: word_less_nat_alt)
    then show ?thesis
      using False less.prems(1) by (simp add: file_write_loop.simps [of f buf pos fin s] write_from_def)
  next
    case True
    obtain c where c: "0 < c" "c \<le> ?n" "c \<le> 4096 - ?p mod 4096" "chunk pos fin = of_nat c" "unat (pos + of_nat c) = ?p + c"
      "in_int (sint pos + sint (of_nat c :: u32))" "?p div 4096 < k" "?p < 2147483648"
      using True less.prems(4) file_okD(1) [OF less.prems(2)] by (rule turn)
    have pn: "?p + ?n \<le> 4096 * k" using less.prems(3,4) by simp
    obtain s1 s2 where s2: "file_get_block f (of_nat (?p div 4096)) s = Inr ((0, blk_addr (slot (view s) f (?p div 4096)) 0), s1)"
      "memmove load8 store8 (blk_addr (slot (view s) f (?p div 4096)) (?p mod 4096)) buf (of_nat c) s1 = Inr (blk_addr (slot (view s) f (?p div 4096)) (?p mod 4096), s2)"
      "bc_ok s2" "bc_acc s2 = bc_acc s" "bc_plain s2 = bc_plain s" "write_from f buf ?p c (view s) (view s2)" "file_ok s2 f k"
      "bc.readable s2 (buf + of_nat c) (?n - c)"
      using less.prems(1,2) c(7,3) pn less.prems(5,6) c(2) by (rule write_turn)
    have ar: "unat fin - (?p + c) < ?n" "?p + c \<le> unat fin" using c(1,2) True [unfolded word_less_nat_alt] by linarith+
    obtain t where t: "file_write_loop f (buf + of_nat c) (pos + of_nat c) fin s2 = Inr (0, t)"
      "bc_ok t" "bc_acc t = bc_acc s" "bc_plain t = bc_plain s" "write_from f (buf + of_nat c) (?p + c) (?n - c) (view s2) (view t)"
      using less.hyps [of "pos + of_nat c" s2 "buf + of_nat c"] c(5) ar s2(3-5,7,8) less.prems(4)
        outside_part(2) [OF less.prems(6) c(2)] by auto
    have "write_from f buf ?p ?n (view s) (view t)"
      by (rule write_from_add [OF less.prems(2) pn c(2) less.prems(6) s2(6) t(5)])
    with t(1-4) s2(1,2) True c(6) show ?thesis
      by (simp add: file_write_loop.simps [of f buf pos fin s] pos_block [OF c(8)] c(4) blk_addr_add Let_def)
  qed
qed

section \<open>Whole operations\<close>

lemma size_load:
  assumes "bc_ok s" "file_ok s f k"
  obtains t where "load32 (f_size f) s = Inr (of_nat (file_size (view s) f), t)" "bc.same s t" "file_ok t f k"
proof -
  have "bc.readable s (f_size f) 4" using field_readable [OF assms(2), of 128] by simp
  with assms(1) obtain t where t: "load32 (f_size f) s = Inr (word_at (view s) (f_size f), t)" "bc.same s t"
    by (rule bc.load_word_ok)
  moreover have "file_ok t f k" using file_ok_agree [OF assms(2), of t] t(2) by (simp add: bc.wrote_def)
  ultimately show thesis by (intro that) (simp_all add: file_size_def)
qed

lemma file_read_ok:
  assumes s: "bc_ok s" "file_ok s f k" and o: "unat offset < 2147483648"
    and n: "n = min (unat count) (file_size (view s) f - unat offset)" "unat offset + n \<le> 4096 * k \<or> n = 0"
    and b: "bc.storable s buf n" "outside buf n"
  shows "\<exists>t. file_read f buf count offset s = Inr (int n, t) \<and> bc.wrote (read_into f buf (unat offset) n) s t"
proof -
  let ?sz = "file_size (view s) f"
  obtain t where t: "load32 (f_size f) s = Inr (of_nat ?sz, t)" "bc.same s t" "file_ok t f k" using s by (rule size_load)
  have e: "view t = view s" "bc_ok t" using t(2) by (simp_all add: bc.wrote_def)
  have z: "?sz < 2147483648" by (rule file_okD(2) [OF s(2)])
  then have z': "unat (of_nat ?sz :: u32) = ?sz" by (simp add: unat_of_nat)
  have si: "sint (of_nat ?sz :: u32) = int ?sz" "sint offset = int (unat offset)"
    using sint_small [of "of_nat ?sz"] sint_small [OF o] z z' by (simp_all del: of_nat_unat)
  show ?thesis
  proof (cases "unat offset < ?sz")
    case False
    then have "n = 0" "read_into f buf (unat offset) 0 m = m" for m using n(1) by (auto simp: read_into_def fun_eq_iff)
    with False t si show ?thesis by (simp add: file_read_def bc.wrote_def del: f_size_def of_nat_unat)
  next
    case True
    obtain u where u: "load32 (f_size f) t = Inr (of_nat ?sz, u)" "bc.same t u" "file_ok u f k"
      by (rule size_load [OF e(2) t(3)]) (use e(1) in auto)
    have su: "bc.same s u" using bc.wrote_trans [OF t(2) u(2)] by simp
    define c where "c = min count (of_nat ?sz - offset)"
    have "unat (of_nat ?sz - offset) = ?sz - unat offset"
      using True z' by (subst unat_sub) (simp_all add: word_le_nat_alt)
    then have c: "unat c = n" using n(1) by (simp add: c_def min_def word_le_nat_alt)
    have nz: "unat offset + n \<le> ?sz" using n(1) True by simp
    have fin: "unat (offset + c) = unat offset + n"
      using unat_add_lt [of offset "unat c"] nz z unfolding c [symmetric] by simp
    have k: "unat offset + n \<le> 4096 * k \<or> \<not> offset < offset + c" using n(2) fin by (auto simp: word_less_nat_alt)
    have "\<exists>t. file_read_loop f buf offset (offset + c) u = Inr (0, t) \<and> bc.wrote (read_into f buf (unat offset) n) u t"
    proof (cases "n = 0")
      case True
      then have "\<not> offset < offset + c" "read_into f buf (unat offset) n m = m" for m
        using fin by (auto simp: word_less_nat_alt read_into_def fun_eq_iff)
      then show ?thesis using bc.wrote_ok [OF su] by (simp add: file_read_loop.simps [of f buf offset] bc.wrote_def)
    next
      case False
      then show ?thesis
        using read_loop_ok [OF bc.wrote_ok [OF su] u(3), of offset "offset + c" buf] fin n(2) b bc.wrote_ranges(2) [OF su] by simp
    qed
    moreover have "sint c = int n" using sint_small [of c] c nz z by (simp del: of_nat_unat)
    moreover have "in_int (sint (of_nat ?sz :: u32) - sint offset)" using si True z o by (simp add: in_int_def del: of_nat_unat)
    moreover have "\<not> sint (of_nat ?sz :: u32) \<le> sint offset" using si True by (simp del: of_nat_unat)
    ultimately show ?thesis
      using t(1) u(1) su c_def by (auto simp: file_read_def Let_def bc.wrote_def simp del: f_size_def of_nat_unat)
  qed
qed

lemma field_unat: "file_ok s f k \<Longrightarrow> i < 256 \<Longrightarrow> unat (f + of_nat i) = unat f + i"
proof (induction i)
  case (Suc i)
  have "fs_addr (f + of_nat i)" using file_okD(3) [OF Suc.prems(1)] Suc.prems(2) by simp
  then have "unat (f + of_nat i) < 3489660928" by (simp add: fs_addr_def unat_in_cache)
  with Suc have "unat f + i < 3489660928" by simp
  then show ?case using unat_add_lt [of f "Suc i"] by simp
qed simp

lemma slot_put_size:
  assumes "file_ok s f k" "bn < 10"
  shows "slot (put_word (f_size f) w m) f bn = slot m f bn"
proof -
  have "unat (f + 128) = unat f + 128" "unat (f + of_nat (136 + 4 * bn)) = unat f + (136 + 4 * bn)"
    using field_unat [OF assms(1), of 128] field_unat [OF assms(1), of "136 + 4 * bn"] assms(2) by simp_all
  moreover have "unat f + 255 < 4294967296"
    using field_unat [OF assms(1), of 255] unsigned_less [of "f + 255", where 'a = nat] by simp
  ultimately show ?thesis
    unfolding slot_eq using assms(2) by (subst words_apart) (simp_all del: of_nat_add of_nat_mult)
qed

lemma set_size_grow:
  assumes s: "bc_ok s" "file_ok s f k" and n: "file_size (view s) f \<le> unat new" "unat new < 2147483648"
  obtains t where "file_set_size f new s = Inr (0, t)" "bc_ok t" "bc_acc t = bc_acc s" "bc_plain t = bc_plain s"
    "view t = put_word (f_size f) new (view s)" "file_ok t f k"
proof -
  obtain t where t: "load32 (f_size f) s = Inr (of_nat (file_size (view s) f), t)" "bc.same s t" using s by (rule size_load)
  have "bc.storable s (f_size f) 4"
    unfolding bc.storable_def
  proof (intro allI impI)
    fix i :: nat
    assume "i < 4"
    then show "bc_acc s (f_size f + of_nat i) \<and> bc_plain s (f_size f + of_nat i)"
      using file_okD(4,5) [OF s(2), of "128 + i"] by (simp add: add.assoc)
  qed
  then have "bc.storable t (f_size f) 4" using bc.wrote_ranges(2) [OF t(2)] by simp
  then obtain u where u: "store32 (f_size f) new t = Inr ((), u)" "bc.wrote (put_word (f_size f) new) t u"
    using bc.store_word_ok [OF bc.wrote_ok [OF t(2)]] by blast
  let ?v = "flushed (blk_of f) u"
  have v: "bc_ok ?v" "bc_acc ?v = bc_acc s" "bc_plain ?v = bc_plain s" "view ?v = put_word (f_size f) new (view s)"
    using t(2) u(2) flushed_ok [of u] bc_domain [of ?v u] by (simp_all add: bc.wrote_def)
  have f: "in_cache f" using file_okD(3) [OF s(2), of 0] by (simp add: fs_addr_def)
  have "unat (of_nat (file_size (view s) f) :: u32) = file_size (view s) f" using n by (simp add: unat_of_nat)
  then have "\<not> sint new < sint (of_nat (file_size (view s) f) :: u32)"
    using n sint_small [of new] sint_small [of "of_nat (file_size (view s) f)"] by (simp del: of_nat_unat)
  then have "file_set_size f new s = Inr (0, ?v)"
    using t(1) u(1) flush_block_eq [OF f, of u] by (simp add: file_set_size_def del: f_size_def)
  moreover have "file_ok ?v f k"
  proof -
    have "slot (view ?v) f bn = slot (view s) f bn" if "bn < k" for bn
      unfolding v(4) using slot_put_size [OF s(2)] that file_okD(1) [OF s(2)] by simp
    moreover have "file_size (view ?v) f < 2147483648" unfolding v(4) file_size_def by (simp add: word_at_put n(2) del: f_size_def)
    moreover have "inj_on (slot (view ?v) f) {..<k}" using file_okD(11) [OF s(2)] calculation(1) by (simp add: inj_on_def)
    ultimately show ?thesis using s(2) v(2,3) unfolding file_ok_def by auto
  qed
  ultimately show thesis using v that by blast
qed

text \<open>The four bytes of the size.\<close>

definition size_field :: "u32 \<Rightarrow> u32 set" where
  "size_field f = {f_size f, f_size f + 1, f_size f + 2, f_size f + 3}"

lemma size_field_fs: "file_ok s f k \<Longrightarrow> a \<in> size_field f \<Longrightarrow> fs_addr a"
  using file_okD(3) [of s f k 128] file_okD(3) [of s f k 129] file_okD(3) [of s f k 130] file_okD(3) [of s f k 131]
  by (auto simp: size_field_def add.assoc)

text \<open>
  The first part of \<open>file_write\<close>: the file is extended if the range ends behind its size.
\<close>

lemma write_extend:
  assumes s: "bc_ok s" "file_ok s f k" "unat fin \<le> 4096 * k"
  obtains t u where "load32 (f_size f) s = Inr (of_nat (file_size (view s) f), t)"
    "(if fin > of_nat (file_size (view s) f) then file_set_size f fin t else Inr (0, t)) = Inr (0, u)"
    "bc_ok u" "bc_acc u = bc_acc s" "bc_plain u = bc_plain s" "file_ok u f k"
    "file_size (view u) f = max (file_size (view s) f) (unat fin)" "\<forall>a. a \<notin> size_field f \<longrightarrow> view u a = view s a"
    "\<forall>p<4096 * k. file_addr (view u) f p = file_addr (view s) f p"
proof -
  let ?sz = "file_size (view s) f"
  obtain t where t: "load32 (f_size f) s = Inr (of_nat ?sz, t)" "bc.same s t" "file_ok t f k" using s(1,2) by (rule size_load)
  have e: "view t = view s" "bc_ok t" "bc_acc t = bc_acc s" "bc_plain t = bc_plain s" using t(2) by (simp_all add: bc.wrote_def)
  have k: "k \<le> 10" by (rule file_okD(1) [OF s(2)])
  have z: "unat (of_nat ?sz :: u32) = ?sz" using file_okD(2) [OF s(2)] by (simp add: unat_of_nat)
  show thesis
  proof (cases "fin > of_nat ?sz")
    case False
    then have "max ?sz (unat fin) = ?sz" using z by (simp add: word_less_nat_alt)
    with False e t show thesis by (intro that [of t t]) auto
  next
    case True
    have le: "file_size (view t) f \<le> unat fin" "unat fin < 2147483648" using True z e(1) s(3) k by (simp_all add: word_less_nat_alt)
    obtain u where u: "file_set_size f fin t = Inr (0, u)" "bc_ok u" "bc_acc u = bc_acc t" "bc_plain u = bc_plain t"
      "view u = put_word (f_size f) fin (view t)" "file_ok u f k"
      using e(2) t(3) le by (rule set_size_grow)
    have "file_size (view u) f = max ?sz (unat fin)"
      unfolding u(5) file_size_def word_at_put using le(1) e(1) by (simp add: file_size_def)
    moreover have "\<forall>p<4096 * k. file_addr (view u) f p = file_addr (view s) f p"
      unfolding u(5) e(1) file_addr_def using slot_put_size [OF s(2)] k by simp
    ultimately show thesis
      using that [OF t(1), of u] True u e by (simp add: size_field_def put_word_outside)
  qed
qed

lemma file_write_ok:
  assumes s: "bc_ok s" "file_ok s f k" and n: "unat offset + unat count \<le> 4096 * k"
    and b: "bc.readable s buf (unat count)" "outside buf (unat count)"
  obtains t where "file_write f buf count offset s = Inr (int (unat count), t)" "bc_ok t" "bc_acc t = bc_acc s"
    "bc_plain t = bc_plain s" "file_ok t f k" "file_size (view t) f = max (file_size (view s) f) (unat offset + unat count)"
    "\<forall>p<4096 * k. file_addr (view t) f p = file_addr (view s) f p"
    "\<forall>i<unat count. view t (file_addr (view s) f (unat offset + i)) = view s (buf + of_nat i)"
    "\<forall>a. a \<notin> (\<lambda>i. file_addr (view s) f (unat offset + i)) ` {..<unat count} \<and> a \<notin> size_field f \<longrightarrow> view t a = view s a"
proof -
  have k: "k \<le> 10" by (rule file_okD(1) [OF s(2)])
  have fin: "unat (offset + count) = unat offset + unat count"
    using unat_add_lt [of offset "unat count"] n k by simp
  obtain t u where u: "load32 (f_size f) s = Inr (of_nat (file_size (view s) f), t)"
    "(if offset + count > of_nat (file_size (view s) f) then file_set_size f (offset + count) t else Inr (0, t)) = Inr (0, u)"
    "bc_ok u" "bc_acc u = bc_acc s" "bc_plain u = bc_plain s" "file_ok u f k"
    "file_size (view u) f = max (file_size (view s) f) (unat (offset + count))" "\<forall>a. a \<notin> size_field f \<longrightarrow> view u a = view s a"
    "\<forall>p<4096 * k. file_addr (view u) f p = file_addr (view s) f p"
    using s n unfolding fin [symmetric] by (rule write_extend)
  have r: "bc.readable u buf (unat count)" using b(1) u(4) by (simp add: bc.readable_def)
  obtain v where v: "file_write_loop f buf offset (offset + count) u = Inr (0, v)" "bc_ok v" "bc_acc v = bc_acc s" "bc_plain v = bc_plain s"
    "write_from f buf (unat offset) (unat count) (view u) (view v)"
    using write_loop_ok [OF u(3,6), of offset "offset + count" buf] fin n r b(2) u(4,5) by auto
  note K = write_from_keeps [OF u(6) v(5) n]
  have fv: "file_ok v f k" "file_size (view v) f = file_size (view u) f" "\<forall>p<4096 * k. file_addr (view v) f p = file_addr (view s) f p"
  proof -
    show "file_ok v f k" using file_ok_agree [OF u(6), of v] v(3,4) u(4,5) K(1) by simp
    show "file_size (view v) f = file_size (view u) f" using file_agree(2) [of "view v" f "view u"] K(1) by simp
    show "\<forall>p<4096 * k. file_addr (view v) f p = file_addr (view s) f p"
      using file_agree(3) [of "view v" f "view u"] K(1) u(9) k by simp
  qed
  have "view u (buf + of_nat i) = view s (buf + of_nat i)" if "i < unat count" for i
    using u(8) size_field_fs [OF s(2)] b(2) that unfolding outside_def by blast
  then have w: "\<forall>i<unat count. view v (file_addr (view s) f (unat offset + i)) = view s (buf + of_nat i)"
    using v(5) u(9) n unfolding write_from_def by simp
  have "(\<lambda>i. file_addr (view u) f (unat offset + i)) ` {..<unat count} = (\<lambda>i. file_addr (view s) f (unat offset + i)) ` {..<unat count}"
    using u(9) n by (intro image_cong) auto
  then have "\<forall>a. a \<notin> (\<lambda>i. file_addr (view s) f (unat offset + i)) ` {..<unat count} \<and> a \<notin> size_field f \<longrightarrow> view v a = view s a"
    using v(5) u(8) unfolding write_from_def by metis
  moreover have "sint count = int (unat count)" using n k by (intro sint_small) simp
  then have "file_write f buf count offset s = Inr (int (unat count), v)"
    using u(1,2) v(1) by (simp add: file_write_def del: f_size_def of_nat_unat)
  ultimately show thesis using that v(2-4) fv w u(7) fin by simp
qed

section \<open>A file on the small disk\<close>

abbreviation small_file :: u32 where
  "small_file \<equiv> 0x10003000"

lemma small_file_ok: "file_ok small_disk small_file 1"
proof -
  have b: "small_file + of_nat i = blk_addr 3 i" for i by (simp add: blk_addr_def)
  have m: "bc_acc small_disk (blk_addr b j) \<and> bc_plain small_disk (blk_addr b j) \<and> in_cache (blk_addr b j) \<and> blk_of (blk_addr b j) = b"
    if "3 \<le> b" "b < 6" "j < 4096" for b j
    using that blk_addr [of b j] small_free [of b] by (simp add: bc_acc_def bc_plain_def meta_addr_def reserved_def)
  have w: "slot small_view small_file 0 = 4" "file_size small_view small_file = 8"
    by (simp_all add: slot_def file_size_def word_at_def get4_def word_of4_def small_view_def)
  show ?thesis
    unfolding file_ok_def small_disk_view b using m [of 3] m [of 4] w by (simp add: fs_addr_def inj_on_def)
qed

lemma small_buffer: "n \<le> 4096 \<Longrightarrow> bc.storable small_disk 0x1000 n" "n \<le> 4096 \<Longrightarrow> bc.readable small_disk 0x1000 n" "n \<le> 4096 \<Longrightarrow> outside 0x1000 n"
proof -
  have i: "\<not> in_cache (0x1000 + of_nat j)" if "j < 4096" for j
  proof -
    have "unat (0x1000 + of_nat j :: u32) = 0x1000 + j" using that by (simp add: unat_word_ariths unat_of_nat)
    with that show ?thesis by (simp add: unat_in_cache)
  qed
  show "n \<le> 4096 \<Longrightarrow> bc.storable small_disk 0x1000 n" "n \<le> 4096 \<Longrightarrow> bc.readable small_disk 0x1000 n" "n \<le> 4096 \<Longrightarrow> outside 0x1000 n"
    using i by (auto simp: bc.storable_def bc.readable_def outside_def fs_addr_def bc_acc_def bc_plain_def meta_addr_def)
qed

section \<open>Properties of files\<close>

text \<open>C34. \<open>file_read\<close> delivers the bytes of the file. For a file whose blocks up to the end of the range are present, and a buffer
  that does not lie in the blocks of the file system, it returns the smaller one of the requested count and what the file has
  from the offset on; exactly that many bytes of the buffer have changed, and byte \<open>i\<close> of it is byte \<open>offset + i\<close> of the
  file, across block boundaries. The state of the cache stays well-formed.
\<close>

theorem file_read_correct:
  assumes "bc_ok s" "file_ok s f k" "unat offset < 2147483648"
    and "n = min (unat count) (file_size (view s) f - unat offset)" "unat offset + n \<le> 4096 * k \<or> n = 0"
    and "bc.storable s buf n" "outside buf n"
  shows "\<exists>s'. file_read f buf count offset s = Inr (int n, s') \<and> bc_ok s' \<and>
    (\<forall>i<n. view s' (buf + of_nat i) = view s (file_addr (view s) f (unat offset + i))) \<and>
    (\<forall>a. a \<notin> (\<lambda>i. buf + of_nat i) ` {..<n} \<longrightarrow> view s' a = view s a)"
proof -
  obtain t where t: "file_read f buf count offset s = Inr (int n, t)" "bc.wrote (read_into f buf (unat offset) n) s t"
    using file_read_ok [OF assms] by blast
  have u: "unat (buf + of_nat i) = unat buf + i" if "i < n" for i
    using outside_part(3) [OF assms(7), of i] that by simp
  have "read_into f buf (unat offset) n m a = m a" if "a \<notin> (\<lambda>i. buf + of_nat i) ` {..<n}" for m a
  proof -
    have "\<not> (unat buf \<le> unat a \<and> unat a < unat buf + n)"
    proof
      assume "unat buf \<le> unat a \<and> unat a < unat buf + n"
      then have "unat a - unat buf < n" "a = buf + of_nat (unat a - unat buf)"
        using u [of "unat a - unat buf"] by (auto simp: word_unat_eq_iff)
      then have "a \<in> (\<lambda>i. buf + of_nat i) ` {..<n}" by (intro image_eqI [of _ _ "unat a - unat buf"]) auto
      with that show False by contradiction
    qed
    then show ?thesis by (auto simp: read_into_def)
  qed
  moreover have "read_into f buf (unat offset) n (view s) (buf + of_nat i) = view s (file_addr (view s) f (unat offset + i))" if "i < n" for i
    using u [OF that] that by (simp add: read_into_def)
  ultimately show ?thesis using t by (auto simp: bc.wrote_def)
qed

theorem file_read_correct_witness:
  "\<exists>s'. file_read small_file 0x1000 100 2 small_disk = Inr (6, s') \<and> bc_ok s' \<and>
    (\<forall>i<6. view s' (0x1000 + of_nat i) = small_view (file_addr small_view small_file (2 + i)))"
proof -
  have z: "file_size small_view small_file = 8"
    by (simp add: file_size_def word_at_def get4_def word_of4_def small_view_def)
  show ?thesis
    using file_read_correct [OF small_disk_ok small_file_ok, of 2 6 100 "0x1000"] z small_buffer [of 6] by auto
qed

text \<open>C33. What is written is read back. For a file whose blocks up to the end of the range are present, and two buffers outside
  the blocks of the file system, \<open>file_write\<close> of a range returns its length, and a following \<open>file_read\<close> of the same range
  returns its length and delivers the bytes that were written. The write changes no other byte than those of the range
  and the size of the file, which becomes the end of the range if that was larger.
\<close>

theorem file_write_read:
  assumes "bc_ok s" "file_ok s f k" "unat offset + unat count \<le> 4096 * k"
    and "bc.readable s buf (unat count)" "outside buf (unat count)" "bc.storable s buf' (unat count)" "outside buf' (unat count)"
  shows "\<exists>s' s''. file_write f buf count offset s = Inr (int (unat count), s') \<and> bc_ok s' \<and>
    file_size (view s') f = max (file_size (view s) f) (unat offset + unat count) \<and>
    (\<forall>a. a \<notin> (\<lambda>i. file_addr (view s) f (unat offset + i)) ` {..<unat count} \<and> a \<notin> size_field f \<longrightarrow> view s' a = view s a) \<and>
    file_read f buf' count offset s' = Inr (int (unat count), s'') \<and> bc_ok s'' \<and>
    (\<forall>i<unat count. view s'' (buf' + of_nat i) = view s (buf + of_nat i))"
proof -
  obtain t where t: "file_write f buf count offset s = Inr (int (unat count), t)" "bc_ok t" "bc_acc t = bc_acc s"
    "bc_plain t = bc_plain s" "file_ok t f k" "file_size (view t) f = max (file_size (view s) f) (unat offset + unat count)"
    "\<forall>p<4096 * k. file_addr (view t) f p = file_addr (view s) f p"
    "\<forall>i<unat count. view t (file_addr (view s) f (unat offset + i)) = view s (buf + of_nat i)"
    "\<forall>a. a \<notin> (\<lambda>i. file_addr (view s) f (unat offset + i)) ` {..<unat count} \<and> a \<notin> size_field f \<longrightarrow> view t a = view s a"
    using assms(1-5) by (rule file_write_ok)
  have o: "unat offset < 2147483648" using assms(3) file_okD(1) [OF assms(2)] by simp
  have n: "unat count = min (unat count) (file_size (view t) f - unat offset)" using t(6) by simp
  have st: "bc.storable t buf' (unat count)" using assms(6) t(3,4) by (simp add: bc.storable_def)
  obtain u where u: "file_read f buf' count offset t = Inr (int (unat count), u)"
    "bc.wrote (read_into f buf' (unat offset) (unat count)) t u"
    using file_read_ok [OF t(2,5) o n _ st assms(7)] assms(3) by auto
  have "view u (buf' + of_nat i) = view s (buf + of_nat i)" if "i < unat count" for i
  proof -
    have "unat (buf' + of_nat i) = unat buf' + i" using outside_part(3) [OF assms(7), of i] that by simp
    then have "view u (buf' + of_nat i) = view t (file_addr (view t) f (unat offset + i))"
      using u(2) that by (simp add: bc.wrote_def read_into_def)
    then show ?thesis using t(7,8) that assms(3) by simp
  qed
  with t(1,2,6,9) u bc.wrote_ok [OF u(2)] show ?thesis by blast
qed

theorem file_write_read_witness:
  "\<exists>s' s''. file_write small_file 0x1000 4 6 small_disk = Inr (4, s') \<and> file_size (view s') small_file = 10 \<and>
    file_read small_file 0x1000 4 6 s' = Inr (4, s'') \<and> (\<forall>i<4. view s'' (0x1000 + of_nat i) = small_view (0x1000 + of_nat i))"
proof -
  have z: "file_size small_view small_file = 8"
    by (simp add: file_size_def word_at_def get4_def word_of4_def small_view_def)
  show ?thesis
    using file_write_read [OF small_disk_ok small_file_ok, of 6 4 "0x1000" "0x1000"] z small_buffer [of 4]
    by auto
qed



end
