(* ===== verification/Serv.thy ===== *)
theory Serv
  imports FsFiles
begin

text \<open>
  The file server (fs/serv.c): the table of open files and the handlers of the requests. A request arrives
  in a page at \<open>fsreq\<close>, directly below the block cache; the pages of the \<open>struct Fd\<close> of the open files are directly
  above it. The state adds to that of the cache the table and, for every address of an Fd page, the number
  of references to the page (\<open>pageref\<close>): other environments change it by mapping and unmapping the page.
\<close>

unbundle bit_operations_syntax

record OpenFile =
  o_fileid :: u32
  o_file :: u32
  o_mode :: u32
  o_fd :: u32

record fserv = bcache +
  opentab :: "OpenFile list"
  pagerefs :: "u32 \<Rightarrow> nat"

definition MAXOPEN :: nat where [simp]: "MAXOPEN = 1024"
definition FILEVA :: u32 where [simp]: "FILEVA = 0xD0000000"
definition fsreq :: u32 where [simp]: "fsreq = 0x0FFFF000"
definition MAXPATHLEN :: nat where [simp]: "MAXPATHLEN = 1024"

definition O_ACCMODE :: u32 where [simp]: "O_ACCMODE = 3"
definition O_CREAT :: u32 where [simp]: "O_CREAT = 0x100"
definition O_TRUNC :: u32 where [simp]: "O_TRUNC = 0x200"
definition O_EXCL :: u32 where [simp]: "O_EXCL = 0x400"

text \<open>Fields of a \<open>struct Fd\<close>.\<close>

definition fd_dev_id :: "u32 \<Rightarrow> u32" where [simp]: "fd_dev_id fd = fd"
definition fd_offset :: "u32 \<Rightarrow> u32" where [simp]: "fd_offset fd = fd + 4"
definition fd_omode :: "u32 \<Rightarrow> u32" where [simp]: "fd_omode fd = fd + 8"
definition fd_file_id :: "u32 \<Rightarrow> u32" where [simp]: "fd_file_id fd = fd + 12"

section \<open>The table of open files\<close>

definition serve_init :: "('x) fserv_scheme \<Rightarrow> ('x) fserv_scheme" where
  "serve_init s = s\<lparr>opentab := map (\<lambda>i. (opentab s ! i)\<lparr>o_fileid := of_nat i, o_fd := FILEVA + of_nat i * 4096\<rparr>) [0..<MAXOPEN]\<rparr>"

text \<open>\<open>sys_page_alloc\<close> for an Fd page, with its error code.\<close>

definition fd_page_alloc :: "u32 \<Rightarrow> ('x) fserv_scheme \<Rightarrow> int \<times> ('x) fserv_scheme" where
  "fd_page_alloc va s =
    (if avail s = 0 then (- E_NO_MEM, s)
     else (0, s\<lparr>avail := avail s - 1, pagerefs := (pagerefs s)(va := 1),
               mem := (\<lambda>a. if va \<le> a \<and> a - va < 4096 then 0 else mem s a)\<rparr>))"

fun openfile_alloc_loop :: "nat list \<Rightarrow> ('x) fserv_scheme \<Rightarrow> (('x) fserv_scheme, int \<times> nat) res" where
  "openfile_alloc_loop [] s = Inr ((- E_MAX_OPEN, 0), s)"
| "openfile_alloc_loop (i # is) s =
    (let fd = o_fd (opentab s ! i) in
     if pagerefs s fd \<le> 1 then
       let (r, s) = if pagerefs s fd = 0 then fd_page_alloc fd s else (0, s) in
       if r < 0 then Inr ((r, 0), s)
       else
         let id = o_fileid (opentab s ! i) + of_nat MAXOPEN;
             s = s\<lparr>opentab := (opentab s)[i := (opentab s ! i)\<lparr>o_fileid := id\<rparr>]\<rparr> in
         bindR (memset store8 fd 0 4096 s) (\<lambda>(_, s). Inr ((sint id, i), s))
     else openfile_alloc_loop is s)"

definition openfile_alloc :: "('x) fserv_scheme \<Rightarrow> (('x) fserv_scheme, int \<times> nat) res" where
  "openfile_alloc s = openfile_alloc_loop [0..<MAXOPEN] s"

definition openfile_lookup :: "u32 \<Rightarrow> ('x) fserv_scheme \<Rightarrow> int \<times> nat" where
  "openfile_lookup fileid s =
    (let i = unat fileid mod MAXOPEN; ob = opentab s ! i
     in if pagerefs s (o_fd ob) \<le> 1 \<or> o_fileid ob \<noteq> fileid then (- E_INVAL, 0) else (0, i))"

section \<open>Handlers\<close>

text \<open>The copy of a byte range to a local array.\<close>

fun read_bytes :: "'st loader \<Rightarrow> u32 \<Rightarrow> nat \<Rightarrow> 'st \<Rightarrow> ('st, u8 list) res" where
  "read_bytes rd p 0 st = Inr ([], st)"
| "read_bytes rd p (Suc n) st =
    bindR (rd p st) (\<lambda>(b, st). bindR (read_bytes rd (p + 1) n st) (\<lambda>(bs, st). Inr (b # bs, st)))"

definition open_or_create :: "u8 list \<Rightarrow> u32 \<Rightarrow> ('x) fserv_scheme \<Rightarrow> (('x) fserv_scheme, int \<times> u32) res" where
  "open_or_create path req s =
    bindR (load32 (req + 1024) s) (\<lambda>(omode, s).
      if omode AND O_CREAT \<noteq> 0 then
        bindR (file_create path s) (\<lambda>((r, f), s).
          if r < 0 then
            bindR (load32 (req + 1024) s) (\<lambda>(omode, s).
              if omode AND O_EXCL = 0 \<and> r = - E_FILE_EXISTS then file_open path s else Inr ((r, 0), s))
          else Inr ((r, f), s))
      else file_open path s)"

text \<open>\<open>serve_open\<close> returns the code, \<open>*pg_store\<close> and, if they are set, \<open>*perm_store\<close>.\<close>

definition serve_open :: "u32 \<Rightarrow> ('x) fserv_scheme \<Rightarrow> (('x) fserv_scheme, int \<times> (u32 \<times> u32) option) res" where
  "serve_open req s =
    bindR (read_bytes load8 req MAXPATHLEN s) (\<lambda>(bs, s).
    let path = takeWhile (\<lambda>b. b \<noteq> 0) (take (MAXPATHLEN - 1) bs) in
    bindR (openfile_alloc s) (\<lambda>((r, ob), s).
      if r < 0 then Inr ((r, None), s)
      else bindR (open_or_create path req s) (\<lambda>((r, f), s).
      if r < 0 then Inr ((r, None), s)
      else bindR (load32 (req + 1024) s) (\<lambda>(omode, s).
           bindR (if omode AND O_TRUNC \<noteq> 0 then file_set_size f 0 s else Inr (0, s)) (\<lambda>(r, s).
      if r < 0 then Inr ((r, None), s)
      else bindR (file_open path s) (\<lambda>((r, f), s).
      if r < 0 then Inr ((r, None), s)
      else
        let s = s\<lparr>opentab := (opentab s)[ob := (opentab s ! ob)\<lparr>o_file := f\<rparr>]\<rparr>;
            fd = o_fd (opentab s ! ob)
        in bindR (store32 (fd_file_id fd) (o_fileid (opentab s ! ob)) s) (\<lambda>(_, s).
           bindR (load32 (req + 1024) s) (\<lambda>(omode, s).
           bindR (store32 (fd_omode fd) (omode AND O_ACCMODE) s) (\<lambda>(_, s).
           bindR (store32 (fd_dev_id fd) 102 s) (\<lambda>(_, s).
           bindR (load32 (req + 1024) s) (\<lambda>(omode, s).
             Inr ((0, Some (fd, PTE_P OR PTE_U OR PTE_W OR PTE_SHARE)),
                  s\<lparr>opentab := (opentab s)[ob := (opentab s ! ob)\<lparr>o_mode := omode\<rparr>]\<rparr>))))))))))))"

definition serve_set_size :: "u32 \<Rightarrow> ('x) fserv_scheme \<Rightarrow> (('x) fserv_scheme, int) res" where
  "serve_set_size req s =
    bindR (load32 req s) (\<lambda>(fileid, s).
    let (r, i) = openfile_lookup fileid s in
    if r < 0 then Inr (r, s)
    else bindR (load32 (req + 4) s) (\<lambda>(sz, s). file_set_size (o_file (opentab s ! i)) sz s))"

definition serve_read :: "u32 \<Rightarrow> ('x) fserv_scheme \<Rightarrow> (('x) fserv_scheme, int) res" where
  "serve_read ipc s =
    bindR (load32 ipc s) (\<lambda>(fileid, s).
    let (r, i) = openfile_lookup fileid s in
    if r < 0 then Inr (r, s)
    else
      let file = o_file (opentab s ! i); fd = o_fd (opentab s ! i) in
      bindR (load32 (ipc + 4) s) (\<lambda>(req_n, s).
      bindR (load32 (fd_offset fd) s) (\<lambda>(offset, s).
      bindR (file_read file ipc req_n offset s) (\<lambda>(r, s).
        if r < 0 then Inr (r, s)
        else
          bindR (load32 (fd_offset fd) s) (\<lambda>(offset, s).
            if in_int (sint offset + r) then
              bindR (store32 (fd_offset fd) (offset + of_int r) s) (\<lambda>(_, s). Inr (r, s))
            else int_overflow)))))"

text \<open>The result of \<open>file_write\<close> is a \<open>size_t\<close> in \<open>serve_write\<close>: it is never negative.\<close>

definition serve_write :: "u32 \<Rightarrow> ('x) fserv_scheme \<Rightarrow> (('x) fserv_scheme, int) res" where
  "serve_write req s =
    bindR (load32 req s) (\<lambda>(fileid, s).
    let (r, i) = openfile_lookup fileid s in
    if r < 0 then Inr (r, s)
    else
      let file = o_file (opentab s ! i); fd = o_fd (opentab s ! i) in
      bindR (load32 (req + 4) s) (\<lambda>(req_n, s).
      bindR (load32 (fd_offset fd) s) (\<lambda>(offset, s).
      bindR (file_write file (req + 8) (min req_n 4088) offset s) (\<lambda>(r, s).
      let nbytes = of_int r :: u32 in
      bindR (load32 (fd_offset fd) s) (\<lambda>(offset, s).
      bindR (store32 (fd_offset fd) (offset + nbytes) s) (\<lambda>(_, s). Inr (sint nbytes, s)))))))"

definition serve_stat :: "u32 \<Rightarrow> ('x) fserv_scheme \<Rightarrow> (('x) fserv_scheme, int) res" where
  "serve_stat ipc s =
    bindR (load32 ipc s) (\<lambda>(fileid, s).
    let (r, i) = openfile_lookup fileid s in
    if r < 0 then Inr (r, s)
    else
      let file = o_file (opentab s ! i) in
      bindR (strcpy load8 store8 ipc file s) (\<lambda>(_, s).
      bindR (load32 (f_size file) s) (\<lambda>(sz, s).
      bindR (store32 (ipc + 128) sz s) (\<lambda>(_, s).
      bindR (load32 (f_type file) s) (\<lambda>(ty, s).
      bindR (store32 (ipc + 132) (if ty = FTYPE_DIR then 1 else 0) s) (\<lambda>(_, s). Inr (0, s)))))))"

definition serve_flush :: "u32 \<Rightarrow> ('x) fserv_scheme \<Rightarrow> (('x) fserv_scheme, int) res" where
  "serve_flush req s =
    bindR (load32 req s) (\<lambda>(fileid, s).
    let (r, i) = openfile_lookup fileid s in
    if r < 0 then Inr (r, s)
    else bindR (file_flush (o_file (opentab s ! i)) s) (\<lambda>(_, s). Inr (0, s)))"

definition serve_sync :: "u32 \<Rightarrow> ('x) fserv_scheme \<Rightarrow> (('x) fserv_scheme, int) res" where
  "serve_sync req s = bindR (fs_sync s) (\<lambda>(_, s). Inr (0, s))"

section \<open>Requests\<close>

definition handlers :: "u32 \<Rightarrow> (u32 \<Rightarrow> ('x) fserv_scheme \<Rightarrow> (('x) fserv_scheme, int) res) option" where
  "handlers req =
    (if req = 2 then Some serve_set_size
     else if req = 3 then Some serve_read
     else if req = 4 then Some serve_write
     else if req = 5 then Some serve_stat
     else if req = 6 then Some serve_flush
     else if req = 8 then Some serve_sync
     else None)"

record reply =
  value_sent :: int
  page_sent :: u32
  perm_sent :: u32

text \<open>
  One turn of the loop in \<open>serve\<close>: \<open>ipc_recv\<close> delivers the code of the request, the permissions and, if there is a
  page, its bytes at \<open>fsreq\<close>; the reply is what \<open>ipc_send\<close> sends. Without an argument page there is no reply. The
  page that is unmapped at the end stays with the client.
\<close>

definition serve_one :: "u32 \<Rightarrow> u32 \<Rightarrow> (nat \<Rightarrow> u8) \<Rightarrow> ('x) fserv_scheme \<Rightarrow> (('x) fserv_scheme, reply option) res" where
  "serve_one req perm page s =
    (if perm AND PTE_P = 0 then Inr (None, s)
     else
       let s = s\<lparr>mem := (\<lambda>a. if fsreq \<le> a \<and> a - fsreq < 4096 then page (unat (a - fsreq)) else mem s a)\<rparr> in
       if req = 1 then
         bindR (serve_open fsreq s) (\<lambda>((r, pg), s).
           case pg of
             Some (pg, perm) \<Rightarrow> Inr (Some \<lparr>value_sent = r, page_sent = pg, perm_sent = perm\<rparr>, s)
           | None \<Rightarrow> Inr (Some \<lparr>value_sent = r, page_sent = 0, perm_sent = perm\<rparr>, s))
       else
         bindR (case handlers req of Some h \<Rightarrow> h fsreq s | None \<Rightarrow> Inr (- E_INVAL, s)) (\<lambda>(r, s).
           Inr (Some \<lparr>value_sent = r, page_sent = 0, perm_sent = perm\<rparr>, s)))"

section \<open>Memory next to the cache\<close>

lemma load32_outside:
  assumes "\<And>i. i < 4 \<Longrightarrow> \<not> in_cache (p + of_nat i)"
  shows "load32 p s = Inr (word_at (view s) p, s)"
proof -
  have "load8 (p + of_nat i) s = Inr (view s (p + of_nat i), s)" if "i < 4" for i
    using assms [OF that] by (simp add: load8_def view_def)
  from this [of 0] this [of 1] this [of 2] this [of 3] show ?thesis
    by (simp add: load_word_def load4_def word_at_def get4_def)
qed

lemma fsreq_addr:
  assumes "i < 8192"
  shows "unat (fsreq + of_nat i) = 268431360 + i" "\<not> fs_addr (fsreq + of_nat i)" "i < 4096 \<Longrightarrow> \<not> in_cache (fsreq + of_nat i)"
    "4096 \<le> i \<Longrightarrow> in_cache (fsreq + of_nat i) \<and> blk_of (fsreq + of_nat i) = 0"
proof -
  show u: "unat (fsreq + of_nat i) = 268431360 + i" using assms by (simp add: unat_word_ariths unat_of_nat)
  show "i < 4096 \<Longrightarrow> \<not> in_cache (fsreq + of_nat i)" using u by (simp add: unat_in_cache)
  show c: "in_cache (fsreq + of_nat i) \<and> blk_of (fsreq + of_nat i) = 0" if "4096 \<le> i"
  proof -
    have "in_cache (fsreq + of_nat i)" using u that assms by (simp add: unat_in_cache)
    with cache_addr [OF this] u assms show ?thesis by simp
  qed
  then show "\<not> fs_addr (fsreq + of_nat i)" using u by (cases "i < 4096") (simp_all add: fs_addr_def unat_in_cache)
qed

lemma fsreq_buffer:
  assumes "bc_ok s" "n \<le> 8192"
  shows "bc.storable s fsreq n" "outside fsreq n"
proof -
  have m: "meta_ok (view s)" using assms(1) by (simp add: bc_ok_def)
  have "0 < reserved (nblocks (view s))" by (simp add: reserved_def)
  then have z: "0 < nblocks (view s)" "\<not> free_bit (view s) 0" using meta_okD(3,4) [OF m] by (auto intro: order.strict_trans)
  have "bc_acc s (fsreq + of_nat i) \<and> bc_plain s (fsreq + of_nat i)" if "i < n" for i
  proof (cases "i < 4096")
    case True
    with that assms(2) fsreq_addr(3) [of i] show ?thesis by (simp add: bc_acc_def bc_plain_def meta_addr_def)
  next
    case False
    with that assms(2) fsreq_addr(4) [of i] z show ?thesis by (simp add: bc_acc_def bc_plain_def meta_addr_def)
  qed
  then show "bc.storable s fsreq n" by (simp add: bc.storable_def)
  have "\<not> fs_addr (fsreq + of_nat i)" if "i < n" for i using fsreq_addr(2) [of i] that assms(2) by simp
  then show "outside fsreq n" unfolding outside_def using assms(2) by simp
qed

definition is_fd :: "u32 \<Rightarrow> bool" where
  "is_fd fd \<longleftrightarrow> FILEVA \<le> fd \<and> fd < FILEVA + of_nat MAXOPEN * 4096"

lemma fd_addr:
  assumes "is_fd fd" "j < 4096"
  shows "unat (fd + of_nat j) = unat fd + j" "3489660928 \<le> unat fd" "\<not> in_cache (fd + of_nat j)"
proof -
  have fd: "3489660928 \<le> unat fd" "unat fd < 3493855232"
    using assms(1) by (simp_all add: is_fd_def word_le_nat_alt word_less_nat_alt)
  then show "unat (fd + of_nat j) = unat fd + j" "3489660928 \<le> unat fd" using assms(2) by (simp_all add: unat_add_lt)
  with fd show "\<not> in_cache (fd + of_nat j)" by (simp add: unat_in_cache)
qed

lemma fd_offset_high:
  assumes "is_fd fd" "a \<in> {fd_offset fd, fd_offset fd + 1, fd_offset fd + 2, fd_offset fd + 3}"
  shows "3489660928 \<le> unat a"
  using assms(2) fd_addr(1,2) [OF assms(1), of 4] fd_addr(1,2) [OF assms(1), of 5] fd_addr(1,2) [OF assms(1), of 6]
    fd_addr(1,2) [OF assms(1), of 7] by (auto simp: add.assoc)

text \<open>The seek position of an open file.\<close>

definition seek_pos :: "('x) fserv_scheme \<Rightarrow> OpenFile \<Rightarrow> nat" where
  "seek_pos s ob = unat (word_at (view s) (fd_offset (o_fd ob)))"

lemma request_load:
  "load32 fsreq s = Inr (word_at (view s) fsreq, s)" "load32 (fsreq + 4) s = Inr (word_at (view s) (fsreq + 4), s)"
  using fsreq_addr(3) [of "j + 4" for j] fsreq_addr(3) by (auto intro!: load32_outside simp: algebra_simps)

lemma seek_load: "is_fd fd \<Longrightarrow> load32 (fd_offset fd) s = Inr (word_at (view s) (fd_offset fd), s)"
  using fd_addr(3) [of fd "4 + j" for j] by (intro load32_outside) (simp add: add.assoc)

lemma seek_storable: "is_fd fd \<Longrightarrow> bc.storable s (fd_offset fd) 4"
  unfolding bc.storable_def using fd_addr(3) [of fd "4 + j" for j]
  by (simp add: add.assoc bc_acc_def bc_plain_def meta_addr_def)

text \<open>Reading to the request page does not reach the seek position, and the other way round.\<close>

lemma seek_kept:
  assumes "is_fd fd" "n \<le> 8192"
  shows "word_at (read_into f fsreq p n m) (fd_offset fd) = word_at m (fd_offset fd)"
proof (rule word_at_agree)
  fix j :: nat
  assume "j < 4"
  then have "unat (fd_offset fd + of_nat j) \<ge> 3489660928"
    using fd_addr(1,2) [OF assms(1), of "4 + j"] by (simp add: add.assoc)
  with assms(2) show "read_into f fsreq p n m (fd_offset fd + of_nat j) = m (fd_offset fd + of_nat j)"
    by (auto simp: read_into_def)
qed

lemma request_kept:
  assumes "is_fd fd" "j < 8192"
  shows "put_word (fd_offset fd) w m (fsreq + of_nat j) = m (fsreq + of_nat j)"
proof (rule put_word_outside)
  show "fsreq + of_nat j \<notin> {fd_offset fd, fd_offset fd + 1, fd_offset fd + 2, fd_offset fd + 3}"
    using fd_offset_high [OF assms(1), of "fsreq + of_nat j"] fsreq_addr(1) [OF assms(2)] assms(2) by linarith
qed

section \<open>Properties of the server\<close>

text \<open>C35. \<open>serve_read\<close> delivers the next bytes of the file and has no bound on their number. For an open file whose blocks up to
  the end of the range are present, a request for up to two pages returns the number of bytes that the file has there, at most
  the requested number, advances the seek position by it, and byte \<open>i\<close> from the start of the request page is byte
  \<open>i\<close> of the range. The number is not limited to the size of the page: if it is larger, all bytes from the 4096th on have been
  stored into block 0 of the block cache, which follows the page.
\<close>

theorem serve_read_correct:
  fixes s :: "('x) fserv_scheme"
  assumes ok: "bc_ok s" and lk: "openfile_lookup (word_at (view s) fsreq) s = (0, i)" and fd: "is_fd (o_fd (opentab s ! i))"
    and f: "file_ok s (o_file (opentab s ! i)) k" "seek_pos s (opentab s ! i) < 2147483648"
    and n: "n = min (unat (word_at (view s) (fsreq + 4))) (file_size (view s) (o_file (opentab s ! i)) - seek_pos s (opentab s ! i))"
      "n \<le> 8192" "seek_pos s (opentab s ! i) + n \<le> 4096 * k \<or> n = 0"
  shows "\<exists>s'. serve_read fsreq s = Inr (int n, s') \<and> bc_ok s' \<and> seek_pos s' (opentab s ! i) = seek_pos s (opentab s ! i) + n \<and>
    (\<forall>j<n. view s' (fsreq + of_nat j) = view s (file_addr (view s) (o_file (opentab s ! i)) (seek_pos s (opentab s ! i) + j))) \<and>
    (\<forall>j. 4096 \<le> j \<and> j < n \<longrightarrow> in_cache (fsreq + of_nat j) \<and> blk_of (fsreq + of_nat j) = 0)"
proof -
  let ?ob = "opentab s ! i"
  let ?off = "word_at (view s) (fd_offset (o_fd ?ob))"
  have so: "unat ?off < 2147483648" using f(2) by (simp add: seek_pos_def)
  note B = fsreq_buffer [OF ok n(2)]
  obtain t where t: "file_read (o_file ?ob) fsreq (word_at (view s) (fsreq + 4)) ?off s = Inr (int n, t)"
    "bc.wrote (read_into (o_file ?ob) fsreq (unat ?off) n) s t"
    using file_read_ok [OF ok f(1) so _ _ B] n by (auto simp: seek_pos_def)
  have off: "word_at (view t) (fd_offset (o_fd ?ob)) = ?off"
    using t(2) seek_kept [OF fd n(2)] by (simp add: bc.wrote_def)
  obtain u where u: "store32 (fd_offset (o_fd ?ob)) (?off + of_int (int n)) t = Inr ((), u)"
    "bc.wrote (put_word (fd_offset (o_fd ?ob)) (?off + of_int (int n))) t u"
    using bc.store_word_ok [OF bc.wrote_ok [OF t(2)] seek_storable [OF fd]] by blast
  have "unat ?off + n < 2147483648"
    using n(1) so file_okD(2) [OF f(1)] by (auto simp: seek_pos_def min_def split: if_splits)
  then have sum: "unat (?off + of_nat n) = unat ?off + n" "in_int (sint ?off + int n)"
    using unat_add_lt [of ?off n] sint_small [OF so] by (simp_all add: in_int_def del: of_nat_unat)
  have "seek_pos u ?ob = seek_pos s ?ob + n"
    using u(2) sum(1) by (simp add: seek_pos_def bc.wrote_def word_at_put del: fd_offset_def)
  moreover have "view u (fsreq + of_nat j) = view s (file_addr (view s) (o_file ?ob) (seek_pos s ?ob + j))" if "j < n" for j
  proof -
    have j: "unat (fsreq + of_nat j) = 268431360 + j" using fsreq_addr(1) that n(2) by simp
    have "view u (fsreq + of_nat j) = view t (fsreq + of_nat j)"
      using u(2) request_kept [OF fd] that n(2) by (simp add: bc.wrote_def del: fsreq_def fd_offset_def)
    also have "\<dots> = view s (file_addr (view s) (o_file ?ob) (seek_pos s ?ob + j))"
      using t(2) j that by (simp add: bc.wrote_def read_into_def seek_pos_def)
    finally show ?thesis .
  qed
  moreover have "serve_read fsreq s = Inr (int n, u)"
    using request_load [of s] seek_load [OF fd, of s] seek_load [OF fd, of t] lk t(1) off u(1) sum(2) by (simp add: serve_read_def Let_def del: fsreq_def fd_offset_def)
  ultimately show ?thesis
    using bc.wrote_ok [OF u(2)] fsreq_addr(4) n(2) by auto
qed

definition small_mem :: "u32 \<Rightarrow> u8" where
  "small_mem = small_view(0x0FFFF001 := 4, 0x0FFFF004 := 100)"

definition small_serv :: fserv where
  "small_serv = \<lparr>mem = small_mem, mapped = (\<lambda>b. b = 1), dirty = (\<lambda>_. False), disk = disk small_disk, super_set = True,
     bitmap_set = True, avail = 8, bad = (\<lambda>_. False),
     opentab = [\<lparr>o_fileid = 1024, o_file = small_file, o_mode = 0, o_fd = FILEVA\<rparr>], pagerefs = (\<lambda>_. 2)\<rparr>"

lemma small_serv_view [simp]: "view small_serv = small_mem"
proof
  fix a
  have "\<not> in_cache 0x0FFFF001" "\<not> in_cache 0x0FFFF004" by (simp_all add: in_cache_def)
  then show "view small_serv a = small_mem a"
    using fun_cong [OF small_disk_view, of a] by (auto simp: view_def small_serv_def small_disk_def small_mem_def split: if_splits)
qed

lemma small_mem_agree: "in_cache a \<Longrightarrow> small_mem a = small_view a"
  by (auto simp: small_mem_def in_cache_def)

lemma small_serv_blocks [simp]: "nblocks small_mem = 8" "b < 8 \<Longrightarrow> free_bit small_mem b = free_bit small_view b"
  using meta_agree [of small_view small_mem] small_mem_agree by (auto simp: meta_addr_def reserved_def)

lemma small_serv_ok: "bc_ok small_serv"
proof -
  have "coherent small_serv"
    unfolding coherent_def by (auto simp: small_serv_def small_disk_def disk_addr small_mem_agree)
  moreover have "meta_ok small_mem"
    using small_free by (auto simp: meta_ok_def reserved_def)
  moreover have "card {b. b < nblocks small_mem \<and> \<not> mapped small_serv b} \<le> avail small_serv"
    using small_disk_ok by (simp add: bc_ok_def) (simp add: small_serv_def small_disk_def)
  ultimately show ?thesis by (simp add: bc_ok_def) (simp add: small_serv_def)
qed

lemma small_serv_file: "file_ok small_serv small_file 1"
proof (rule file_kept(1) [OF small_file_ok])
  show "bc_acc small_serv = bc_acc small_disk" "bc_plain small_serv = bc_plain small_disk"
    by (auto simp: fun_eq_iff bc_acc_def bc_plain_def)
  show "view small_serv a = view small_disk a" if "fs_addr a" for a
    using that by (simp add: fs_addr_def small_mem_agree)
qed

theorem serve_read_correct_witness:
  "\<exists>s'. serve_read fsreq small_serv = Inr (8, s') \<and> bc_ok s' \<and>
    (\<forall>j<8. view s' (fsreq + of_nat j) = small_mem (file_addr small_mem small_file j))"
proof -
  have w: "word_at small_mem fsreq = 1024" "word_at small_mem (fsreq + 4) = 100" "word_at small_mem (fd_offset FILEVA) = 0"
    "file_size small_mem small_file = 8"
    by (simp_all add: word_at_def get4_def word_of4_def small_mem_def small_view_def file_size_def)
  have tab: "opentab small_serv ! 0 = \<lparr>o_fileid = 1024, o_file = small_file, o_mode = 0, o_fd = FILEVA\<rparr>" "pagerefs small_serv fd = 2" for fd
    by (simp_all add: small_serv_def)
  have "openfile_lookup (word_at (view small_serv) fsreq) small_serv = (0, 0)"
    using w(1) tab by (simp add: openfile_lookup_def)
  moreover have "is_fd (o_fd (opentab small_serv ! 0))" using tab(1) by (simp add: is_fd_def)
  moreover have "seek_pos small_serv (opentab small_serv ! 0) = 0" using w(3) tab(1) by (simp add: seek_pos_def)
  ultimately show ?thesis
    using serve_read_correct [OF small_serv_ok, of 0 1 8] small_serv_file tab(1) w(2,4) by (auto simp del: fsreq_def)
qed

end
