(* ===== verification/Pipe.thy ===== *)
theory Pipe
  imports Mmu "HOL-Library.Signed_Division"
begin

text \<open>
  Pipes (lib/pipe.c): a buffer of 32 bytes in a page that the reading and the writing end share. Reader and writer
  run concurrently and without locks, so \<open>devpipe_read\<close> and \<open>devpipe_write\<close> are modelled as step relations in
  which every access to the shared page is a step of its own; a run is any interleaving of the steps of one reader and
  one writer. \<open>_pipeisclosed\<close> may answer either way in every round of a waiting loop.

  Proved: over all interleavings the reader receives the bytes of the writer in order, without loss or duplicates, the
  buffer is never overrun, and the counters of \<open>_pipeisclosed\<close> are conclusive if nothing runs in between.
\<close>

unbundle bit_operations_syntax

section \<open>The shared page\<close>

definition PIPEBUFSIZ :: nat where [simp]: "PIPEBUFSIZ = 32"

record Pipe =
  p_rpos :: u32
  p_wpos :: u32
  p_buf :: "nat \<Rightarrow> u8"

text \<open>\<open>pos % PIPEBUFSIZ\<close>: a negative position has a negative remainder, which is no index of the buffer.\<close>

definition buf_index :: "u32 \<Rightarrow> nat option" where
  "buf_index pos = (if sint pos smod 32 < 0 then None else Some (nat (sint pos smod 32)))"

text \<open>\<open>pos++\<close>; None is the overflow of the signed counter.\<close>

definition bump :: "u32 \<Rightarrow> u32 option" where
  "bump pos = (if sint pos = 2147483647 then None else Some (pos + 1))"

section \<open>Reading and writing\<close>

text \<open>
  The control points of \<open>devpipe_read\<close>: the head of the inner loop, after the load of \<open>p_rpos\<close>, after the test found the
  pipe empty, before the byte is taken, before the position is moved, and after the return.
\<close>

datatype reader_pc = RHead | RTest u32 | REmpty | RTake | RBump | RDone nat | RUndef

record reader =
  r_pc :: reader_pc
  r_n :: nat
  r_buf :: "u8 list"

inductive read_step :: "Pipe \<Rightarrow> reader \<Rightarrow> Pipe \<Rightarrow> reader \<Rightarrow> bool" where
  r_end: "r_pc r = RHead \<Longrightarrow> r_n r \<le> length (r_buf r) \<Longrightarrow> read_step p r p (r\<lparr>r_pc := RDone (length (r_buf r))\<rparr>)"
| r_load: "r_pc r = RHead \<Longrightarrow> length (r_buf r) < r_n r \<Longrightarrow> read_step p r p (r\<lparr>r_pc := RTest (p_rpos p)\<rparr>)"
| r_data: "r_pc r = RTest v \<Longrightarrow> v \<noteq> p_wpos p \<Longrightarrow> read_step p r p (r\<lparr>r_pc := RTake\<rparr>)"
| r_part: "r_pc r = RTest v \<Longrightarrow> v = p_wpos p \<Longrightarrow> 0 < length (r_buf r) \<Longrightarrow>
    read_step p r p (r\<lparr>r_pc := RDone (length (r_buf r))\<rparr>)"
| r_none: "r_pc r = RTest v \<Longrightarrow> v = p_wpos p \<Longrightarrow> length (r_buf r) = 0 \<Longrightarrow> read_step p r p (r\<lparr>r_pc := REmpty\<rparr>)"
| r_eof: "r_pc r = REmpty \<Longrightarrow> read_step p r p (r\<lparr>r_pc := RDone 0\<rparr>)"
| r_yield: "r_pc r = REmpty \<Longrightarrow> read_step p r p (r\<lparr>r_pc := RHead\<rparr>)"
| r_take: "r_pc r = RTake \<Longrightarrow> buf_index (p_rpos p) = Some k \<Longrightarrow>
    read_step p r p (r\<lparr>r_pc := RBump, r_buf := r_buf r @ [p_buf p k]\<rparr>)"
| r_take_undef: "r_pc r = RTake \<Longrightarrow> buf_index (p_rpos p) = None \<Longrightarrow> read_step p r p (r\<lparr>r_pc := RUndef\<rparr>)"
| r_bump: "r_pc r = RBump \<Longrightarrow> bump (p_rpos p) = Some v \<Longrightarrow> read_step p r (p\<lparr>p_rpos := v\<rparr>) (r\<lparr>r_pc := RHead\<rparr>)"
| r_bump_undef: "r_pc r = RBump \<Longrightarrow> bump (p_rpos p) = None \<Longrightarrow> read_step p r p (r\<lparr>r_pc := RUndef\<rparr>)"

text \<open>
  The same for \<open>devpipe_write\<close>. The comparison with \<open>p_rpos + sizeof(p_buf)\<close> is unsigned. \<open>w_i\<close> counts the bytes of
  the message that have been stored.
\<close>

datatype writer_pc = WHead | WTest u32 | WFull | WStore | WBump | WDone nat | WUndef

record writer =
  w_pc :: writer_pc
  w_msg :: "u8 list"
  w_i :: nat

inductive write_step :: "Pipe \<Rightarrow> writer \<Rightarrow> Pipe \<Rightarrow> writer \<Rightarrow> bool" where
  w_end: "w_pc w = WHead \<Longrightarrow> length (w_msg w) \<le> w_i w \<Longrightarrow> write_step p w p (w\<lparr>w_pc := WDone (w_i w)\<rparr>)"
| w_load: "w_pc w = WHead \<Longrightarrow> w_i w < length (w_msg w) \<Longrightarrow> write_step p w p (w\<lparr>w_pc := WTest (p_wpos p)\<rparr>)"
| w_room: "w_pc w = WTest v \<Longrightarrow> v < p_rpos p + of_nat PIPEBUFSIZ \<Longrightarrow> write_step p w p (w\<lparr>w_pc := WStore\<rparr>)"
| w_full: "w_pc w = WTest v \<Longrightarrow> v \<ge> p_rpos p + of_nat PIPEBUFSIZ \<Longrightarrow> write_step p w p (w\<lparr>w_pc := WFull\<rparr>)"
| w_eof: "w_pc w = WFull \<Longrightarrow> write_step p w p (w\<lparr>w_pc := WDone 0\<rparr>)"
| w_yield: "w_pc w = WFull \<Longrightarrow> write_step p w p (w\<lparr>w_pc := WHead\<rparr>)"
| w_store: "w_pc w = WStore \<Longrightarrow> buf_index (p_wpos p) = Some k \<Longrightarrow>
    write_step p w (p\<lparr>p_buf := (p_buf p)(k := w_msg w ! w_i w)\<rparr>) (w\<lparr>w_pc := WBump\<rparr>)"
| w_store_undef: "w_pc w = WStore \<Longrightarrow> buf_index (p_wpos p) = None \<Longrightarrow> write_step p w p (w\<lparr>w_pc := WUndef\<rparr>)"
| w_bump: "w_pc w = WBump \<Longrightarrow> bump (p_wpos p) = Some v \<Longrightarrow>
    write_step p w (p\<lparr>p_wpos := v\<rparr>) (w\<lparr>w_pc := WHead, w_i := Suc (w_i w)\<rparr>)"
| w_bump_undef: "w_pc w = WBump \<Longrightarrow> bump (p_wpos p) = None \<Longrightarrow> write_step p w p (w\<lparr>w_pc := WUndef\<rparr>)"

inductive_cases read_stepE: "read_step p r p' r'"
inductive_cases write_stepE: "write_step p w p' w'"

text \<open>Interleavings.\<close>

inductive pipe_run :: "Pipe \<Rightarrow> reader \<Rightarrow> writer \<Rightarrow> Pipe \<Rightarrow> reader \<Rightarrow> writer \<Rightarrow> bool" where
  start: "pipe_run p r w p r w"
| reader: "pipe_run p r w p' r' w' \<Longrightarrow> read_step p' r' p'' r'' \<Longrightarrow> pipe_run p r w p'' r'' w'"
| writer: "pipe_run p r w p' r' w' \<Longrightarrow> write_step p' w' p'' w'' \<Longrightarrow> pipe_run p r w p'' r' w''"

text \<open>
  \<open>_pipeisclosed\<close>: \<open>obs k\<close> are the values read in round \<open>k\<close>, \<open>env_runs\<close>, the references to the \<open>struct Fd\<close> and to the pipe,
  and \<open>env_runs\<close> again. None stands for a loop that has not ended within the given number of rounds.
\<close>

fun pipeisclosed_loop :: "(nat \<Rightarrow> int \<times> nat \<times> nat \<times> int) \<Rightarrow> nat \<Rightarrow> nat \<Rightarrow> bool option" where
  "pipeisclosed_loop obs k 0 = None"
| "pipeisclosed_loop obs k (Suc fuel) =
    (let (n, fd_refs, p_refs, nn) = obs k
     in if n = nn then Some (fd_refs = p_refs) else pipeisclosed_loop obs (Suc k) fuel)"

text \<open>
  The pipe page is mapped once for every mapped end: with \<open>mine\<close> references to this end and \<open>other\<close> to the other end, an
  answer from values that belong to one moment tells whether the other end is gone.
\<close>

lemma pipeisclosed_exact:
  assumes "\<And>k n m q nn. obs k = (n, m, q, nn) \<Longrightarrow> n = nn \<Longrightarrow> m = mine \<and> q = mine + other"
    and "pipeisclosed_loop obs k fuel = Some b"
  shows "b \<longleftrightarrow> other = 0"
  using assms(2)
proof (induction fuel arbitrary: k)
  case (Suc fuel)
  obtain n m q nn where k: "obs k = (n, m, q, nn)" by (cases "obs k") auto
  from Suc assms(1) [OF k] show ?case by (auto simp: k split: if_splits)
qed simp

section \<open>Positions\<close>

lemma buf_index_small: "unat pos < 2147483648 \<Longrightarrow> buf_index pos = Some (unat pos mod 32)"
proof -
  assume p: "unat pos < 2147483648"
  have "int (unat pos) smod 32 = int (unat pos mod 32)"
    by (cases "unat pos = 0") (simp_all add: signed_modulo_int_def zmod_int del: of_nat_unat unat_eq_zero)
  with p show ?thesis by (simp add: buf_index_def sint_u32 del: of_nat_unat)
qed

lemma bump_small: "unat pos < 2147483647 \<Longrightarrow> \<exists>v. bump pos = Some v \<and> unat v = Suc (unat pos)"
proof -
  assume p: "unat pos < 2147483647"
  then have "sint pos \<noteq> 2147483647" by (simp add: sint_u32 del: of_nat_unat)
  moreover have "unat (pos + 1) = Suc (unat pos)" using p by (simp add: unat_word_ariths)
  ultimately show ?thesis by (simp add: bump_def)
qed

lemma bump_Some: "bump pos = Some v \<Longrightarrow> unat pos < 2147483648 \<Longrightarrow> unat v = Suc (unat pos) \<and> unat pos < 2147483647"
proof -
  assume b: "bump pos = Some v" and p: "unat pos < 2147483648"
  then have "sint pos \<noteq> 2147483647" by (auto simp: bump_def split: if_splits)
  then have "unat pos \<noteq> 2147483647" by (auto simp: sint_u32 simp del: of_nat_unat)
  then have "unat pos < 2147483647" using p by simp
  with b bump_small [of pos] show ?thesis by (auto simp: bump_def split: if_splits)
qed

section \<open>First in, first out\<close>

text \<open>The bytes in the buffer, from the read position to the write position.\<close>

definition contents :: "Pipe \<Rightarrow> u8 list" where
  "contents p = map (\<lambda>k. p_buf p (k mod 32)) [unat (p_rpos p)..<unat (p_wpos p)]"

definition pipe_ok :: "Pipe \<Rightarrow> bool" where
  "pipe_ok p \<longleftrightarrow> unat (p_rpos p) \<le> unat (p_wpos p) \<and> unat (p_wpos p) \<le> unat (p_rpos p) + 32 \<and> unat (p_wpos p) < 2147483648"

text \<open>What the reader has got without the byte it has copied but not yet taken, and what the writer has put.\<close>

definition taken :: "reader \<Rightarrow> u8 list" where
  "taken r = (if r_pc r = RBump then butlast (r_buf r) else r_buf r)"

definition put :: "writer \<Rightarrow> u8 list" where
  "put w = take (w_i w) (w_msg w)"

definition reader_ok :: "Pipe \<Rightarrow> reader \<Rightarrow> bool" where
  "reader_ok p r \<longleftrightarrow>
    (case r_pc r of
       RTest v \<Rightarrow> v = p_rpos p
     | RTake \<Rightarrow> p_rpos p \<noteq> p_wpos p
     | RBump \<Rightarrow> p_rpos p \<noteq> p_wpos p \<and> r_buf r \<noteq> [] \<and> last (r_buf r) = p_buf p (unat (p_rpos p) mod 32)
     | REmpty \<Rightarrow> r_buf r = []
     | RDone k \<Rightarrow> k = length (r_buf r)
     | RUndef \<Rightarrow> False
     | RHead \<Rightarrow> True)"

definition writer_ok :: "Pipe \<Rightarrow> writer \<Rightarrow> bool" where
  "writer_ok p w \<longleftrightarrow> w_i w \<le> length (w_msg w) \<and>
    (case w_pc w of
       WTest v \<Rightarrow> v = p_wpos p \<and> w_i w < length (w_msg w)
     | WStore \<Rightarrow> unat (p_wpos p) < unat (p_rpos p) + 32 \<and> w_i w < length (w_msg w)
     | WBump \<Rightarrow> unat (p_wpos p) < unat (p_rpos p) + 32 \<and> w_i w < length (w_msg w) \<and> p_buf p (unat (p_wpos p) mod 32) = w_msg w ! w_i w
     | WUndef \<Rightarrow> unat (p_wpos p) = 2147483647
     | _ \<Rightarrow> True)"

text \<open>\<open>xs\<close> was in the pipe before. The writer is undefined only at the last position.\<close>

definition fifo :: "u8 list \<Rightarrow> u8 list \<Rightarrow> Pipe \<Rightarrow> reader \<Rightarrow> writer \<Rightarrow> bool" where
  "fifo xs ys p r w \<longleftrightarrow> pipe_ok p \<and> reader_ok p r \<and> writer_ok p w \<and> ys @ xs @ put w = taken r @ contents p"

lemma contents_Cons:
  assumes "pipe_ok p" "p_rpos p \<noteq> p_wpos p"
  shows "contents p = p_buf p (unat (p_rpos p) mod 32) # map (\<lambda>k. p_buf p (k mod 32)) [Suc (unat (p_rpos p))..<unat (p_wpos p)]"
proof -
  have "unat (p_rpos p) < unat (p_wpos p)"
    using assms by (auto simp: pipe_ok_def word_unat_eq_iff)
  then show ?thesis by (simp add: contents_def upt_conv_Cons)
qed

lemma mod_apart: "a < b \<Longrightarrow> b < a + 32 \<Longrightarrow> a mod 32 \<noteq> b mod (32 :: nat)"
proof
  assume "a < b" "b < a + 32" "a mod 32 = b mod 32"
  then have "32 dvd b - a" by (metis mod_eq_dvd_iff_nat less_imp_le)
  moreover have "0 < b - a" "b - a < 32" using \<open>a < b\<close> \<open>b < a + 32\<close> by auto
  ultimately show False using nat_dvd_not_less by blast
qed

lemma contents_store:
  assumes "pipe_ok p" "unat (p_wpos p) < unat (p_rpos p) + 32"
  shows "contents (p\<lparr>p_buf := (p_buf p)(unat (p_wpos p) mod 32 := b)\<rparr>) = contents p"
proof -
  have "k mod 32 \<noteq> unat (p_wpos p) mod 32" if "unat (p_rpos p) \<le> k" "k < unat (p_wpos p)" for k
    using that assms(2) by (intro mod_apart) auto
  then show ?thesis by (simp add: contents_def)
qed

lemma fifo_read:
  assumes "fifo xs ys p r w" "read_step p r p' r'"
  shows "fifo xs ys p' r' w"
proof -
  have p: "pipe_ok p" "unat (p_rpos p) < 2147483648" using assms(1) by (auto simp: fifo_def pipe_ok_def)
  show ?thesis
    using assms(2)
  proof (cases rule: read_step.cases)
    case (r_take k)
    with assms(1) p(2) contents_Cons [OF p(1)] show ?thesis
      by (auto simp: fifo_def reader_ok_def taken_def buf_index_small)
  next
    case (r_take_undef)
    with p(2) show ?thesis by (simp add: buf_index_small)
  next
    case (r_bump v)
    have ne: "p_rpos p \<noteq> p_wpos p" "r_buf r \<noteq> []" "last (r_buf r) = p_buf p (unat (p_rpos p) mod 32)"
      using assms(1) r_bump by (auto simp: fifo_def reader_ok_def)
    have v: "unat v = Suc (unat (p_rpos p))" using bump_Some [OF r_bump(4) p(2)] by simp
    have "contents p = last (r_buf r) # contents p'"
      using contents_Cons [OF p(1) ne(1)] ne(3) v r_bump(1) by (simp add: contents_def)
    moreover have "taken r @ [last (r_buf r)] = taken r'" using r_bump ne(2) by (simp add: taken_def)
    moreover have "pipe_ok p'" using p(1) ne(1) v r_bump(1) by (auto simp: pipe_ok_def word_unat_eq_iff)
    moreover have "writer_ok p' w" using assms(1) v r_bump(1) by (auto simp: fifo_def writer_ok_def split: writer_pc.splits)
    ultimately show ?thesis using assms(1) r_bump by (auto simp: fifo_def reader_ok_def)
  next
    case (r_bump_undef)
    have "p_rpos p \<noteq> p_wpos p" using assms(1) r_bump_undef by (auto simp: fifo_def reader_ok_def)
    then have "unat (p_rpos p) < 2147483647" using p(1) by (auto simp: pipe_ok_def word_unat_eq_iff)
    with bump_small r_bump_undef show ?thesis by force
  qed (use assms(1) in \<open>auto simp: fifo_def reader_ok_def taken_def\<close>)
qed

lemma fifo_write:
  assumes "fifo xs ys p r w" "write_step p w p' w'"
  shows "fifo xs ys p' r w'"
proof -
  have p: "pipe_ok p" "unat (p_wpos p) < 2147483648" "unat (p_rpos p) + 32 < 4294967296"
    using assms(1) by (auto simp: fifo_def pipe_ok_def)
  have u: "unat (p_rpos p + 32) = unat (p_rpos p) + 32" using p(3) by (simp add: unat_word_ariths)
  show ?thesis
    using assms(2)
  proof (cases rule: write_step.cases)
    case (w_room v)
    with assms(1) u show ?thesis by (auto simp: fifo_def writer_ok_def put_def word_less_nat_alt)
  next
    case (w_store k)
    have k: "k = unat (p_wpos p) mod 32" using w_store p(2) by (simp add: buf_index_small)
    have lt: "unat (p_wpos p) < unat (p_rpos p) + 32" using assms(1) w_store by (simp add: fifo_def writer_ok_def)
    have "reader_ok p' r"
    proof (cases "r_pc r = RBump")
      case True
      have "unat (p_rpos p) < unat (p_wpos p)"
        using assms(1) True by (auto simp: fifo_def reader_ok_def pipe_ok_def word_unat_eq_iff)
      then have "unat (p_rpos p) mod 32 \<noteq> k" using mod_apart lt k by simp
      with assms(1) True w_store show ?thesis by (auto simp: fifo_def reader_ok_def)
    qed (use assms(1) w_store in \<open>auto simp: fifo_def reader_ok_def split: reader_pc.splits\<close>)
    with assms(1) w_store k lt contents_store [OF p(1) lt] show ?thesis
      by (auto simp: fifo_def writer_ok_def put_def pipe_ok_def)
  next
    case (w_store_undef)
    with p(2) show ?thesis by (simp add: buf_index_small)
  next
    case (w_bump v)
    have w: "unat (p_wpos p) < unat (p_rpos p) + 32" "w_i w < length (w_msg w)" "p_buf p (unat (p_wpos p) mod 32) = w_msg w ! w_i w"
      using assms(1) w_bump by (auto simp: fifo_def writer_ok_def)
    have v: "unat v = Suc (unat (p_wpos p))" "unat (p_wpos p) < 2147483647" using bump_Some [OF w_bump(4) p(2)] by auto
    have "contents p' = contents p @ [w_msg w ! w_i w]"
      using v(1) w(3) p(1) w_bump(1) by (simp add: contents_def pipe_ok_def)
    moreover have "put w' = put w @ [w_msg w ! w_i w]" using w(2) w_bump by (simp add: put_def take_Suc_conv_app_nth)
    moreover have "pipe_ok p'" using p(1) w(1) v w_bump(1) by (simp add: pipe_ok_def)
    moreover have "p_rpos p \<noteq> p_wpos p \<Longrightarrow> p_rpos p \<noteq> v" using v(1) p(1) by (auto simp: pipe_ok_def)
    then have "reader_ok p' r" using assms(1) w_bump by (auto simp: fifo_def reader_ok_def split: reader_pc.splits)
    ultimately show ?thesis using assms(1) w(2) w_bump by (auto simp: fifo_def writer_ok_def)
  next
    case (w_bump_undef)
    then have "\<not> unat (p_wpos p) < 2147483647" using bump_small by force
    with assms(1) w_bump_undef p(2) show ?thesis by (auto simp: fifo_def writer_ok_def put_def)
  qed (use assms(1) in \<open>auto simp: fifo_def writer_ok_def put_def\<close>)
qed

lemma fifo_run: "pipe_run p r w p' r' w' \<Longrightarrow> fifo xs ys p r w \<Longrightarrow> fifo xs ys p' r' w'"
  by (induction rule: pipe_run.induct) (auto intro: fifo_read fifo_write)

lemma run_msg: "pipe_run p r w p' r' w' \<Longrightarrow> w_msg w' = w_msg w"
  by (induction rule: pipe_run.induct) (auto elim!: write_stepE)

text \<open>C36. A pipe transports bytes in order. Start a call of \<open>devpipe_read\<close> and a call of \<open>devpipe_write\<close> on a pipe
  that holds some bytes, and let them run interleaved in any way. In every state that can be reached, the bytes that the
  reader has taken followed by those in the pipe are the bytes that were in the pipe followed by those the writer has put
  into it, so nothing is lost, repeated or overwritten; the pipe never holds more than 32 bytes. A return value of the reader
  is the number of bytes it has taken. The reader never runs into undefined behaviour, the writer only at the
  largest position that the counter can have.\<close>

theorem pipe_fifo:
  assumes "pipe_ok p" "r_pc r = RHead" "r_buf r = []" "w_pc w = WHead" "w_i w = 0" "pipe_run p r w p' r' w'"
  shows "contents p @ take (w_i w') (w_msg w) = taken r' @ contents p' \<and> length (contents p') \<le> 32 \<and>
    (\<forall>k. r_pc r' = RDone k \<longrightarrow> k = length (taken r')) \<and> r_pc r' \<noteq> RUndef \<and>
    (w_pc w' = WUndef \<longrightarrow> unat (p_wpos p') = 2147483647)"
proof -
  have "fifo (contents p) [] p r w"
    using assms(1-5) by (simp add: fifo_def reader_ok_def writer_ok_def put_def taken_def)
  then have f: "fifo (contents p) [] p' r' w'" using assms(6) by (rule fifo_run [rotated])
  then have "contents p @ take (w_i w') (w_msg w) = taken r' @ contents p'"
    using run_msg [OF assms(6)] by (simp add: fifo_def put_def)
  moreover have "length (contents p') \<le> 32" using f by (auto simp: fifo_def pipe_ok_def contents_def)
  moreover have "\<forall>k. r_pc r' = RDone k \<longrightarrow> k = length (taken r')" "r_pc r' \<noteq> RUndef" "w_pc w' = WUndef \<longrightarrow> unat (p_wpos p') = 2147483647"
    using f by (auto simp: fifo_def reader_ok_def writer_ok_def taken_def)
  ultimately show ?thesis by blast
qed

text \<open>A run in which the writer puts one byte, and the reader takes it and finds the pipe empty.\<close>

definition pipe0 :: Pipe where
  "pipe0 = \<lparr>p_rpos = 0, p_wpos = 0, p_buf = (\<lambda>_. 0)\<rparr>"

lemma one_byte:
  "pipe_run pipe0 \<lparr>r_pc = RHead, r_n = 4, r_buf = []\<rparr> \<lparr>w_pc = WHead, w_msg = [7], w_i = 0\<rparr>
    (pipe0\<lparr>p_buf := (\<lambda>_. 0)(0 := 7), p_wpos := 1, p_rpos := 1\<rparr>) \<lparr>r_pc = RDone 1, r_n = 4, r_buf = [7]\<rparr> \<lparr>w_pc = WHead, w_msg = [7], w_i = 1\<rparr>"
proof -
  let ?r = "\<lambda>pc b. \<lparr>r_pc = pc, r_n = 4, r_buf = b\<rparr>" and ?w = "\<lambda>pc i. \<lparr>w_pc = pc, w_msg = [7], w_i = i\<rparr>"
  let ?p1 = "pipe0\<lparr>p_buf := (\<lambda>_. 0)(0 := 7)\<rparr>"
  have i: "buf_index 0 = Some 0" "bump 0 = Some 1" by (simp_all add: buf_index_def bump_def)
  let ?p2 = "?p1\<lparr>p_wpos := 1\<rparr>" and ?p3 = "?p1\<lparr>p_wpos := 1, p_rpos := 1\<rparr>"
  have w: "write_step pipe0 (?w WHead 0) pipe0 (?w (WTest 0) 0)" "write_step pipe0 (?w (WTest 0) 0) pipe0 (?w WStore 0)"
    "write_step pipe0 (?w WStore 0) ?p1 (?w WBump 0)" "write_step ?p1 (?w WBump 0) ?p2 (?w WHead 1)"
    using w_load [of "?w WHead 0" pipe0] w_room [of "?w (WTest 0) 0" 0 pipe0] w_store [of "?w WStore 0" pipe0 0]
      w_bump [of "?w WBump 0" ?p1 1] i by (simp_all add: pipe0_def)
  have r: "read_step ?p2 (?r RHead []) ?p2 (?r (RTest 0) [])" "read_step ?p2 (?r (RTest 0) []) ?p2 (?r RTake [])"
    "read_step ?p2 (?r RTake []) ?p2 (?r RBump [7])" "read_step ?p2 (?r RBump [7]) ?p3 (?r RHead [7])"
    "read_step ?p3 (?r RHead [7]) ?p3 (?r (RTest 1) [7])" "read_step ?p3 (?r (RTest 1) [7]) ?p3 (?r (RDone 1) [7])"
    using r_load [of "?r RHead []" ?p2] r_data [of "?r (RTest 0) []" 0 ?p2] r_take [of "?r RTake []" ?p2 0]
      r_bump [of "?r RBump [7]" ?p2 1] r_load [of "?r RHead [7]" ?p3] r_part [of "?r (RTest 1) [7]" 1 ?p3] i
    by (simp_all add: pipe0_def)
  note W = pipe_run.writer [OF pipe_run.writer [OF pipe_run.writer [OF pipe_run.writer [OF start w(1)] w(2)] w(3)] w(4)]
  show ?thesis
    by (rule pipe_run.reader [OF pipe_run.reader [OF pipe_run.reader [OF pipe_run.reader [OF
      pipe_run.reader [OF pipe_run.reader [OF W r(1)] r(2)] r(3)] r(4)] r(5)] r(6)])
qed

theorem pipe_fifo_witness:
  "taken \<lparr>r_pc = RDone 1, r_n = 4, r_buf = [7]\<rparr> @ contents (pipe0\<lparr>p_buf := (\<lambda>_. 0)(0 := 7), p_wpos := 1, p_rpos := 1\<rparr>) = [7]"
proof -
  have "pipe_ok pipe0" "contents pipe0 = []" by (simp_all add: pipe_ok_def contents_def pipe0_def)
  with pipe_fifo [OF _ _ _ _ _ one_byte] show ?thesis by simp
qed



end
