(* ===== verification/Kdebug.thy ===== *)
theory Kdebug
  imports CString "HOL-Library.Signed_Division"
begin

text \<open>
  The search in the debugging tables of the kernel (kern/kdebug.c). A table of \<open>struct Stab\<close> is a function from
  indices, which are C integers, to entries; the string table is a function from offsets to bytes.

  Proved: the binary search ends for every table and looks only at the entries of its region; in a sorted table
  it finds the entry that contains the address, unless another entry starts at the next address.
\<close>

unbundle bit_operations_syntax

section \<open>Tables (inc/stab.h)\<close>

record Stab =
  n_strx :: u32
  n_type :: u8
  n_other :: u8
  n_desc :: u16
  n_value :: u32

definition N_FUN :: u8 where [simp]: "N_FUN = 0x24"
definition N_SLINE :: u8 where [simp]: "N_SLINE = 0x44"
definition N_SO :: u8 where [simp]: "N_SO = 0x64"
definition N_SOL :: u8 where [simp]: "N_SOL = 0x84"
definition N_PSYM :: u8 where [simp]: "N_PSYM = 0xa0"

section \<open>Binary search\<close>

text \<open>The loops that go down from \<open>m\<close> to an entry of the type, at most to \<open>l - 1\<close>.\<close>

function back_scan :: "(int \<Rightarrow> Stab) \<Rightarrow> u8 \<Rightarrow> int \<Rightarrow> int \<Rightarrow> int" where
  "back_scan stabs ty l m = (if m \<ge> l \<and> n_type (stabs m) \<noteq> ty then back_scan stabs ty l (m - 1) else m)"
  by pat_completeness auto

termination back_scan
  by (relation "measure (\<lambda>(stabs, ty, l, m). nat (m + 1 - l))") auto

declare back_scan.simps [simp del]

lemma back_scan_result:
  "back_scan stabs ty l m \<le> m \<and> (l - 1 \<le> m \<longrightarrow> l - 1 \<le> back_scan stabs ty l m) \<and>
   (l \<le> back_scan stabs ty l m \<longrightarrow> n_type (stabs (back_scan stabs ty l m)) = ty) \<and>
   (\<forall>i. back_scan stabs ty l m < i \<and> i \<le> m \<longrightarrow> n_type (stabs i) \<noteq> ty)"
proof (induction stabs ty l m rule: back_scan.induct)
  case (1 stabs ty l m)
  show ?case
  proof (cases "m \<ge> l \<and> n_type (stabs m) \<noteq> ty")
    case True
    then have e: "back_scan stabs ty l m = back_scan stabs ty l (m - 1)" by (subst back_scan.simps) simp
    have "\<forall>i. back_scan stabs ty l (m - 1) < i \<and> i \<le> m \<longrightarrow> n_type (stabs i) \<noteq> ty"
    proof (intro allI impI)
      fix i
      assume "back_scan stabs ty l (m - 1) < i \<and> i \<le> m"
      with 1 [OF True] True show "n_type (stabs i) \<noteq> ty" by (cases "i = m") auto
    qed
    with 1 [OF True] True show ?thesis unfolding e by auto
  next
    case False
    then have "back_scan stabs ty l m = m" by (subst back_scan.simps) auto
    with False show ?thesis by auto
  qed
qed

lemma middle: "l \<le> r \<Longrightarrow> l \<le> (l + r) sdiv 2 \<and> (l + r) sdiv 2 \<le> (r :: int)"
  by (auto simp: signed_divide_int_def sgn_if)

function binsearch_loop :: "(int \<Rightarrow> Stab) \<Rightarrow> u8 \<Rightarrow> int \<Rightarrow> int \<Rightarrow> int \<Rightarrow> int \<Rightarrow> bool \<Rightarrow> u32 \<Rightarrow> int \<times> int \<times> bool" where
  "binsearch_loop stabs ty l r left right any_matches addr =
    (if l \<le> r then
       let true_m = (l + r) sdiv 2;
           m = back_scan stabs ty l true_m
       in if m < l then binsearch_loop stabs ty (true_m + 1) r left right any_matches addr
          else if n_value (stabs m) < addr then binsearch_loop stabs ty (true_m + 1) r m right True addr
          else if n_value (stabs m) > addr then binsearch_loop stabs ty l (m - 1) left (m - 1) True addr
          else binsearch_loop stabs ty m r m right True (addr + 1)
     else (left, right, any_matches))"
  by pat_completeness auto

text \<open>
  An exact match leaves the lower end at \<open>m\<close>: the region need not get smaller, but the entry there does not match
  again, because the address has been moved on.
\<close>

termination binsearch_loop
proof (relation "measure (\<lambda>(stabs, ty, l, r, left, right, any_matches, addr).
    2 * nat (r + 1 - l) + (if n_value (stabs l) = addr then 1 else 0))", goal_cases)
  case (2 stabs ty l r left right any_matches addr true_m m)
  with middle [of l r] show ?case by auto
next
  case (3 stabs ty l r left right any_matches addr true_m m)
  with middle [of l r] show ?case by auto
next
  case (4 stabs ty l r left right any_matches addr true_m m)
  with middle [of l r] back_scan_result [of stabs ty l true_m] show ?case by auto
next
  case (5 stabs ty l r left right any_matches addr true_m m)
  have "m \<le> true_m" "true_m \<le> r" using 5 middle [of l r] back_scan_result [of stabs ty l true_m] by auto
  moreover have "n_value (stabs m) = addr" using 5 by auto
  ultimately show ?case using 5 by (cases "m = l") auto
qed simp

declare binsearch_loop.simps [simp del]

definition stab_binsearch :: "(int \<Rightarrow> Stab) \<Rightarrow> int \<Rightarrow> int \<Rightarrow> u8 \<Rightarrow> u32 \<Rightarrow> int \<times> int" where
  "stab_binsearch stabs region_left region_right ty addr =
    (let (left, right, any_matches) = binsearch_loop stabs ty region_left region_right region_left region_right False addr
     in if \<not> any_matches then (left, left - 1)
        else (back_scan stabs ty (left + 1) right, right))"

section \<open>Source positions\<close>

text \<open>
  \<open>debuginfo_eip\<close> for kernel addresses: the table has \<open>n\<close> entries, the string table \<open>strsz\<close> bytes. A name is None for
  \<open><unknown>\<close> or an offset in the string table.
\<close>

record Eipdebuginfo =
  eip_file :: "u32 option"
  eip_line :: u32
  eip_fn_name :: "u32 option"
  eip_fn_namelen :: u32
  eip_fn_addr :: u32
  eip_fn_narg :: nat

definition unknown :: "u8 list" where
  "unknown = [60, 117, 110, 107, 110, 111, 119, 110, 62]"

definition info_init :: "u32 \<Rightarrow> Eipdebuginfo" where
  "info_init addr = \<lparr>eip_file = None, eip_line = 0, eip_fn_name = None, eip_fn_namelen = 9, eip_fn_addr = addr, eip_fn_narg = 0\<rparr>"

text \<open>The entry that names the file: the search back from the line to \<open>lfile\<close>.\<close>

function file_scan :: "(int \<Rightarrow> Stab) \<Rightarrow> int \<Rightarrow> int \<Rightarrow> int" where
  "file_scan stabs lfile lline =
    (if lline \<ge> lfile \<and> n_type (stabs lline) \<noteq> N_SOL \<and> (n_type (stabs lline) \<noteq> N_SO \<or> n_value (stabs lline) = 0)
     then file_scan stabs lfile (lline - 1) else lline)"
  by pat_completeness auto

termination file_scan
  by (relation "measure (\<lambda>(stabs, lfile, lline). nat (lline + 1 - lfile))") auto

function count_args :: "(int \<Rightarrow> Stab) \<Rightarrow> int \<Rightarrow> int \<Rightarrow> nat" where
  "count_args stabs lline rfun =
    (if lline < rfun \<and> n_type (stabs lline) = N_PSYM then Suc (count_args stabs (lline + 1) rfun) else 0)"
  by pat_completeness auto

termination count_args
  by (relation "measure (\<lambda>(stabs, lline, rfun). nat (rfun - lline))") auto

declare file_scan.simps [simp del] count_args.simps [simp del]

definition debuginfo_kernel ::
    "(int \<Rightarrow> Stab) \<Rightarrow> int \<Rightarrow> u32 \<Rightarrow> u32 \<Rightarrow> (u32 \<Rightarrow> u8) \<Rightarrow> ((u32 \<Rightarrow> u8), int \<times> Eipdebuginfo) res" where
  "debuginfo_kernel stabs n strsz addr stabstr =
    (let info = info_init addr in
     if strsz = 0 \<or> stabstr (strsz - 1) \<noteq> 0 then Inr ((- 1, info), stabstr)
     else
       let (lfile, rfile) = stab_binsearch stabs 0 (n - 1) N_SO addr in
       if lfile = 0 then Inr ((- 1, info), stabstr)
       else
         let (lfun, rfun) = stab_binsearch stabs lfile rfile N_FUN addr;
             (info, addr, lline, rline) =
               (if lfun \<le> rfun then
                  let info = (if n_strx (stabs lfun) < strsz then info\<lparr>eip_fn_name := Some (n_strx (stabs lfun))\<rparr> else info)
                  in (info\<lparr>eip_fn_addr := n_value (stabs lfun)\<rparr>, addr - n_value (stabs lfun), lfun, rfun)
                else (info\<lparr>eip_fn_addr := addr\<rparr>, addr, lfile, rfile))
         in bindR (case eip_fn_name info of
                     None \<Rightarrow> strfind (text_load unknown) 0 58 stabstr
                   | Some p \<Rightarrow> bindR (strfind flat_load p 58 stabstr) (\<lambda>(q, m). Inr (q - p, m))) (\<lambda>(len, stabstr).
            let (lline, rline) = stab_binsearch stabs lline rline N_SLINE addr;
                info = info\<lparr>eip_fn_namelen := len, eip_line := n_value (stabs lline)\<rparr>;
                lline = file_scan stabs lfile lline;
                info = (if lline \<ge> lfile \<and> n_strx (stabs lline) < strsz then info\<lparr>eip_file := Some (n_strx (stabs lline))\<rparr> else info);
                info = (if lfun < rfun then info\<lparr>eip_fn_narg := count_args stabs (lfun + 1) rfun\<rparr> else info)
            in Inr ((0, info), stabstr)))"

section \<open>Correctness of the search\<close>

definition matches :: "(int \<Rightarrow> Stab) \<Rightarrow> u8 \<Rightarrow> int \<Rightarrow> int \<Rightarrow> int \<Rightarrow> bool" where
  "matches stabs ty L R i \<longleftrightarrow> L \<le> i \<and> i \<le> R \<and> n_type (stabs i) = ty"

text \<open>The entries of the type are sorted by address, and none starts at the address after \<open>addr\<close>.\<close>

definition sorted_for :: "(int \<Rightarrow> Stab) \<Rightarrow> u8 \<Rightarrow> int \<Rightarrow> int \<Rightarrow> u32 \<Rightarrow> bool" where
  "sorted_for stabs ty L R addr \<longleftrightarrow> addr < addr + 1 \<and>
    (\<forall>i j. matches stabs ty L R i \<and> matches stabs ty L R j \<and> i \<le> j \<longrightarrow> n_value (stabs i) \<le> n_value (stabs j)) \<and>
    (\<forall>i. matches stabs ty L R i \<longrightarrow> n_value (stabs i) \<noteq> addr + 1)"

text \<open>What the loop maintains: \<open>a\<close> is the address that is searched for, \<open>addr\<close> its current value in the loop.\<close>

definition search_inv :: "(int \<Rightarrow> Stab) \<Rightarrow> u8 \<Rightarrow> int \<Rightarrow> int \<Rightarrow> u32 \<Rightarrow> int \<Rightarrow> int \<Rightarrow> int \<Rightarrow> int \<Rightarrow> bool \<Rightarrow> u32 \<Rightarrow> bool" where
  "search_inv stabs ty L R a l r left right any_matches addr \<longleftrightarrow>
    L \<le> l \<and> r \<le> R \<and> l \<le> r + 1 \<and> right = r \<and> (addr = a \<or> addr = a + 1) \<and>
    (\<forall>i. matches stabs ty L R i \<and> r < i \<longrightarrow> a < n_value (stabs i)) \<and> (r < R \<longrightarrow> matches stabs ty L R (r + 1)) \<and>
    (\<forall>i. matches stabs ty L R i \<and> i < l \<longrightarrow> n_value (stabs i) \<le> a \<and> i \<le> left) \<and>
    (matches stabs ty L R left \<and> n_value (stabs left) \<le> a \<and> left \<le> l \<and> any_matches \<or> left = L \<and> (\<forall>i<l. \<not> matches stabs ty L R i)) \<and>
    (any_matches \<or> r = R \<and> left = L) \<and> (any_matches \<longrightarrow> (\<exists>i. matches stabs ty L R i))"

lemma next_addr:
  assumes "(a :: u32) < a + 1"
  shows "x < a + 1 \<longleftrightarrow> x \<le> a" "a + 1 < x \<Longrightarrow> a < x"
proof -
  have "unat a < unat (a + 1)" using assms by (simp add: word_less_nat_alt)
  moreover have "unat (a + 1) = (unat a + 1) mod 4294967296" by (simp add: unat_word_ariths)
  moreover have "unat a < 4294967296" using unsigned_less [of a, where 'a = nat] by simp
  ultimately have "unat (a + 1) = Suc (unat a)"
    by (cases "unat a = 4294967295") auto
  then show "x < a + 1 \<longleftrightarrow> x \<le> a" "a + 1 < x \<Longrightarrow> a < x"
    by (auto simp: word_less_nat_alt word_le_nat_alt)
qed

lemma search_loop:
  assumes "search_inv stabs ty L R a l r left right any_matches addr" "sorted_for stabs ty L R a"
    "binsearch_loop stabs ty l r left right any_matches addr = (left', right', any')"
  shows "\<exists>l' addr'. search_inv stabs ty L R a l' right' left' right' any' addr' \<and> l' = right' + 1"
  using assms
proof (induction stabs ty l r left right any_matches addr rule: binsearch_loop.induct)
  case (1 stabs ty l r left right any_matches addr)
  let ?M = "matches stabs ty L R"
  show ?case
  proof (cases "l \<le> r")
    case False
    then have "(left, right, any_matches) = (left', right', any')" "l = r + 1"
      using "1.prems"(1,3) by (auto simp: binsearch_loop.simps [of stabs ty l] search_inv_def)
    with "1.prems"(1) show ?thesis by (auto simp: search_inv_def)
  next
    case True
    define t where "t = (l + r) sdiv 2"
    define m where "m = back_scan stabs ty l t"
    have t: "l \<le> t" "t \<le> r" using middle [OF True] by (simp_all add: t_def)
    have m: "m \<le> t" "l - 1 \<le> m" "l \<le> m \<Longrightarrow> n_type (stabs m) = ty" "\<And>i. m < i \<Longrightarrow> i \<le> t \<Longrightarrow> \<not> ?M i"
      using back_scan_result [of stabs ty l t] t(1) by (auto simp: m_def matches_def)
    have lr: "L \<le> l" "r \<le> R" using "1.prems"(1) by (auto simp: search_inv_def)
    note IH = "1.IH" [OF True t_def m_def]
    have e: "binsearch_loop stabs ty l r left right any_matches addr =
      (if m < l then binsearch_loop stabs ty (t + 1) r left right any_matches addr
       else if n_value (stabs m) < addr then binsearch_loop stabs ty (t + 1) r m right True addr
       else if n_value (stabs m) > addr then binsearch_loop stabs ty l (m - 1) left (m - 1) True addr
       else binsearch_loop stabs ty m r m right True (addr + 1))"
      using True by (simp add: binsearch_loop.simps [of stabs ty l] t_def m_def Let_def)
    have a: "a < a + 1" and srt: "\<And>i j. ?M i \<Longrightarrow> ?M j \<Longrightarrow> i \<le> j \<Longrightarrow> n_value (stabs i) \<le> n_value (stabs j)"
      and ne: "\<And>i. ?M i \<Longrightarrow> n_value (stabs i) \<noteq> a + 1"
      using "1.prems"(2) by (auto simp: sorted_for_def)
    show ?thesis
    proof (cases "m < l")
      case none: True
      have k: "i < l" if "?M i" "i < t + 1" for i using m(4) [of i] that none by force
      have b: "\<forall>i. ?M i \<and> i < t + 1 \<longrightarrow> n_value (stabs i) \<le> a \<and> i \<le> left"
        using "1.prems"(1) k unfolding search_inv_def by blast
      have "?M left \<and> n_value (stabs left) \<le> a \<and> left \<le> l \<and> any_matches \<or> left = L \<and> (\<forall>i<l. \<not> ?M i)"
        using "1.prems"(1) by (simp add: search_inv_def)
      then have "?M left \<and> n_value (stabs left) \<le> a \<and> left \<le> t + 1 \<and> any_matches \<or> left = L \<and> (\<forall>i<t + 1. \<not> ?M i)"
        using k t by (elim disjE) auto
      with b have "search_inv stabs ty L R a (t + 1) r left right any_matches addr"
        using "1.prems"(1) t by (simp add: search_inv_def)
      with IH(1) [OF none] "1.prems"(2,3) e none show ?thesis by simp
    next
      case False
      then have M: "?M m" using m(1,3) t lr by (simp add: matches_def)
      have low: "n_value (stabs i) \<le> a \<and> i \<le> m" if "?M i" "i < t + 1" "n_value (stabs m) \<le> a" for i
      proof -
        have "i \<le> m" using that m(4) [of i] by force
        with srt [OF that(1) M] that(3) show ?thesis by auto
      qed
      consider "n_value (stabs m) < addr" | "n_value (stabs m) > addr" | "n_value (stabs m) = addr" by force
      then show ?thesis
      proof cases
        case less: 1
        have "n_value (stabs m) \<le> a" using less "1.prems"(1) next_addr(1) [OF a] by (auto simp: search_inv_def)
        with low have "search_inv stabs ty L R a (t + 1) r m right True addr"
          using "1.prems"(1) t m(1) M by (auto simp: search_inv_def)
        with IH(2) [OF False less] "1.prems"(2,3) e False less show ?thesis by simp
      next
        case greater: 2
        have "a < n_value (stabs m)" using greater "1.prems"(1) next_addr(2) [OF a] by (auto simp: search_inv_def)
        then have "a < n_value (stabs i)" if "?M i" "m - 1 < i" for i using srt [OF M that(1)] that(2) by force
        then have "search_inv stabs ty L R a l (m - 1) left (m - 1) True addr"
          using "1.prems"(1) t m(1) M False by (auto simp: search_inv_def)
        moreover have "\<not> n_value (stabs m) < addr" using greater by simp
        ultimately show ?thesis using IH(3) [OF False _ greater] "1.prems"(2,3) e False greater by simp
      next
        case equal: 3
        have "addr = a" using equal ne [OF M] "1.prems"(1) by (auto simp: search_inv_def)
        with low equal have "search_inv stabs ty L R a m r m right True (addr + 1)"
          using "1.prems"(1) t m(1) M False by (auto simp: search_inv_def)
        with IH(4) [OF False] "1.prems"(2,3) e False equal show ?thesis by simp
      qed
    qed
  qed
qed

text \<open>The back scan from the right end stops at \<open>left\<close> if no entry in between matches.\<close>

lemma back_scan_none:
  assumes "\<And>i. left < i \<Longrightarrow> i \<le> right \<Longrightarrow> n_type (stabs i) \<noteq> ty"
  shows "back_scan stabs ty (left + 1) right = (if left \<le> right then left else right)"
proof (cases "left \<le> right")
  case True
  have "\<not> left + 1 \<le> back_scan stabs ty (left + 1) right"
    using back_scan_result [of stabs ty "left + 1" right] assms by auto
  with True back_scan_result [of stabs ty "left + 1" right] show ?thesis by auto
next
  case False
  then show ?thesis by (subst back_scan.simps) simp
qed

section \<open>Properties\<close>

text \<open>C39. \<open>stab_binsearch\<close> finds the entry that contains the address. For every table the search ends. If the entries of the
  type in the region are sorted by address and none of them starts at \<open>addr + 1\<close>, then: if some of them start at or below
  \<open>addr\<close>, the left end becomes the last of these and the right end the index before the next entry of the type, or the end of the
  region; if all start above \<open>addr\<close>, the right end becomes the index before the first one; and if there are no entries of
  the type the region becomes empty.\<close>

theorem stab_binsearch_correct:
  assumes "sorted_for stabs ty L R addr" "L \<le> R + 1" "stab_binsearch stabs L R ty addr = (l, r)"
  shows "if \<exists>i. matches stabs ty L R i \<and> n_value (stabs i) \<le> addr
    then matches stabs ty L R l \<and> n_value (stabs l) \<le> addr \<and> (\<forall>i. matches stabs ty L R i \<and> n_value (stabs i) \<le> addr \<longrightarrow> i \<le> l) \<and>
      l \<le> r \<and> r \<le> R \<and> (\<forall>i. l < i \<and> i \<le> r \<longrightarrow> \<not> matches stabs ty L R i) \<and> (r < R \<longrightarrow> matches stabs ty L R (r + 1))
    else if \<exists>i. matches stabs ty L R i
    then matches stabs ty L R (r + 1) \<and> (\<forall>i. matches stabs ty L R i \<longrightarrow> r < i) \<and> l = (if L \<le> r then L else r)
    else l = L \<and> r = L - 1"
proof -
  let ?M = "matches stabs ty L R"
  obtain left right any' where b: "binsearch_loop stabs ty L R L R False addr = (left, right, any')"
    by (cases "binsearch_loop stabs ty L R L R False addr") auto
  have "search_inv stabs ty L R addr L R L R False addr"
    using assms(2) by (auto simp: search_inv_def matches_def)
  then obtain a' where inv: "search_inv stabs ty L R addr (right + 1) right left right any' a'"
    using search_loop [OF _ assms(1) b] by blast
  have low: "n_value (stabs i) \<le> addr \<and> i \<le> left" if "?M i" "i \<le> right" for i
    using inv that unfolding search_inv_def by force
  have high: "addr < n_value (stabs i)" if "?M i" "right < i" for i
    using inv that unfolding search_inv_def by blast
  have D: "?M left \<and> n_value (stabs left) \<le> addr \<and> any' \<or> left = L \<and> (\<forall>i<right + 1. \<not> ?M i)" "any' \<or> right = R \<and> left = L"
    "right \<le> R" "L \<le> right + 1" "right < R \<longrightarrow> ?M (right + 1)"
    "any' \<longrightarrow> (\<exists>i. ?M i)"
    using inv by (simp_all add: search_inv_def) blast+
  have M: "L \<le> i \<and> i \<le> R" if "?M i" for i using that by (simp add: matches_def)
  have ns: "n_type (stabs i) \<noteq> ty" if "left < i" "i \<le> right" "L \<le> left" for i
    using low [of i] that D(3) by (auto simp: matches_def)
  have lr: "(l, r) = (if any' then (if left \<le> right then left else right, right) else (left, left - 1))"
    using assms(3) b back_scan_none [of left right stabs ty] ns D(1) M by (auto simp: stab_binsearch_def)
  show ?thesis
  proof (cases "?M left \<and> n_value (stabs left) \<le> addr \<and> any'")
    case True
    then have "left \<le> right" using high [of left] by force
    then have lr': "l = left" "r = right" using lr True by simp_all
    have "i \<le> left" if "?M i" "n_value (stabs i) \<le> addr" for i
      using low [of i] high [of i] that by force
    moreover have "\<not> ?M i" if "left < i" "i \<le> right" for i using low [of i] that by force
    ultimately show ?thesis using True lr' D(3,5) \<open>left \<le> right\<close> by auto
  next
    case False
    then have n: "left = L" "\<forall>i<right + 1. \<not> ?M i" using D(1) by blast+
    have n2: "right < i" if "?M i" for i
    proof (rule ccontr)
      assume "\<not> right < i"
      then have "i < right + 1" by simp
      with n(2) that show False by blast
    qed
    have no: "\<not> (\<exists>i. ?M i \<and> n_value (stabs i) \<le> addr)" using n2 high by force
    show ?thesis
    proof (cases "\<exists>i. ?M i")
      case True
      then have "right < R" using n2 M by force
      then have "any'" "?M (right + 1)" using D(2,5) by auto
      with no True lr n(1) n2 show ?thesis by auto
    next
      case False
      then show ?thesis using no lr n(1) D(6) by auto
    qed
  qed
qed

definition small_stabs :: "int \<Rightarrow> Stab" where
  "small_stabs i = \<lparr>n_strx = 0, n_type = (if i = 0 \<or> i = 2 then N_FUN else N_SLINE), n_other = 0, n_desc = 0,
     n_value = (if i = 0 then 16 else if i = 2 then 32 else 0)\<rparr>"

theorem stab_binsearch_correct_witness:
  "\<exists>l r. stab_binsearch small_stabs 0 3 N_FUN 20 = (l, r) \<and> l = 0 \<and> r = 1"
proof -
  have m: "matches small_stabs N_FUN 0 3 i \<longleftrightarrow> i = 0 \<or> i = 2" for i
    by (auto simp: matches_def small_stabs_def)
  have v: "n_value (small_stabs 0) = 16" "n_value (small_stabs 2) = 32" by (simp_all add: small_stabs_def)
  have s: "sorted_for small_stabs N_FUN 0 3 20"
    unfolding sorted_for_def m using v by auto
  obtain l r where lr: "stab_binsearch small_stabs 0 3 N_FUN 20 = (l, r)" by (cases "stab_binsearch small_stabs 0 3 N_FUN 20")
  have "\<exists>i. matches small_stabs N_FUN 0 3 i \<and> n_value (small_stabs i) \<le> 20" unfolding m using v by auto
  with stab_binsearch_correct [OF s _ lr]
  have "matches small_stabs N_FUN 0 3 l" "n_value (small_stabs l) \<le> 20" "l \<le> r" "r \<le> 3"
    "\<forall>i. l < i \<and> i \<le> r \<longrightarrow> \<not> matches small_stabs N_FUN 0 3 i" "r < 3 \<longrightarrow> matches small_stabs N_FUN 0 3 (r + 1)"
    by auto
  note f = this
  have "l = 0" using f(1,2) v unfolding m by auto
  moreover have "r < 2" using spec [OF f(5), of 2] unfolding m calculation by simp
  then have "r + 1 = 0 \<or> r + 1 = 2" using f(6) unfolding m by simp
  then have "r = 1" using f(3) calculation by auto
  ultimately show ?thesis using lr by blast
qed

text \<open>Two entries at consecutive addresses confuse the search: with an entry that starts at \<open>addr\<close> and the next one at
  \<open>addr + 1\<close>, \<open>stab_binsearch\<close> for \<open>addr\<close> returns the second one, which does not contain \<open>addr\<close>. The search counts an exact match by
  moving the address on, and then matches the next entry exactly.\<close>

lemma stab_binsearch_adjacent:
  assumes "n_type (stabs 0) = ty" "n_type (stabs 1) = ty" "n_value (stabs 0) = addr" "n_value (stabs 1) = addr + 1"
    "addr < addr + 1" "addr + 1 < addr + 2"
  shows "stab_binsearch stabs 0 1 ty addr = (1, 1) \<and> addr < n_value (stabs 1)"
proof -
  have b: "back_scan stabs ty l 0 = 0" "back_scan stabs ty l 1 = 1" for l
    using assms(1,2) by (simp_all add: back_scan.simps [of stabs ty l])
  have d: "(0 + 1) sdiv 2 = (0 :: int)" "(1 + 1) sdiv 2 = (1 :: int)" by (simp_all add: signed_divide_int_def)
  have "binsearch_loop stabs ty 0 1 0 1 False addr = binsearch_loop stabs ty 0 1 0 1 True (addr + 1)"
    by (subst binsearch_loop.simps) (simp add: b d [simplified] assms)
  also have "\<dots> = binsearch_loop stabs ty 1 1 0 1 True (addr + 1)"
    by (subst binsearch_loop.simps) (simp add: b d [simplified] assms)
  also have "\<dots> = binsearch_loop stabs ty 1 1 1 1 True (addr + 2)"
    by (subst binsearch_loop.simps) (simp add: b d [simplified] assms add.assoc)
  also have "\<dots> = binsearch_loop stabs ty 2 1 1 1 True (addr + 2)"
    using assms(6) by (subst binsearch_loop.simps) (simp add: b d [simplified] assms)
  also have "\<dots> = (1, 1, True)" by (subst binsearch_loop.simps) simp
  finally show ?thesis using b(2) assms by (simp add: stab_binsearch_def)
qed

end
