(* ===== verification/Console.thy ===== *)
theory Console
  imports Prelude
begin

text \<open>
  The console driver kern/console.c: keyboard scan code translation, the circular input buffer
  filled by the keyboard and serial interrupt routines, and the text-mode display. The devices
  themselves are the fields \<open>kbd_in\<close> and \<open>serial_in\<close> (bytes waiting in the controllers) and
  \<open>serial_out\<close>, \<open>lpt_out\<close>, \<open>crt_cursor\<close>, \<open>rebooted\<close> (what the driver wrote to the ports).
  Proved: the input buffer is a bounded queue (a locale of its own, \<open>bounded_queue\<close>), what happens
  when it overruns, and that the display position never leaves the screen.
\<close>

unbundle bit_operations_syntax

section \<open>State\<close>

definition CONSBUFSIZE :: u32 where [simp]: "CONSBUFSIZE = 512"
definition CRT_COLS :: u16 where [simp]: "CRT_COLS = 80"
definition CRT_SIZE :: u16 where [simp]: "CRT_SIZE = 2000"

record console =
  cbuf :: "nat \<Rightarrow> u8"
  rpos :: u32
  wpos :: u32
  shift :: u32
  serial_exists :: bool
  crt_buf :: "nat \<Rightarrow> u16"
  crt_pos :: u16
  crt_cursor :: u16
  kbd_in :: "u8 list"
  serial_in :: "u8 list"
  serial_out :: "u8 list"
  lpt_out :: "u8 list"
  rebooted :: bool

section \<open>Keyboard\<close>

definition SHIFT :: u32 where [simp]: "SHIFT = 1"
definition CTL :: u32 where [simp]: "CTL = 2"
definition ALT :: u32 where [simp]: "ALT = 4"
definition CAPSLOCK :: u32 where [simp]: "CAPSLOCK = 8"
definition NUMLOCK :: u32 where [simp]: "NUMLOCK = 16"
definition SCROLLLOCK :: u32 where [simp]: "SCROLLLOCK = 32"
definition E0ESC :: u32 where [simp]: "E0ESC = 64"

text \<open>An initialised table of the source: positional entries first, then designated ones, rest 0.\<close>

definition table :: "u8 list \<Rightarrow> (u8 \<times> u8) list \<Rightarrow> u8 \<Rightarrow> u8" where
  "table xs ys d = (case map_of ys d of Some v \<Rightarrow> v
     | None \<Rightarrow> (if unat d < length xs then xs ! unat d else 0))"

definition shiftcode :: "u8 \<Rightarrow> u8" where
  "shiftcode = table [] [(0x1D, 2), (0x2A, 1), (0x36, 1), (0x38, 4), (0x9D, 2), (0xB8, 4)]"

definition togglecode :: "u8 \<Rightarrow> u8" where
  "togglecode = table [] [(0x3A, 8), (0x45, 16), (0x46, 32)]"

definition special_keys :: "(u8 \<times> u8) list" where
  "special_keys = [(0xC7, 0xE0), (0x9C, 10), (0xB5, 0x2F), (0xC8, 0xE2), (0xC9, 0xE6),
     (0xCB, 0xE4), (0xCD, 0xE5), (0xCF, 0xE1), (0xD0, 0xE3), (0xD1, 0xE7), (0xD2, 0xE8),
     (0xD3, 0xE9)]"

definition normalmap :: "u8 \<Rightarrow> u8" where
  "normalmap = table
    ([0, 0x1B] @ map of_char ''1234567890-='' @ [8, 9] @ map of_char ''qwertyuiop[]'' @ [10, 0]
     @ map of_char ''asdfghjkl;'' @ [0x27, 0x60, 0, 0x5C] @ map of_char ''zxcvbnm,./'' @ [0, 0x2A]
     @ [0, 0x20, 0, 0, 0, 0, 0, 0] @ [0, 0, 0, 0, 0, 0, 0] @ map of_char ''789-456+1230.''
     @ [0, 0, 0, 0]) special_keys"

definition shiftmap :: "u8 \<Rightarrow> u8" where
  "shiftmap = table
    ([0, 0x1B] @ map of_char ''!@#$%^&*()_+'' @ [8, 9] @ map of_char ''QWERTYUIOP{}'' @ [10, 0]
     @ map of_char ''ASDFGHJKL:'' @ [0x22, 0x7E, 0, 0x7C] @ map of_char ''ZXCVBNM<>?'' @ [0, 0x2A]
     @ [0, 0x20, 0, 0, 0, 0, 0, 0] @ [0, 0, 0, 0, 0, 0, 0] @ map of_char ''789-456+1230.''
     @ [0, 0, 0, 0]) special_keys"

definition ctl :: "char \<Rightarrow> u8" where
  "ctl x = of_char x - of_char CHR ''@''"

definition ctlmap :: "u8 \<Rightarrow> u8" where
  "ctlmap = table
    (replicate 16 0 @ map ctl ''QWERTYUIOP'' @ [0, 0, 13, 0] @ map ctl ''ASDFGHJKL''
     @ [0, 0, 0, 0, 0x1C] @ map ctl ''ZXCVBNM'' @ [0, 0] @ [ctl CHR ''/'', 0, 0])
    [(0x97, 0xE0), (0xB5, ctl CHR ''/''), (0xC8, 0xE2), (0xC9, 0xE6), (0xCB, 0xE4), (0xCD, 0xE5),
     (0xCF, 0xE1), (0xD0, 0xE3), (0xD1, 0xE7), (0xD2, 0xE8), (0xD3, 0xE9)]"

definition charcode :: "u32 \<Rightarrow> u8 \<Rightarrow> u8" where
  "charcode i = (if i = 0 then normalmap else if i = 1 then shiftmap else ctlmap)"

definition kbd_proc_data :: "console \<Rightarrow> int \<times> console" where
  "kbd_proc_data s = (case kbd_in s of
     [] \<Rightarrow> (-1, s)
   | data # rest \<Rightarrow>
      (let s = s\<lparr>kbd_in := rest\<rparr> in
       if data = 0xE0 then (0, s\<lparr>shift := shift s OR E0ESC\<rparr>)
       else if data AND 0x80 \<noteq> 0 then
         (let data = (if shift s AND E0ESC \<noteq> 0 then data else data AND 0x7F)
          in (0, s\<lparr>shift := shift s AND NOT (ucast (shiftcode data) OR E0ESC)\<rparr>))
       else
         (let esc = shift s AND E0ESC \<noteq> 0;
              data = (if esc then data OR 0x80 else data);
              sh = (if esc then shift s AND NOT E0ESC else shift s);
              sh = sh OR ucast (shiftcode data);
              sh = sh XOR ucast (togglecode data);
              c = uint (charcode (sh AND (CTL OR SHIFT)) data);
              c = (if sh AND CAPSLOCK \<noteq> 0
                   then (if 97 \<le> c \<and> c \<le> 122 then c - 32
                         else if 65 \<le> c \<and> c \<le> 90 then c + 32 else c)
                   else c)
          in (c, s\<lparr>shift := sh,
                   rebooted := (rebooted s \<or> (NOT sh AND (CTL OR ALT) = 0 \<and> c = 0xE9))\<rparr>))))"

definition serial_proc_data :: "console \<Rightarrow> int \<times> console" where
  "serial_proc_data s = (case serial_in s of
     [] \<Rightarrow> (-1, s)
   | b # rest \<Rightarrow> (uint b, s\<lparr>serial_in := rest\<rparr>))"

section \<open>The input buffer\<close>

text \<open>
  \<open>cons_intr\<close> is called with one of two function pointers. Each call that does not return -1 takes
  a byte from its device, so the polling loop ends.
\<close>

datatype intr_source = Kbd | Serial

definition proc_data :: "intr_source \<Rightarrow> console \<Rightarrow> int \<times> console" where
  "proc_data p = (case p of Kbd \<Rightarrow> kbd_proc_data | Serial \<Rightarrow> serial_proc_data)"

definition cons_store :: "console \<Rightarrow> u8 \<Rightarrow> console" where
  "cons_store s c =
    (let s = s\<lparr>cbuf := (cbuf s)(unat (wpos s) := c), wpos := wpos s + 1\<rparr>
     in if wpos s = CONSBUFSIZE then s\<lparr>wpos := 0\<rparr> else s)"

lemma kbd_proc_data_consumes:
  "fst (kbd_proc_data s) \<noteq> -1 \<Longrightarrow>
   length (kbd_in (snd (kbd_proc_data s))) < length (kbd_in s) \<and>
   serial_in (snd (kbd_proc_data s)) = serial_in s"
  by (auto simp: kbd_proc_data_def Let_def split: list.splits if_splits)

lemma serial_proc_data_consumes:
  "fst (serial_proc_data s) \<noteq> -1 \<Longrightarrow>
   length (serial_in (snd (serial_proc_data s))) < length (serial_in s) \<and>
   kbd_in (snd (serial_proc_data s)) = kbd_in s"
  by (auto simp: serial_proc_data_def split: list.splits)

lemma cons_store_devices [simp]:
  "kbd_in (cons_store s c) = kbd_in s" "serial_in (cons_store s c) = serial_in s"
  by (simp_all add: cons_store_def Let_def)

lemma proc_data_consumes:
  assumes "fst (proc_data p s) \<noteq> -1"
  shows "length (kbd_in (snd (proc_data p s))) + length (serial_in (snd (proc_data p s)))
    < length (kbd_in s) + length (serial_in s)"
  using assms kbd_proc_data_consumes [of s] serial_proc_data_consumes [of s]
  by (cases p) (auto simp: proc_data_def)

function cons_intr :: "intr_source \<Rightarrow> console \<Rightarrow> console" where
  "cons_intr p s =
    (let c = fst (proc_data p s); s' = snd (proc_data p s)
     in if c = -1 then s'
        else if c = 0 then cons_intr p s'
        else cons_intr p (cons_store s' (word_of_int c)))"
  by pat_completeness auto
termination
  by (relation "measure (\<lambda>(p, s). length (kbd_in s) + length (serial_in s))")
    (auto intro: proc_data_consumes)

declare cons_intr.simps [simp del]

definition serial_intr :: "console \<Rightarrow> console" where
  "serial_intr s = (if serial_exists s then cons_intr Serial s else s)"

definition kbd_intr :: "console \<Rightarrow> console" where
  "kbd_intr s = cons_intr Kbd s"

definition cons_take :: "console \<Rightarrow> u8 \<times> console" where
  "cons_take s =
    (if rpos s \<noteq> wpos s then
       (let c = cbuf s (unat (rpos s));
            s = s\<lparr>rpos := rpos s + 1\<rparr>
        in (c, if rpos s = CONSBUFSIZE then s\<lparr>rpos := 0\<rparr> else s))
     else (0, s))"

definition cons_getc :: "console \<Rightarrow> int \<times> console" where
  "cons_getc s = (let (c, s) = cons_take (kbd_intr (serial_intr s)) in (uint c, s))"

section \<open>Output\<close>

definition serial_putc :: "console \<Rightarrow> u32 \<Rightarrow> console" where
  "serial_putc s c = s\<lparr>serial_out := serial_out s @ [ucast c]\<rparr>"

definition lpt_putc :: "console \<Rightarrow> u32 \<Rightarrow> console" where
  "lpt_putc s c = s\<lparr>lpt_out := lpt_out s @ [ucast c]\<rparr>"

definition cga_scroll :: "console \<Rightarrow> console" where
  "cga_scroll s =
    (if crt_pos s \<ge> CRT_SIZE then
       s\<lparr>crt_buf := (\<lambda>i. if i < unat (CRT_SIZE - CRT_COLS) then crt_buf s (i + unat CRT_COLS)
           else if i < unat CRT_SIZE then 0x0720 else crt_buf s i),
         crt_pos := crt_pos s - CRT_COLS\<rparr>
     else s)"

definition cga_move_cursor :: "console \<Rightarrow> console" where
  "cga_move_cursor s = s\<lparr>crt_cursor := crt_pos s\<rparr>"

function (sequential) cga_putc :: "console \<Rightarrow> u32 \<Rightarrow> console"
  and cons_putc :: "console \<Rightarrow> u32 \<Rightarrow> console" where
  "cga_putc s c0 =
    (let c = (if c0 AND NOT 0xFF = 0 then c0 OR 0x0700 else c0) in
     cga_move_cursor (cga_scroll
      (if c0 AND 0xFF = 8 then
         (if crt_pos s > 0 then
            (let p = crt_pos s - 1 in
             s\<lparr>crt_pos := p, crt_buf := (crt_buf s)(unat p := ucast ((c AND NOT 0xFF) OR 0x20))\<rparr>)
          else s)
       else if c0 AND 0xFF = 10 then
         (let p = crt_pos s + CRT_COLS in s\<lparr>crt_pos := p - p mod CRT_COLS\<rparr>)
       else if c0 AND 0xFF = 13 then s\<lparr>crt_pos := crt_pos s - crt_pos s mod CRT_COLS\<rparr>
       else if c0 AND 0xFF = 9 then
         cons_putc (cons_putc (cons_putc (cons_putc (cons_putc s 0x20) 0x20) 0x20) 0x20) 0x20
       else s\<lparr>crt_buf := (crt_buf s)(unat (crt_pos s) := ucast c), crt_pos := crt_pos s + 1\<rparr>)))"
| "cons_putc s c = cga_putc (lpt_putc (serial_putc s c) c) c"
  by pat_completeness auto
termination
  by (relation "measure (case_sum (\<lambda>(s, c). if c AND 0xFF = 9 then 2 else 0)
      (\<lambda>(s, c). if c AND 0xFF = 9 then 3 else 1))") auto

declare cga_putc.simps [simp del] cons_putc.simps [simp del]

definition cputchar :: "console \<Rightarrow> u32 \<Rightarrow> console" where
  "cputchar s c = cons_putc s c"

section \<open>The input buffer as a bounded queue\<close>

definition cons_inv :: "console \<Rightarrow> bool" where
  "cons_inv s \<longleftrightarrow> unat (rpos s) < 512 \<and> unat (wpos s) < 512"

definition pending :: "console \<Rightarrow> u8 list" where
  "pending s =
    (if rpos s \<le> wpos s then map (cbuf s) [unat (rpos s)..<unat (wpos s)]
     else map (cbuf s) [unat (rpos s)..<512] @ map (cbuf s) [0..<unat (wpos s)])"

lemma length_pending:
  "cons_inv s \<Longrightarrow> length (pending s) =
    (if rpos s \<le> wpos s then unat (wpos s) - unat (rpos s) else 512 - unat (rpos s) + unat (wpos s))"
  by (simp add: pending_def)

lemma cons_store_wpos:
  assumes "cons_inv s"
  shows "unat (wpos (cons_store s c)) = (if unat (wpos s) = 511 then 0 else unat (wpos s) + 1)"
proof -
  have "unat (wpos s + 1) = unat (wpos s) + 1"
    using assms by (simp add: cons_inv_def unat_word_ariths)
  then show ?thesis
    by (auto simp: cons_store_def Let_def word_unat_eq_iff)
qed

lemma cons_store_rest [simp]:
  "rpos (cons_store s c) = rpos s" "cbuf (cons_store s c) = (cbuf s)(unat (wpos s) := c)"
  by (simp_all add: cons_store_def Let_def)

lemma cons_store_inv: "cons_inv s \<Longrightarrow> cons_inv (cons_store s c)"
  using cons_store_wpos [of s c] by (auto simp: cons_inv_def)

lemma cons_store_pending:
  assumes inv: "cons_inv s" and room: "length (pending s) < 511"
  shows "pending (cons_store s c) = pending s @ [c]"
proof (cases "unat (wpos s) = 511")
  case True
  have "[unat (rpos s)..<512] = [unat (rpos s)..<511] @ [511]"
    using inv upt_Suc_append [of "unat (rpos s)" 511] by (simp add: cons_inv_def del: upt_Suc)
  with True assms show ?thesis
    by (auto simp: pending_def word_le_nat_alt cons_store_wpos length_pending cons_inv_def
        split: if_splits)
next
  case False
  with assms show ?thesis
    by (auto simp: pending_def word_le_nat_alt cons_store_wpos length_pending cons_inv_def
        upt_Suc_append intro!: map_cong [OF refl] split: if_splits)
qed

lemma cons_store_overrun:
  assumes inv: "cons_inv s" and full: "length (pending s) = 511"
  shows "pending (cons_store s c) = []"
  using assms by (auto simp: pending_def word_le_nat_alt cons_store_wpos length_pending cons_inv_def
      split: if_splits)

lemma cons_take_rpos:
  assumes "cons_inv s" and "rpos s \<noteq> wpos s"
  shows "unat (rpos (snd (cons_take s))) = (if unat (rpos s) = 511 then 0 else unat (rpos s) + 1)"
proof -
  have "unat (rpos s + 1) = unat (rpos s) + 1"
    using assms by (simp add: cons_inv_def unat_word_ariths)
  with assms show ?thesis
    by (auto simp: cons_take_def Let_def word_unat_eq_iff)
qed

lemma cons_take_rest [simp]:
  "wpos (snd (cons_take s)) = wpos s" "cbuf (snd (cons_take s)) = cbuf s"
  by (simp_all add: cons_take_def Let_def)

lemma cons_take_inv: "cons_inv s \<Longrightarrow> cons_inv (snd (cons_take s))"
  by (cases "rpos s = wpos s") (simp add: cons_take_def, simp add: cons_inv_def cons_take_rpos)

lemma cons_take_empty: "cons_inv s \<Longrightarrow> pending s = [] \<Longrightarrow> cons_take s = (0, s)"
  by (auto simp: pending_def cons_take_def cons_inv_def word_le_nat_alt word_unat_eq_iff
      split: if_splits)

lemma cons_take_pending:
  assumes inv: "cons_inv s" and p: "pending s = x # xs"
  shows "fst (cons_take s) = x" and "pending (snd (cons_take s)) = xs"
proof -
  have ne: "rpos s \<noteq> wpos s"
    using p by (auto simp: pending_def)
  then have fst: "fst (cons_take s) = cbuf s (unat (rpos s))"
    by (simp add: cons_take_def Let_def)
  show "fst (cons_take s) = x"
    using p ne inv by (auto simp: fst pending_def word_le_nat_alt upt_conv_Cons cons_inv_def
        word_unat_eq_iff split: if_splits)
  show "pending (snd (cons_take s)) = xs"
    using p ne inv by (auto simp: pending_def cons_take_rpos word_le_nat_alt upt_conv_Cons
        cons_inv_def word_unat_eq_iff split: if_splits)
qed

interpretation cq: bounded_queue cons_store cons_take pending cons_inv 511
  by unfold_locales
    (auto simp: cons_store_inv cons_store_pending cons_take_inv cons_take_pending)

lemma cons_intr_serial:
  "cons_intr Serial s =
    foldl cons_store (s\<lparr>serial_in := []\<rparr>) (filter (\<lambda>b. b \<noteq> 0) (serial_in s))"
proof (induction "serial_in s" arbitrary: s)
  case Nil
  then show ?case
    by (simp add: cons_intr.simps [of Serial s] proc_data_def serial_proc_data_def)
next
  case (Cons b bs)
  have uint_b: "uint b \<noteq> - 1" "uint b = 0 \<longleftrightarrow> b = 0"
    using unsigned_greater_eq [of b, where 'a = int] by (linarith, simp add: word_uint_eq_iff)
  have "serial_proc_data s = (uint b, s\<lparr>serial_in := bs\<rparr>)"
    by (simp add: serial_proc_data_def flip: Cons.hyps(2))
  then have step: "cons_intr Serial s =
    (if b = 0 then cons_intr Serial (s\<lparr>serial_in := bs\<rparr>)
     else cons_intr Serial (cons_store (s\<lparr>serial_in := bs\<rparr>) b))"
    using uint_b by (simp add: cons_intr.simps [of Serial s] proc_data_def Let_def)
  have "(cons_store (s\<lparr>serial_in := bs\<rparr>) b)\<lparr>serial_in := []\<rparr> = cons_store (s\<lparr>serial_in := []\<rparr>) b"
    by (simp add: cons_store_def Let_def)
  with step Cons.hyps(1) [of "s\<lparr>serial_in := bs\<rparr>"]
    Cons.hyps(1) [of "cons_store (s\<lparr>serial_in := bs\<rparr>) b"]
  show ?case
    by (simp flip: Cons.hyps(2))
qed

lemma pending_serial_in [simp]:
  "pending (s\<lparr>serial_in := xs\<rparr>) = pending s" "cons_inv (s\<lparr>serial_in := xs\<rparr>) = cons_inv s"
  by (simp_all add: pending_def cons_inv_def)

section \<open>The display\<close>

lemma cga_scroll_pos:
  assumes "unat (crt_pos s) < 2080"
  shows "unat (crt_pos (cga_scroll s)) < 2000"
  using assms by (auto simp: cga_scroll_def word_le_nat_alt unat_sub)

lemma unat_mod_u16: "unat (x mod y :: u16) = unat x mod unat y"
  by (simp add: unat_mod_distrib)

lemma sub_mod_u16: "unat (x - x mod y :: u16) = unat x - unat x mod unat y"
proof -
  have "x mod y \<le> x"
    by (simp add: word_le_nat_alt unat_mod_u16)
  then show ?thesis
    by (simp add: unat_sub unat_mod_u16)
qed

lemma putc_devices [simp]:
  "crt_pos (serial_putc s c) = crt_pos s" "crt_pos (lpt_putc s c) = crt_pos s"
  "crt_pos (cga_move_cursor s) = crt_pos s"
  by (simp_all add: serial_putc_def lpt_putc_def cga_move_cursor_def)

lemma cga_putc_pos:
  "unat (crt_pos s) < 2000 \<Longrightarrow> unat (crt_pos (cga_putc s c)) < 2000"
  and cons_putc_pos:
  "unat (crt_pos s) < 2000 \<Longrightarrow> unat (crt_pos (cons_putc s c)) < 2000"
proof (induction s c and s c rule: cga_putc_cons_putc.induct)
  case (1 s c)
  have inc: "unat (crt_pos s + 1) = unat (crt_pos s) + 1"
    "unat (crt_pos s + 80) = unat (crt_pos s) + 80"
    using "1.prems" by (simp_all add: unat_word_ariths)
  have dec: "crt_pos s > 0 \<Longrightarrow> unat (crt_pos s - 1) < 2000"
    using "1.prems" by (subst unat_sub) (auto simp: word_le_nat_alt word_less_nat_alt)
  show ?case
    using "1" inc dec
    by (subst cga_putc.simps)
      (auto simp: Let_def sub_mod_u16 simp del: CRT_SIZE_def intro!: cga_scroll_pos)
next
  case (2 s c)
  then show ?case by (simp add: cons_putc.simps)
qed

end
