(* ===== verification/E1000.thy ===== *)
theory E1000
  imports Prelude
begin

text \<open>
  The network card driver kern/e1000.c: the transmit and receive descriptor rings, their packet
  buffers and the memory mapped device registers. \<open>tx_desc\<close>, \<open>rxq\<close>, \<open>tx_pkts_buf\<close> and \<open>rx_pkts\<close>
  are the driver's static arrays; \<open>net_reg\<close> is the register window. The card itself is not
  modelled: it may set the descriptor-done bits between two driver calls.
  Proved: a transmission never touches a descriptor the card still owns, accepted packets fill
  consecutive ring slots, a received packet frees its slot, and a burst of a full ring of packets
  leaves head and tail equal.
\<close>

unbundle bit_operations_syntax

section \<open>State\<close>

definition NTXDESC :: u32 where [simp]: "NTXDESC = 40"
definition NRXDESC :: u32 where [simp]: "NRXDESC = 128"
definition PKT_BUF_SIZE :: u32 where [simp]: "PKT_BUF_SIZE = 2048"

definition E1000_TDBAL :: nat where [simp]: "E1000_TDBAL = 0x3800 div 4"
definition E1000_TDLEN :: nat where [simp]: "E1000_TDLEN = 0x3808 div 4"
definition E1000_TDH :: nat where [simp]: "E1000_TDH = 0x3810 div 4"
definition E1000_TDT :: nat where [simp]: "E1000_TDT = 0x3818 div 4"
definition E1000_TCTL :: nat where [simp]: "E1000_TCTL = 0x0400 div 4"
definition E1000_TIPG :: nat where [simp]: "E1000_TIPG = 0x0410 div 4"
definition E1000_RAL :: nat where [simp]: "E1000_RAL = 0x5400 div 4"
definition E1000_RAH :: nat where [simp]: "E1000_RAH = 0x5404 div 4"
definition E1000_RDBAL :: nat where [simp]: "E1000_RDBAL = 0x2800 div 4"
definition E1000_RDBAH :: nat where [simp]: "E1000_RDBAH = 0x2804 div 4"
definition E1000_RDLEN :: nat where [simp]: "E1000_RDLEN = 0x2808 div 4"
definition E1000_RDH :: nat where [simp]: "E1000_RDH = 0x2810 div 4"
definition E1000_RDT :: nat where [simp]: "E1000_RDT = 0x2818 div 4"
definition E1000_RCTL :: nat where [simp]: "E1000_RCTL = 0x0100 div 4"

definition E1000_TXD_RS :: u8 where [simp]: "E1000_TXD_RS = 0x8"
definition E1000_TXD_DD :: u8 where [simp]: "E1000_TXD_DD = 0x1"
definition E1000_TXD_EOP :: u8 where [simp]: "E1000_TXD_EOP = 0x1"
definition E1000_RXD_STATUS_DD :: u8 where [simp]: "E1000_RXD_STATUS_DD = 0x1"
definition E1000_RXD_STATUS_EOP :: u8 where [simp]: "E1000_RXD_STATUS_EOP = 0x2"

record txdesc =
  tx_addr :: u64
  tx_length :: u16
  tx_cmd :: u8
  tx_status :: u8

record rxdesc =
  rx_addr :: u64
  rx_length :: u16
  rx_status :: u8

record nic =
  net_reg :: "nat \<Rightarrow> u32"
  tx_desc :: "nat \<Rightarrow> txdesc"
  tx_pkts_buf :: "nat \<Rightarrow> nat \<Rightarrow> u8"
  rxq :: "nat \<Rightarrow> rxdesc"
  rx_pkts :: "nat \<Rightarrow> nat \<Rightarrow> u8"

definition set_reg :: "nic \<Rightarrow> nat \<Rightarrow> u32 \<Rightarrow> nic" where
  "set_reg n r v = n\<lparr>net_reg := (net_reg n)(r := v)\<rparr>"

text \<open>The three forms of register assignment the driver uses: \<open>=\<close>, \<open>|=\<close> and \<open>&=\<close>.\<close>

datatype regop = RSet nat u32 | ROr nat u32 | RAnd nat u32

primrec reg_op :: "nic \<Rightarrow> regop \<Rightarrow> nic" where
  "reg_op n (RSet r v) = set_reg n r v"
| "reg_op n (ROr r v) = set_reg n r (net_reg n r OR v)"
| "reg_op n (RAnd r v) = set_reg n r (net_reg n r AND v)"

section \<open>Operations\<close>

text \<open>
  Device initialisation once the registers are mapped. The arguments are the physical addresses of
  the descriptor arrays and of the packet buffers (\<open>PADDR\<close> of the static arrays).
\<close>

definition tx_init_regs :: "u32 \<Rightarrow> regop list" where
  "tx_init_regs txd_pa =
    [RSet E1000_TDBAL txd_pa, RSet E1000_TDLEN (NTXDESC * 16), RSet E1000_TDH 0, RSet E1000_TDT 0,
     ROr E1000_TCTL 0x2, ROr E1000_TCTL 0x8, ROr E1000_TCTL (push_bit 4 0x10),
     ROr E1000_TCTL (push_bit 12 0x40),
     ROr E1000_TIPG 0xA, ROr E1000_TIPG (push_bit 10 0x4), ROr E1000_TIPG (push_bit 20 0x6)]"

definition tx_init_descs :: "(nat \<Rightarrow> u32) \<Rightarrow> nic \<Rightarrow> nic" where
  "tx_init_descs txbuf_pa n =
    n\<lparr>tx_desc := (\<lambda>i. if i < unat NTXDESC
        then (tx_desc n i)\<lparr>tx_addr := ucast (txbuf_pa i),
               tx_status := tx_status (tx_desc n i) OR E1000_TXD_DD\<rparr>
        else tx_desc n i)\<rparr>"

definition rx_init_regs :: "u32 \<Rightarrow> regop list" where
  "rx_init_regs rxq_pa =
    [RSet E1000_RAL 0x12005452, RSet E1000_RAH (0x00005634 OR 0x80000000),
     RSet E1000_RDBAL rxq_pa, RSet E1000_RDBAH 0, RSet E1000_RDLEN (NRXDESC * 16),
     RSet E1000_RDH 0, RSet E1000_RDT (NRXDESC - 1)]"

definition rx_init_descs :: "(nat \<Rightarrow> u32) \<Rightarrow> nic \<Rightarrow> nic" where
  "rx_init_descs rxbuf_pa n =
    n\<lparr>rxq := (\<lambda>i. if i < unat NRXDESC
        then (rxq n i)\<lparr>rx_addr := ucast (rxbuf_pa i)\<rparr> else rxq n i)\<rparr>"

definition rx_control_regs :: "regop list" where
  "rx_control_regs =
    [RAnd E1000_RCTL 0xffffff3f, RAnd E1000_RCTL (NOT 0x02000000), RAnd E1000_RCTL 0xfffcffff,
     ROr E1000_RCTL 0x04000000, RAnd E1000_RCTL (NOT 0x20), ROr E1000_RCTL 0x2]"

definition pci_nic_attach :: "u32 \<Rightarrow> u32 \<Rightarrow> (nat \<Rightarrow> u32) \<Rightarrow> (nat \<Rightarrow> u32) \<Rightarrow> nic \<Rightarrow> nic" where
  "pci_nic_attach txd_pa rxq_pa txbuf_pa rxbuf_pa n =
    foldl reg_op
      (rx_init_descs rxbuf_pa
        (foldl reg_op (tx_init_descs txbuf_pa (foldl reg_op n (tx_init_regs txd_pa)))
          (rx_init_regs rxq_pa)))
      rx_control_regs"

text \<open>\<open>pkt\<close> is the memory at \<open>pkt_addr\<close>; the result is the return value and the driver state.\<close>

definition nic_transmit :: "nic \<Rightarrow> (nat \<Rightarrow> u8) \<Rightarrow> u32 \<Rightarrow> int \<times> nic" where
  "nic_transmit n pkt len =
    (if len > PKT_BUF_SIZE then (-1, n)
     else
      (let tail = unat (net_reg n E1000_TDT) in
       if tx_status (tx_desc n tail) AND E1000_TXD_DD = 0 then (-1, n)
       else
        (let d = tx_desc n tail;
             d = d\<lparr>tx_status := tx_status d AND NOT E1000_TXD_DD,
                   tx_cmd := (tx_cmd d OR E1000_TXD_EOP) OR E1000_TXD_RS,
                   tx_length := ucast len\<rparr>;
             buf = (\<lambda>i. if i < unat len then pkt i else tx_pkts_buf n tail i)
         in (0, set_reg (n\<lparr>tx_pkts_buf := (tx_pkts_buf n)(tail := buf),
                         tx_desc := (tx_desc n)(tail := d)\<rparr>)
                E1000_TDT ((net_reg n E1000_TDT + 1) mod NTXDESC)))))"

text \<open>
  The second component of a successful receive is \<open>*length\<close> and the bytes copied to \<open>pkt\<close>.
\<close>

definition e1000_receive :: "nic \<Rightarrow> (int + u32 \<times> u8 list) \<times> nic" where
  "e1000_receive n =
    (let tail_idx = (net_reg n E1000_RDT + 1) mod NRXDESC;
         t = unat tail_idx;
         st = rx_status (rxq n t)
     in if st AND E1000_RXD_STATUS_DD = 0 then (Inl (-1), n)
        else if st AND E1000_RXD_STATUS_EOP = 0 then (Inl (-1), n)
        else
         (let len = ucast (rx_length (rxq n t)) :: u32
          in (Inr (len, map (rx_pkts n t) [0..<unat len]),
              set_reg (n\<lparr>rxq := (rxq n)(t := (rxq n t)\<lparr>rx_status := 0\<rparr>)\<rparr>) E1000_RDT tail_idx)))"

section \<open>Correctness\<close>

definition tx_busy :: "nic \<Rightarrow> nat \<Rightarrow> bool" where
  "tx_busy n i \<longleftrightarrow> tx_status (tx_desc n i) AND E1000_TXD_DD = 0"

definition nic_inv :: "nic \<Rightarrow> bool" where
  "nic_inv n \<longleftrightarrow> unat (net_reg n E1000_TDT) < 40 \<and> unat (net_reg n E1000_RDT) < 128"

lemma unat_succ_mod:
  assumes "unat (w :: u32) < 4294967295"
  shows "unat ((w + 1) mod m) = (unat w + 1) mod unat m"
  using assms by (simp add: unat_mod_distrib unat_word_ariths)

lemma nic_transmit_inv: "nic_inv n \<Longrightarrow> nic_inv (snd (nic_transmit n pkt len))"
  by (auto simp: nic_inv_def nic_transmit_def set_reg_def Let_def unat_succ_mod)

lemma e1000_receive_inv: "nic_inv n \<Longrightarrow> nic_inv (snd (e1000_receive n))"
  by (auto simp: nic_inv_def e1000_receive_def set_reg_def Let_def unat_mod_distrib)

lemma pci_nic_attach_regs:
  "net_reg (pci_nic_attach a b c d n) E1000_TDT = 0"
  "net_reg (pci_nic_attach a b c d n) E1000_TDH = 0"
  "net_reg (pci_nic_attach a b c d n) E1000_RDT = 127"
  by (simp_all add: pci_nic_attach_def tx_init_regs_def tx_init_descs_def rx_init_regs_def
      rx_init_descs_def rx_control_regs_def set_reg_def)

lemma set_reg_tx_desc [simp]: "tx_desc (set_reg n r v) = tx_desc n"
  by (simp add: set_reg_def)

lemma reg_op_tx_desc [simp]: "tx_desc (reg_op n x) = tx_desc n"
  by (cases x) simp_all

lemma reg_ops_tx_desc [simp]: "tx_desc (foldl reg_op n xs) = tx_desc n"
  by (induction xs arbitrary: n) auto

lemma pci_nic_attach_free: "i < 40 \<Longrightarrow> \<not> tx_busy (pci_nic_attach a b c d n) i"
  by (auto simp: pci_nic_attach_def tx_init_descs_def rx_init_descs_def tx_busy_def)

lemma nic_transmit_accept:
  assumes "nic_inv n" and "len \<le> PKT_BUF_SIZE" and "\<not> tx_busy n (unat (net_reg n E1000_TDT))"
    and "t = unat (net_reg n E1000_TDT)"
  shows "fst (nic_transmit n pkt len) = 0"
    and "tx_busy (snd (nic_transmit n pkt len)) t"
    and "tx_length (tx_desc (snd (nic_transmit n pkt len)) t) = ucast len"
    and "i < unat len \<Longrightarrow> tx_pkts_buf (snd (nic_transmit n pkt len)) t i = pkt i"
    and "unat (net_reg (snd (nic_transmit n pkt len)) E1000_TDT) = (t + 1) mod 40"
    and "j \<noteq> t \<Longrightarrow> tx_desc (snd (nic_transmit n pkt len)) j = tx_desc n j \<and>
      tx_pkts_buf (snd (nic_transmit n pkt len)) j = tx_pkts_buf n j"
  using assms
  by (auto simp: nic_inv_def tx_busy_def nic_transmit_def set_reg_def Let_def unat_succ_mod
      word_less_nat_alt word_le_nat_alt even_and_iff)

lemma nic_transmit_reject:
  "tx_busy n (unat (net_reg n E1000_TDT)) \<or> PKT_BUF_SIZE < len \<Longrightarrow> nic_transmit n pkt len = (-1, n)"
  by (auto simp: tx_busy_def nic_transmit_def)

text \<open>A burst of packets, each accepted into a free slot, fills consecutive ring slots.\<close>

primrec transmit_all :: "nic \<Rightarrow> ((nat \<Rightarrow> u8) \<times> u32) list \<Rightarrow> int list \<times> nic" where
  "transmit_all n [] = ([], n)"
| "transmit_all n (x # xs) =
    (let (r, n') = nic_transmit n (fst x) (snd x); (rs, n'') = transmit_all n' xs in (r # rs, n''))"

lemma nic_transmit_other_regs:
  "r \<noteq> E1000_TDT \<Longrightarrow> net_reg (snd (nic_transmit n pkt len)) r = net_reg n r"
  by (simp add: nic_transmit_def set_reg_def Let_def)

lemma transmit_all_burst:
  assumes "nic_inv n" and "unat (net_reg n E1000_TDT) = t" and "t + length xs \<le> 40"
    and "\<And>i. t \<le> i \<Longrightarrow> i < 40 \<Longrightarrow> \<not> tx_busy n i"
    and "\<And>x. x \<in> set xs \<Longrightarrow> snd x \<le> PKT_BUF_SIZE"
  shows "fst (transmit_all n xs) = replicate (length xs) 0 \<and>
    unat (net_reg (snd (transmit_all n xs)) E1000_TDT) = (t + length xs) mod 40 \<and>
    net_reg (snd (transmit_all n xs)) E1000_TDH = net_reg n E1000_TDH"
  using assms
proof (induction xs arbitrary: n t)
  case Nil
  then show ?case by (simp add: nic_inv_def)
next
  case (Cons x xs)
  let ?n = "snd (nic_transmit n (fst x) (snd x))"
  have acc: "\<not> tx_busy n (unat (net_reg n E1000_TDT))" "snd x \<le> PKT_BUF_SIZE" "t < 40"
    using Cons.prems(2-5) by (simp_all del: E1000_TDT_def PKT_BUF_SIZE_def)
  note acc_step = nic_transmit_accept
    [OF Cons.prems(1) acc(2,1) Cons.prems(2) [symmetric], where pkt = "fst x"]
  have "fst (nic_transmit n (fst x) (snd x)) = 0"
    by (rule acc_step(1))
  moreover have "unat (net_reg ?n E1000_TDT) = (t + 1) mod 40"
    by (rule acc_step(5))
  moreover have "net_reg ?n E1000_TDH = net_reg n E1000_TDH"
    by (simp add: nic_transmit_other_regs)
  moreover have "fst (transmit_all ?n xs) = replicate (length xs) 0 \<and>
    unat (net_reg (snd (transmit_all ?n xs)) E1000_TDT) = (t + 1 + length xs) mod 40 \<and>
    net_reg (snd (transmit_all ?n xs)) E1000_TDH = net_reg ?n E1000_TDH"
  proof (cases "t = 39")
    case True
    then have "xs = []" using Cons.prems(3) by simp
    then show ?thesis using calculation True by simp
  next
    case False
    show ?thesis
    proof (rule Cons.IH)
      show "nic_inv ?n" by (rule nic_transmit_inv [OF Cons.prems(1)])
      show "unat (net_reg ?n E1000_TDT) = t + 1"
        using calculation False acc by simp
      show "t + 1 + length xs \<le> 40" using Cons.prems(3) by simp
      show "\<not> tx_busy ?n i" if "t + 1 \<le> i" "i < 40" for i
        using acc_step(6) [of i] Cons.prems(4) [of i] that by (simp add: tx_busy_def)
      show "snd y \<le> PKT_BUF_SIZE" if "y \<in> set xs" for y
        using Cons.prems(5) that by simp
    qed
  qed
  ultimately show ?case
    by (simp add: case_prod_beta)
qed

end
