(* ===== verification/Spinlock.thy ===== *)
theory Spinlock
  imports Prelude
begin

text \<open>
  The spin lock of kern/spinlock.c: the operations on one lock, and the interleaving of any number
  of processors that acquire and release it, at the granularity of the atomic exchange. With
  \<open>DEBUG_SPINLOCK\<close> (as the source is configured) the lock records the processor that holds it,
  which the recursion check and the release check read.
\<close>

section \<open>Operations\<close>

record spinlock =
  locked :: u32
  lock_cpu :: "nat option"

definition spin_initlock :: "spinlock \<Rightarrow> spinlock" where
  "spin_initlock lk = lk\<lparr>locked := 0, lock_cpu := None\<rparr>"

definition holding :: "spinlock \<Rightarrow> nat \<Rightarrow> bool" where
  "holding lk thiscpu \<longleftrightarrow> locked lk \<noteq> 0 \<and> lock_cpu lk = Some thiscpu"

text \<open>\<open>xchg(&lk->locked, v)\<close>: the old value and the lock afterwards.\<close>

definition xchg_locked :: "spinlock \<Rightarrow> u32 \<Rightarrow> u32 \<times> spinlock" where
  "xchg_locked lk v = (locked lk, lk\<lparr>locked := v\<rparr>)"

section \<open>Interleaving\<close>

text \<open>
  Where a processor is: outside the lock; in the loop of \<open>spin_lock\<close>; after the exchange that took
  the lock, before its owner is recorded; in the critical section; in \<open>spin_unlock\<close>, after the owner
  was erased, before the exchange that releases; or stopped by one of the two panics.
\<close>

datatype phase = Outside | Spinning | Taken | Critical | Leaving | Panicked

record lockstate =
  lk :: spinlock
  pc :: "nat \<Rightarrow> phase"

inductive lock_step :: "lockstate \<Rightarrow> lockstate \<Rightarrow> bool" where
  enter_recursive: "pc s c = Outside \<Longrightarrow> holding (lk s) c \<Longrightarrow> lock_step s (s\<lparr>pc := (pc s)(c := Panicked)\<rparr>)"
| enter: "pc s c = Outside \<Longrightarrow> \<not> holding (lk s) c \<Longrightarrow> lock_step s (s\<lparr>pc := (pc s)(c := Spinning)\<rparr>)"
| spin: "pc s c = Spinning \<Longrightarrow> xchg_locked (lk s) 1 = (v, l) \<Longrightarrow> v \<noteq> 0 \<Longrightarrow> lock_step s (s\<lparr>lk := l\<rparr>)"
| acquire: "pc s c = Spinning \<Longrightarrow> xchg_locked (lk s) 1 = (0, l) \<Longrightarrow>
    lock_step s (s\<lparr>lk := l, pc := (pc s)(c := Taken)\<rparr>)"
| recorded: "pc s c = Taken \<Longrightarrow>
    lock_step s (s\<lparr>lk := (lk s)\<lparr>lock_cpu := Some c\<rparr>, pc := (pc s)(c := Critical)\<rparr>)"
| release_check: "pc s c = Critical \<Longrightarrow> \<not> holding (lk s) c \<Longrightarrow> lock_step s (s\<lparr>pc := (pc s)(c := Panicked)\<rparr>)"
| erase: "pc s c = Critical \<Longrightarrow> holding (lk s) c \<Longrightarrow>
    lock_step s (s\<lparr>lk := (lk s)\<lparr>lock_cpu := None\<rparr>, pc := (pc s)(c := Leaving)\<rparr>)"
| release: "pc s c = Leaving \<Longrightarrow> xchg_locked (lk s) 0 = (v, l) \<Longrightarrow>
    lock_step s (s\<lparr>lk := l, pc := (pc s)(c := Outside)\<rparr>)"

inductive_cases lock_stepE: "lock_step s s'"

definition lock_init :: "spinlock \<Rightarrow> lockstate" where
  "lock_init l = \<lparr>lk = spin_initlock l, pc = (\<lambda>_. Outside)\<rparr>"

definition has_lock :: "phase \<Rightarrow> bool" where
  "has_lock p \<longleftrightarrow> p = Taken \<or> p = Critical \<or> p = Leaving"

definition idle :: "phase \<Rightarrow> bool" where
  "idle p \<longleftrightarrow> p = Outside \<or> p = Spinning"

lemma phase_simps [simp]:
  "\<not> has_lock Outside" "\<not> has_lock Spinning" "has_lock Taken" "has_lock Critical" "has_lock Leaving"
  "\<not> has_lock Panicked" "idle Outside" "idle Spinning" "\<not> idle Taken" "\<not> idle Critical"
  "\<not> idle Leaving" "\<not> idle Panicked" "idle p \<Longrightarrow> \<not> has_lock p"
  by (auto simp: has_lock_def idle_def)

text \<open>Either nobody has the lock, or processor \<open>c\<close> has it and all others are outside or spinning.\<close>

definition lock_free :: "lockstate \<Rightarrow> bool" where
  "lock_free s \<longleftrightarrow> locked (lk s) = 0 \<and> lock_cpu (lk s) = None \<and> (\<forall>c. idle (pc s c))"

definition lock_held :: "nat \<Rightarrow> lockstate \<Rightarrow> bool" where
  "lock_held c s \<longleftrightarrow> locked (lk s) \<noteq> 0 \<and> (\<forall>d. d \<noteq> c \<longrightarrow> idle (pc s d)) \<and>
    (pc s c = Critical \<and> lock_cpu (lk s) = Some c \<or>
     (pc s c = Taken \<or> pc s c = Leaving) \<and> lock_cpu (lk s) = None)"

definition lock_inv :: "lockstate \<Rightarrow> bool" where
  "lock_inv s \<longleftrightarrow> lock_free s \<or> (\<exists>c. lock_held c s)"

lemma lock_inv_init: "lock_inv (lock_init l)"
  by (simp add: lock_inv_def lock_free_def lock_init_def spin_initlock_def)

lemma free_step:
  assumes "lock_step s s'" "lock_free s"
  shows "lock_free s' \<or> (\<exists>c. lock_held c s')"
proof -
  have st: "pc s c = Outside \<or> pc s c = Spinning" for c
    using assms(2) by (auto simp: lock_free_def idle_def)
  from assms(1) show ?thesis
  proof cases
    case (acquire c l)
    with assms(2) have "lock_held c s'"
      by (auto simp: lock_held_def lock_free_def xchg_locked_def)
    then show ?thesis by blast
  next
    case (recorded c) then show ?thesis using st [of c] by simp
  next
    case (release_check c) then show ?thesis using st [of c] by simp
  next
    case (erase c) then show ?thesis using st [of c] by simp
  next
    case (release c v l) then show ?thesis using st [of c] by simp
  qed (use assms(2) in \<open>auto simp: lock_free_def holding_def xchg_locked_def\<close>)
qed

lemma held_step:
  assumes "lock_step s s'" "lock_held c s"
  shows "lock_free s' \<or> lock_held c s'"
proof -
  have st: "d = c \<or> pc s d = Outside \<or> pc s d = Spinning" for d
    using assms(2) by (auto simp: lock_held_def idle_def)
  from assms(1) show ?thesis
  proof cases
    case (enter_recursive d) then show ?thesis using assms(2) by (auto simp: lock_held_def holding_def)
  next
    case (enter d) then show ?thesis using assms(2) by (auto simp: lock_held_def)
  next
    case (spin d v l) then show ?thesis using assms(2) by (auto simp: lock_held_def xchg_locked_def)
  next
    case (acquire d l) then show ?thesis using assms(2) by (auto simp: lock_held_def xchg_locked_def)
  next
    case (recorded d) then show ?thesis using assms(2) st [of d] by (auto simp: lock_held_def)
  next
    case (release_check d) then show ?thesis using assms(2) st [of d] by (auto simp: lock_held_def holding_def)
  next
    case (erase d) then show ?thesis using assms(2) st [of d] by (auto simp: lock_held_def)
  next
    case (release d v l)
    with st [of d] have "d = c" by auto
    with release assms(2) show ?thesis by (auto simp: lock_held_def lock_free_def xchg_locked_def)
  qed
qed

lemma lock_reachable: "lock_step\<^sup>*\<^sup>* (lock_init l) s \<Longrightarrow> lock_inv s"
proof (induction rule: rtranclp_induct)
  case (step s s')
  then show ?case
    by (auto simp: lock_inv_def dest: free_step held_step)
qed (rule lock_inv_init)

text \<open>C5. Over every interleaving of any number of processors the lock admits one holder at a time,
  and neither the panic of a recursive acquisition nor the panic of a release without the lock
  is reached.\<close>

theorem spinlock_mutual_exclusion:
  assumes "lock_step\<^sup>*\<^sup>* (lock_init l) s"
  shows "pc s c \<noteq> Panicked \<and> (has_lock (pc s c) \<and> has_lock (pc s d) \<longrightarrow> c = d)"
  using lock_reachable [OF assms] unfolding lock_inv_def
proof
  assume "lock_free s"
  then have "idle (pc s c)"
    by (simp add: lock_free_def)
  then show ?thesis
    by (auto simp: idle_def)
next
  assume "\<exists>h. lock_held h s"
  then obtain h where h: "lock_held h s" ..
  then have "q = h \<and> has_lock (pc s q) \<or> idle (pc s q)" for q
    by (cases "q = h") (auto simp: lock_held_def)
  from this [of c] this [of d] show ?thesis
    by (auto simp: has_lock_def idle_def)
qed

text \<open>Two processors, one of which has the lock while the other spins.\<close>

theorem spinlock_mutual_exclusion_witness:
  "\<exists>s. lock_step\<^sup>*\<^sup>* (lock_init \<lparr>locked = 1, lock_cpu = None\<rparr>) s \<and> pc s 0 = Taken \<and> pc s 1 = Spinning \<and>
    (pc s 0 \<noteq> Panicked \<and> (has_lock (pc s 0) \<and> has_lock (pc s 1) \<longrightarrow> (0::nat) = 1))"
proof -
  let ?i = "lock_init \<lparr>locked = 1, lock_cpu = None\<rparr>"
  let ?a = "?i\<lparr>pc := (pc ?i)(0 := Spinning)\<rparr>"
  let ?b = "?a\<lparr>pc := (pc ?a)(1 := Spinning)\<rparr>"
  let ?c = "?b\<lparr>lk := \<lparr>locked = 1, lock_cpu = None\<rparr>, pc := (pc ?b)(0 := Taken)\<rparr>"
  have 1: "lock_step ?i ?a"
    by (rule enter) (simp_all add: lock_init_def holding_def spin_initlock_def)
  have 2: "lock_step ?a ?b"
    by (rule enter) (simp_all add: lock_init_def holding_def spin_initlock_def)
  have 3: "lock_step ?b ?c"
    by (rule acquire) (simp_all add: lock_init_def xchg_locked_def spin_initlock_def)
  have r: "lock_step\<^sup>*\<^sup>* ?i ?c"
    using 1 2 3 by (meson converse_rtranclp_into_rtranclp rtranclp.rtrancl_refl)
  show ?thesis
    using r spinlock_mutual_exclusion [OF r, of 0 1] by (intro exI [of _ ?c]) simp
qed

text \<open>C6. The lock is never lost: in every reachable state some processor is able to take a step that
  moves it towards or out of the critical section, and if the lock is free a spinning processor
  gets it with its next exchange.\<close>

theorem spinlock_progress:
  assumes "lock_step\<^sup>*\<^sup>* (lock_init l) s" and "pc s c = Spinning"
  shows "(\<exists>s'. lock_step s s' \<and> pc s' c = Taken) \<or>
    (\<exists>d s'. has_lock (pc s d) \<and> lock_step s s' \<and> pc s' d \<noteq> pc s d \<and> pc s' d \<noteq> Panicked)"
  using lock_reachable [OF assms(1)] unfolding lock_inv_def
proof
  assume "lock_free s"
  then have "lock_step s (s\<lparr>lk := (lk s)\<lparr>locked := 1\<rparr>, pc := (pc s)(c := Taken)\<rparr>)"
    by (intro acquire assms(2)) (simp add: lock_free_def xchg_locked_def)
  then show ?thesis by force
next
  assume "\<exists>h. lock_held h s"
  then obtain h where h: "lock_held h s" ..
  then consider "pc s h = Critical" "holding (lk s) h" | "pc s h = Taken" | "pc s h = Leaving"
    by (auto simp: lock_held_def holding_def)
  then have "\<exists>s'. lock_step s s' \<and> pc s' h \<noteq> pc s h \<and> pc s' h \<noteq> Panicked"
  proof cases
    case 1 from erase [OF this] 1 show ?thesis by force
  next
    case 2 from recorded [OF this] 2 show ?thesis by force
  next
    case 3
    from release [OF this, of "locked (lk s)" "(lk s)\<lparr>locked := 0\<rparr>"] 3 show ?thesis
      by (force simp: xchg_locked_def)
  qed
  moreover have "has_lock (pc s h)"
    using h by (auto simp: lock_held_def)
  ultimately show ?thesis by blast
qed

text \<open>The second processor spins while the first has the lock.\<close>

theorem spinlock_progress_witness:
  "\<exists>s. lock_step\<^sup>*\<^sup>* (lock_init \<lparr>locked = 0, lock_cpu = None\<rparr>) s \<and> pc s 1 = Spinning \<and>
    ((\<exists>s'. lock_step s s' \<and> pc s' 1 = Taken) \<or>
     (\<exists>d s'. has_lock (pc s d) \<and> lock_step s s' \<and> pc s' d \<noteq> pc s d \<and> pc s' d \<noteq> Panicked))"
proof -
  let ?i = "lock_init \<lparr>locked = 0, lock_cpu = None\<rparr>"
  let ?a = "?i\<lparr>pc := (pc ?i)(1 := Spinning)\<rparr>"
  have "lock_step ?i ?a"
    by (rule enter) (simp_all add: lock_init_def holding_def spin_initlock_def)
  then have r: "lock_step\<^sup>*\<^sup>* ?i ?a" by (rule r_into_rtranclp)
  have p: "pc ?a 1 = Spinning" by simp
  show ?thesis
    using r p spinlock_progress [OF r p] by blast
qed

end
