(* ===== verification/Kstate.thy ===== *)
theory Kstate
  imports Mmu Console E1000 Spinlock
begin

text \<open>
  The state of the kernel: physical memory, the \<open>pages\<close> array with its free list, the \<open>envs\<close> array
  with its free list, the per-CPU blocks and the global counters, as records with the source's
  field names, and the address conversions of kern/pmap.h.

  Pointers. A \<open>struct PageInfo *\<close> is an index into \<open>pages\<close>, a \<open>struct Env *\<close> an index into \<open>envs\<close>;
  the null pointer is None. A page directory or page table is named by the number of the physical
  frame that holds it, a \<open>pte_t *\<close> by such a frame and an index below 1024. Physical memory is a
  function from frame number and word index to 32-bit words. \<open>cpunum\<close> is the processor that is
  executing kernel code: kernel code runs under the big kernel lock.
\<close>

unbundle bit_operations_syntax

section \<open>Structures\<close>

record PushRegs =
  reg_edi :: u32
  reg_esi :: u32
  reg_ebp :: u32
  reg_oesp :: u32
  reg_ebx :: u32
  reg_edx :: u32
  reg_ecx :: u32
  reg_eax :: u32

record Trapframe =
  tf_regs :: PushRegs
  tf_es :: u16
  tf_ds :: u16
  tf_trapno :: u32
  tf_err :: u32
  tf_eip :: u32
  tf_cs :: u16
  tf_eflags :: u32
  tf_esp :: u32
  tf_ss :: u16

definition zero_regs :: PushRegs where
  "zero_regs = \<lparr>reg_edi = 0, reg_esi = 0, reg_ebp = 0, reg_oesp = 0, reg_ebx = 0, reg_edx = 0,
     reg_ecx = 0, reg_eax = 0\<rparr>"

definition zero_tf :: Trapframe where
  "zero_tf = \<lparr>tf_regs = zero_regs, tf_es = 0, tf_ds = 0, tf_trapno = 0, tf_err = 0, tf_eip = 0,
     tf_cs = 0, tf_eflags = 0, tf_esp = 0, tf_ss = 0\<rparr>"

datatype env_status = ENV_FREE | ENV_DYING | ENV_RUNNABLE | ENV_RUNNING | ENV_NOT_RUNNABLE

datatype EnvType = ENV_TYPE_USER | ENV_TYPE_FS | ENV_TYPE_NS

definition LOG2NENV :: nat where [simp]: "LOG2NENV = 10"
definition NENV :: nat where [simp]: "NENV = 1024"
definition ENVGENSHIFT :: nat where [simp]: "ENVGENSHIFT = 12"

definition ENVX :: "u32 \<Rightarrow> nat" where
  "ENVX envid = unat (envid AND (of_nat NENV - 1))"

record Env =
  env_tf :: Trapframe
  env_link :: "nat option"
  env_id :: u32
  env_parent_id :: u32
  env_type :: EnvType
  env_status :: env_status
  env_runs :: u32
  env_cpunum :: nat
  env_pgdir :: "nat option"
  env_pgfault_upcall :: u32
  env_ipc_recving :: bool
  env_ipc_dstva :: u32
  env_ipc_value :: u32
  env_ipc_from :: u32
  env_ipc_perm :: u32

record PageInfo =
  pp_link :: "nat option"
  pp_ref :: u16

definition NCPU :: nat where [simp]: "NCPU = 8"

datatype cpu_status = CPU_UNUSED | CPU_STARTED | CPU_HALTED

text \<open>
  \<open>cr3\<close> and \<open>invlpgs\<close> are the processor's page directory register and the log of the TLB entries
  it was told to drop; the other fields are those of \<open>struct CpuInfo\<close>.
\<close>

record CpuInfo =
  cpu_status :: cpu_status
  cpu_env :: "nat option"
  ts_esp0 :: u32
  ts_ss0 :: u16
  cr3 :: nat
  invlpgs :: "u32 list"

record kstate =
  npages :: nat
  npages_basemem :: nat
  pages :: "nat \<Rightarrow> PageInfo"
  page_free_list :: "nat option"
  kern_pgdir :: nat
  pmem :: "nat \<Rightarrow> nat \<Rightarrow> u32"
  nextfree :: u32
  mmio_base :: u32
  user_mem_check_addr :: u32
  envs :: "nat \<Rightarrow> Env"
  env_free_list :: "nat option"
  cpus :: "nat \<Rightarrow> CpuInfo"
  cpunum :: nat
  kernel_lock :: spinlock
  ticks :: u32
  cons :: console
  nic :: nic

type_synonym 'a kres = "(kstate, 'a) res"

section \<open>The state at power-on\<close>

text \<open>Static storage is zero, apart from the initialised \<open>base\<close> of \<open>mmio_map_region\<close>.\<close>

definition zero_env :: Env where
  "zero_env = \<lparr>env_tf = zero_tf, env_link = None, env_id = 0, env_parent_id = 0, env_type = ENV_TYPE_USER,
     env_status = ENV_FREE, env_runs = 0, env_cpunum = 0, env_pgdir = None, env_pgfault_upcall = 0,
     env_ipc_recving = False, env_ipc_dstva = 0, env_ipc_value = 0, env_ipc_from = 0, env_ipc_perm = 0\<rparr>"

definition zero_console :: console where
  "zero_console = \<lparr>cbuf = (\<lambda>_. 0), rpos = 0, wpos = 0, shift = 0, serial_exists = False,
     crt_buf = (\<lambda>_. 0), crt_pos = 0, crt_cursor = 0, kbd_in = [], serial_in = [], serial_out = [],
     lpt_out = [], rebooted = False\<rparr>"

definition zero_nic :: nic where
  "zero_nic = \<lparr>net_reg = (\<lambda>_. 0),
     tx_desc = (\<lambda>_. \<lparr>tx_addr = 0, tx_length = 0, tx_cmd = 0, tx_status = 0\<rparr>),
     tx_pkts_buf = (\<lambda>_ _. 0), rxq = (\<lambda>_. \<lparr>rx_addr = 0, rx_length = 0, rx_status = 0\<rparr>),
     rx_pkts = (\<lambda>_ _. 0)\<rparr>"

definition bss_state :: kstate where
  "bss_state = \<lparr>npages = 0, npages_basemem = 0, pages = (\<lambda>_. \<lparr>pp_link = None, pp_ref = 0\<rparr>),
     page_free_list = None, kern_pgdir = 0, pmem = (\<lambda>_ _. 0), nextfree = 0, mmio_base = MMIOBASE,
     user_mem_check_addr = 0, envs = (\<lambda>_. zero_env), env_free_list = None,
     cpus = (\<lambda>_. \<lparr>cpu_status = CPU_UNUSED, cpu_env = None, ts_esp0 = 0, ts_ss0 = 0, cr3 = 0, invlpgs = []\<rparr>),
     cpunum = 0, kernel_lock = \<lparr>locked = 0, lock_cpu = None\<rparr>, ticks = 0, cons = zero_console,
     nic = zero_nic\<rparr>"

section \<open>Field updates\<close>

definition upd_page :: "nat \<Rightarrow> (PageInfo \<Rightarrow> PageInfo) \<Rightarrow> kstate \<Rightarrow> kstate" where
  "upd_page p f s = s\<lparr>pages := (pages s)(p := f (pages s p))\<rparr>"

definition upd_env :: "nat \<Rightarrow> (Env \<Rightarrow> Env) \<Rightarrow> kstate \<Rightarrow> kstate" where
  "upd_env e f s = s\<lparr>envs := (envs s)(e := f (envs s e))\<rparr>"

definition upd_cpu :: "(CpuInfo \<Rightarrow> CpuInfo) \<Rightarrow> kstate \<Rightarrow> kstate" where
  "upd_cpu f s = s\<lparr>cpus := (cpus s)(cpunum s := f (cpus s (cpunum s)))\<rparr>"

definition set_word :: "nat \<Rightarrow> nat \<Rightarrow> u32 \<Rightarrow> kstate \<Rightarrow> kstate" where
  "set_word f i w s = s\<lparr>pmem := (pmem s)(f := (pmem s f)(i := w))\<rparr>"

definition curenv :: "kstate \<Rightarrow> nat option" where
  "curenv s = cpu_env (cpus s (cpunum s))"

definition lcr3 :: "nat \<Rightarrow> kstate \<Rightarrow> kstate" where
  "lcr3 f s = upd_cpu (\<lambda>c. c\<lparr>cr3 := f\<rparr>) s"

definition invlpg :: "u32 \<Rightarrow> kstate \<Rightarrow> kstate" where
  "invlpg va s = upd_cpu (\<lambda>c. c\<lparr>invlpgs := invlpgs c @ [va]\<rparr>) s"

section \<open>Address conversions (kern/pmap.h)\<close>

definition page2pa :: "nat \<Rightarrow> u32" where
  "page2pa pp = push_bit PGSHIFT (of_nat pp)"

definition pa2page :: "u32 \<Rightarrow> kstate \<Rightarrow> nat kres" where
  "pa2page pa s =
    (if unat (PGNUM pa) \<ge> npages s then Inl (Panic ''pa2page called with invalid pa'')
     else Inr (unat (PGNUM pa), s))"

text \<open>\<open>KADDR\<close> of a page aligned physical address, as the frame it denotes.\<close>

definition KADDR :: "u32 \<Rightarrow> kstate \<Rightarrow> nat kres" where
  "KADDR pa s =
    (if unat (PGNUM pa) \<ge> npages s then Inl (Panic ''KADDR called with invalid pa'')
     else Inr (unat (PGNUM pa), s))"

definition page2kva :: "nat \<Rightarrow> kstate \<Rightarrow> nat kres" where
  "page2kva pp s = KADDR (page2pa pp) s"

text \<open>\<open>PADDR\<close> of a page directory pointer: the null pointer is below \<open>KERNBASE\<close>.\<close>

definition PADDR_pgdir :: "nat option \<Rightarrow> kstate \<Rightarrow> u32 kres" where
  "PADDR_pgdir p s =
    (case p of None \<Rightarrow> Inl (Panic ''PADDR called with invalid kva'') | Some f \<Rightarrow> Inr (page2pa f, s))"

definition PADDR :: "u32 \<Rightarrow> kstate \<Rightarrow> u32 kres" where
  "PADDR kva s =
    (if kva < KERNBASE then Inl (Panic ''PADDR called with invalid kva'') else Inr (kva - KERNBASE, s))"

text \<open>\<open>memset(page2kva(pp), 0, PGSIZE)\<close>\<close>

definition zero_page :: "nat \<Rightarrow> kstate \<Rightarrow> kstate" where
  "zero_page f s = s\<lparr>pmem := (pmem s)(f := (\<lambda>i. 0))\<rparr>"

section \<open>Fields an update leaves alone\<close>

lemma upd_page_fields [simp]:
  "npages (upd_page p f s) = npages s" "npages_basemem (upd_page p f s) = npages_basemem s"
  "page_free_list (upd_page p f s) = page_free_list s"
  "kern_pgdir (upd_page p f s) = kern_pgdir s" "pmem (upd_page p f s) = pmem s"
  "nextfree (upd_page p f s) = nextfree s" "mmio_base (upd_page p f s) = mmio_base s"
  "user_mem_check_addr (upd_page p f s) = user_mem_check_addr s"
  "envs (upd_page p f s) = envs s" "env_free_list (upd_page p f s) = env_free_list s"
  "cpus (upd_page p f s) = cpus s" "cpunum (upd_page p f s) = cpunum s"
  "kernel_lock (upd_page p f s) = kernel_lock s" "ticks (upd_page p f s) = ticks s"
  "cons (upd_page p f s) = cons s" "nic (upd_page p f s) = nic s"
  by (simp_all add: upd_page_def)

lemma upd_env_fields [simp]:
  "npages (upd_env e g s) = npages s" "npages_basemem (upd_env e g s) = npages_basemem s"
  "pages (upd_env e g s) = pages s" "page_free_list (upd_env e g s) = page_free_list s"
  "kern_pgdir (upd_env e g s) = kern_pgdir s" "pmem (upd_env e g s) = pmem s"
  "nextfree (upd_env e g s) = nextfree s" "mmio_base (upd_env e g s) = mmio_base s"
  "user_mem_check_addr (upd_env e g s) = user_mem_check_addr s"
  "env_free_list (upd_env e g s) = env_free_list s" "cpus (upd_env e g s) = cpus s"
  "cpunum (upd_env e g s) = cpunum s" "kernel_lock (upd_env e g s) = kernel_lock s"
  "ticks (upd_env e g s) = ticks s" "cons (upd_env e g s) = cons s"
  "nic (upd_env e g s) = nic s"
  by (simp_all add: upd_env_def)

lemma upd_cpu_fields [simp]:
  "npages (upd_cpu h s) = npages s" "npages_basemem (upd_cpu h s) = npages_basemem s"
  "pages (upd_cpu h s) = pages s" "page_free_list (upd_cpu h s) = page_free_list s"
  "kern_pgdir (upd_cpu h s) = kern_pgdir s" "pmem (upd_cpu h s) = pmem s"
  "nextfree (upd_cpu h s) = nextfree s" "mmio_base (upd_cpu h s) = mmio_base s"
  "user_mem_check_addr (upd_cpu h s) = user_mem_check_addr s" "envs (upd_cpu h s) = envs s"
  "env_free_list (upd_cpu h s) = env_free_list s" "cpunum (upd_cpu h s) = cpunum s"
  "kernel_lock (upd_cpu h s) = kernel_lock s" "ticks (upd_cpu h s) = ticks s"
  "cons (upd_cpu h s) = cons s" "nic (upd_cpu h s) = nic s"
  by (simp_all add: upd_cpu_def)

lemma set_word_fields [simp]:
  "npages (set_word t i w s) = npages s" "npages_basemem (set_word t i w s) = npages_basemem s"
  "pages (set_word t i w s) = pages s" "page_free_list (set_word t i w s) = page_free_list s"
  "kern_pgdir (set_word t i w s) = kern_pgdir s" "nextfree (set_word t i w s) = nextfree s"
  "mmio_base (set_word t i w s) = mmio_base s"
  "user_mem_check_addr (set_word t i w s) = user_mem_check_addr s"
  "envs (set_word t i w s) = envs s" "env_free_list (set_word t i w s) = env_free_list s"
  "cpus (set_word t i w s) = cpus s" "cpunum (set_word t i w s) = cpunum s"
  "kernel_lock (set_word t i w s) = kernel_lock s" "ticks (set_word t i w s) = ticks s"
  "cons (set_word t i w s) = cons s" "nic (set_word t i w s) = nic s"
  by (simp_all add: set_word_def)

lemma zero_page_fields [simp]:
  "npages (zero_page q s) = npages s" "npages_basemem (zero_page q s) = npages_basemem s"
  "pages (zero_page q s) = pages s" "page_free_list (zero_page q s) = page_free_list s"
  "kern_pgdir (zero_page q s) = kern_pgdir s" "nextfree (zero_page q s) = nextfree s"
  "mmio_base (zero_page q s) = mmio_base s"
  "user_mem_check_addr (zero_page q s) = user_mem_check_addr s" "envs (zero_page q s) = envs s"
  "env_free_list (zero_page q s) = env_free_list s" "cpus (zero_page q s) = cpus s"
  "cpunum (zero_page q s) = cpunum s" "kernel_lock (zero_page q s) = kernel_lock s"
  "ticks (zero_page q s) = ticks s" "cons (zero_page q s) = cons s"
  "nic (zero_page q s) = nic s"
  by (simp_all add: zero_page_def)

lemma lcr3_fields [simp]:
  "npages (lcr3 d s) = npages s" "npages_basemem (lcr3 d s) = npages_basemem s"
  "pages (lcr3 d s) = pages s" "page_free_list (lcr3 d s) = page_free_list s"
  "kern_pgdir (lcr3 d s) = kern_pgdir s" "pmem (lcr3 d s) = pmem s"
  "nextfree (lcr3 d s) = nextfree s" "mmio_base (lcr3 d s) = mmio_base s"
  "user_mem_check_addr (lcr3 d s) = user_mem_check_addr s" "envs (lcr3 d s) = envs s"
  "env_free_list (lcr3 d s) = env_free_list s" "cpunum (lcr3 d s) = cpunum s"
  "kernel_lock (lcr3 d s) = kernel_lock s" "ticks (lcr3 d s) = ticks s"
  "cons (lcr3 d s) = cons s" "nic (lcr3 d s) = nic s"
  by (simp_all add: lcr3_def upd_cpu_def)

lemma invlpg_fields [simp]:
  "npages (invlpg va s) = npages s" "npages_basemem (invlpg va s) = npages_basemem s"
  "pages (invlpg va s) = pages s" "page_free_list (invlpg va s) = page_free_list s"
  "kern_pgdir (invlpg va s) = kern_pgdir s" "pmem (invlpg va s) = pmem s"
  "nextfree (invlpg va s) = nextfree s" "mmio_base (invlpg va s) = mmio_base s"
  "user_mem_check_addr (invlpg va s) = user_mem_check_addr s" "envs (invlpg va s) = envs s"
  "env_free_list (invlpg va s) = env_free_list s" "cpunum (invlpg va s) = cpunum s"
  "kernel_lock (invlpg va s) = kernel_lock s" "ticks (invlpg va s) = ticks s"
  "cons (invlpg va s) = cons s" "nic (invlpg va s) = nic s"
  by (simp_all add: invlpg_def upd_cpu_def)

lemma upd_page_same [simp]: "pages (upd_page p f s) q = (if q = p then f (pages s p) else pages s q)"
  by (simp add: upd_page_def)

lemma upd_env_same [simp]: "envs (upd_env e f s) q = (if q = e then f (envs s e) else envs s q)"
  by (simp add: upd_env_def)

lemma upd_cpu_same [simp]:
  "cpus (upd_cpu f s) c = (if c = cpunum s then f (cpus s (cpunum s)) else cpus s c)"
  by (simp add: upd_cpu_def)

lemma pmem_set_word: "pmem (set_word t i w s) q j = (if q = t \<and> j = i then w else pmem s q j)"
  by (simp add: set_word_def)

lemma pmem_zero_page [simp]: "pmem (zero_page p s) q j = (if q = p then 0 else pmem s q j)"
  by (simp add: zero_page_def)

section \<open>Page table entries\<close>

abbreviation present :: "u32 \<Rightarrow> bool" where
  "present e \<equiv> e AND PTE_P \<noteq> 0"

lemma PGNUM_PTE_ADDR: "PGNUM (PTE_ADDR w) = drop_bit 12 w"
  by (rule bit_word_eqI)
    (auto simp: PGNUM_def PTE_ADDR_def mask_consts bit_simps dest: bit_imp_le_length)

lemma frame_alt: "frame w = unat w div 4096"
  by (simp add: PGNUM_PTE_ADDR drop_bit_eq_div unat_div_distrib)

lemma frame_less: "frame w < 1048576"
  using u32_less [of w] by (simp add: frame_alt)

lemma unat_page2pa: "p < 1048576 \<Longrightarrow> unat (page2pa p) = p * 4096"
  by (simp add: page2pa_def push_bit_eq_mult unat_word_ariths take_bit_nat_eq_self unat_of_nat)

lemma PGNUM_page2pa: "p < 1048576 \<Longrightarrow> unat (PGNUM (page2pa p)) = p"
  by (simp add: unat_PGNUM unat_page2pa)

text \<open>The flag bits or-ed into an entry do not disturb the frame number.\<close>

lemma frame_or_flags:
  assumes "p < 1048576" and "flags AND NOT 0xFFF = 0"
  shows "frame (page2pa p OR flags) = p"
proof -
  have "drop_bit 12 flags = 0"
    using assms(2) by (metis PGNUM_PTE_ADDR PGNUM_def PTE_ADDR_def drop_bit_of_0)
  then have "drop_bit 12 (page2pa p OR flags) = drop_bit 12 (page2pa p)"
    by (simp add: drop_bit_or)
  then show ?thesis
    using PGNUM_page2pa [OF assms(1)] by (simp only: PGNUM_PTE_ADDR) (simp add: PGNUM_def)
qed

lemma frame_entry [simp]:
  assumes "p < 1048576" and "perm AND NOT 0xFFF = 0"
  shows "frame (page2pa p OR perm OR PTE_P) = p"
proof -
  have "(perm OR 1) AND NOT 0xFFF = 0"
    using assms(2) by (simp add: bit.conj_disj_distrib2)
  then show ?thesis
    using frame_or_flags [of p "perm OR 1"] assms by (simp add: or.assoc)
qed

lemma flags_entry:
  assumes "perm AND NOT 0xFFF = 0"
  shows "(page2pa p OR perm OR PTE_P) AND 0xFFF = perm OR PTE_P"
proof -
  have "page2pa p AND 0xFFF = 0"
    by (rule bit_word_eqI) (auto simp: page2pa_def mask_consts bit_simps)
  moreover have "perm = (perm AND 0xFFF) OR (perm AND NOT 0xFFF)"
    by (rule bit_word_eqI) (auto simp: bit_simps)
  then have "perm AND 0xFFF = perm"
    using assms by simp
  ultimately show ?thesis
    by (simp add: bit.conj_disj_distrib2)
qed

lemma present_entry [simp]: "present (page2pa p OR perm OR PTE_P)"
  by (simp add: even_or_iff)

lemma pde_entry [simp]:
  assumes "p < 1048576"
  shows "frame (page2pa p OR PTE_P OR PTE_W OR PTE_U) = p"
    and "present (page2pa p OR PTE_P OR PTE_W OR PTE_U)"
  using frame_or_flags [OF assms, of 7] by (simp_all add: or.assoc even_or_iff)

end
