(* ===== verification/PageAlloc.thy ===== *)
theory PageAlloc
  imports Kstate
begin

text \<open>
  The physical page allocator of kern/pmap.c: the boot-time bump allocator \<open>boot_alloc\<close>, the
  construction of the free list by \<open>page_init\<close>, and \<open>page_alloc\<close>, \<open>page_free\<close>, \<open>page_decref\<close>.
  The lemmas say which frames \<open>page_init\<close> hands to the allocator, and relate every operation to
  the list of free frames.
\<close>

unbundle bit_operations_syntax

section \<open>Memory detection and the boot allocator\<close>

text \<open>The CMOS clock chip is a device: its registers are the function \<open>cmos\<close>.\<close>

definition nvram_read :: "(nat \<Rightarrow> u8) \<Rightarrow> nat \<Rightarrow> u32" where
  "nvram_read cmos r = ucast (cmos r) OR push_bit 8 (ucast (cmos (r + 1)))"

definition NVRAM_BASELO :: nat where [simp]: "NVRAM_BASELO = 21"
definition NVRAM_EXTLO :: nat where [simp]: "NVRAM_EXTLO = 23"

definition i386_detect_memory :: "(nat \<Rightarrow> u8) \<Rightarrow> kstate \<Rightarrow> kstate" where
  "i386_detect_memory cmos s =
    (let basemem = unat ((nvram_read cmos NVRAM_BASELO * 1024) div PGSIZE);
         extmem = unat ((nvram_read cmos NVRAM_EXTLO * 1024) div PGSIZE)
     in s\<lparr>npages_basemem := basemem,
          npages := if extmem \<noteq> 0 then unat (EXTPHYSMEM div PGSIZE) + extmem else basemem\<rparr>)"

text \<open>\<open>end_sym\<close> is the linker symbol \<open>end\<close>, the first address after the kernel image.\<close>

definition boot_alloc :: "u32 \<Rightarrow> u32 \<Rightarrow> kstate \<Rightarrow> u32 \<times> kstate" where
  "boot_alloc end_sym n s =
    (let s1 = (if nextfree s = 0 then s\<lparr>nextfree := ROUNDUP end_sym PGSIZE\<rparr> else s);
         result = nextfree s1
     in if n \<noteq> 0 then (result, s1\<lparr>nextfree := ROUNDUP (nextfree s1 + n) PGSIZE\<rparr>)
        else (result, s1))"

section \<open>The free list\<close>

definition page_push :: "nat \<Rightarrow> kstate \<Rightarrow> kstate" where
  "page_push pp s =
    (upd_page pp (\<lambda>q. q\<lparr>pp_link := page_free_list s\<rparr>) s)\<lparr>page_free_list := Some pp\<rparr>"

definition page_pop :: "kstate \<Rightarrow> kstate" where
  "page_pop s =
    (case page_free_list s of None \<Rightarrow> s
     | Some pp \<Rightarrow> upd_page pp (\<lambda>q. q\<lparr>pp_link := None\<rparr>) (s\<lparr>page_free_list := pp_link (pages s pp)\<rparr>))"

definition page_init_one :: "u32 \<Rightarrow> kstate \<Rightarrow> nat \<Rightarrow> kstate" where
  "page_init_one free_mem s i =
    (if i = unat (PGNUM MPENTRY_PADDR) then upd_page i (\<lambda>q. q\<lparr>pp_link := None\<rparr>) s
     else if i < npages_basemem s then page_push i (upd_page i (\<lambda>q. q\<lparr>pp_ref := 0\<rparr>) s)
     else if i \<ge> unat (IOPHYSMEM div PGSIZE) \<and> i < unat (EXTPHYSMEM div PGSIZE)
       then upd_page i (\<lambda>q. q\<lparr>pp_link := None\<rparr>) s
     else if i \<ge> unat (EXTPHYSMEM div PGSIZE) \<and> i < unat (free_mem div PGSIZE)
       then upd_page i (\<lambda>q. q\<lparr>pp_ref := 1, pp_link := None\<rparr>) s
     else page_push i (upd_page i (\<lambda>q. q\<lparr>pp_ref := 0\<rparr>) s))"

definition page_init :: "u32 \<Rightarrow> kstate \<Rightarrow> unit kres" where
  "page_init end_sym s =
    (let s1 = upd_page 0 (\<lambda>q. q\<lparr>pp_ref := 1\<rparr>) s;
         (kva, s2) = boot_alloc end_sym 0 s1
     in bindR (PADDR kva s2) (\<lambda>(free_mem, s3).
          Inr ((), foldl (page_init_one free_mem) s3 [1..<npages s3])))"

definition ALLOC_ZERO :: u32 where [simp]: "ALLOC_ZERO = 1"

definition page_alloc :: "u32 \<Rightarrow> kstate \<Rightarrow> nat option kres" where
  "page_alloc alloc_flags s =
    (case page_free_list s of
       None \<Rightarrow> Inr (None, s)
     | Some page_address \<Rightarrow>
         let s1 = page_pop s
         in if alloc_flags AND ALLOC_ZERO \<noteq> 0
            then bindR (page2kva page_address s1) (\<lambda>(kva, s2). Inr (Some page_address, zero_page kva s2))
            else Inr (Some page_address, s1))"

definition page_free :: "nat \<Rightarrow> kstate \<Rightarrow> unit kres" where
  "page_free pp s =
    (if pp_ref (pages s pp) \<noteq> 0 then Inl (Panic ''The pp_ref is not zero!!'')
     else if pp_link (pages s pp) \<noteq> None then Inl (Panic ''The pp_link is not Null!'')
     else Inr ((), page_push pp s))"

definition page_decref :: "nat \<Rightarrow> kstate \<Rightarrow> unit kres" where
  "page_decref pp s =
    (let s1 = upd_page pp (\<lambda>q. q\<lparr>pp_ref := pp_ref q - 1\<rparr>) s
     in if pp_ref (pages s1 pp) = 0 then page_free pp s1 else Inr ((), s1))"

section \<open>The free list as a list\<close>

abbreviation page_link :: "kstate \<Rightarrow> nat \<Rightarrow> nat option" where
  "page_link s p \<equiv> pp_link (pages s p)"

definition page_chain :: "kstate \<Rightarrow> nat list \<Rightarrow> bool" where
  "page_chain s fl \<longleftrightarrow> links (page_link s) (page_free_list s) fl"

interpretation pfl: free_list page_free_list page_link page_pop page_push
  by unfold_locales (auto simp: page_pop_def page_push_def upd_page_def)

text \<open>What \<open>page_init\<close> regards as allocatable, given the base memory size and the first free frame.\<close>

definition allocatable :: "nat \<Rightarrow> nat \<Rightarrow> nat \<Rightarrow> bool" where
  "allocatable base first i \<longleftrightarrow>
     i \<noteq> 7 \<and> (i < base \<or> i < 160 \<or> 256 \<le> i \<and> first \<le> i)"

lemma init_consts:
  "unat (PGNUM MPENTRY_PADDR) = 7" "unat (IOPHYSMEM div PGSIZE) = 160"
  "unat (EXTPHYSMEM div PGSIZE) = 256"
  by (simp_all add: unat_PGNUM unat_div_distrib)

lemma page_chain_cong:
  assumes "page_free_list s = page_free_list s'" "\<And>p. p \<in> set fl \<Longrightarrow> page_link s p = page_link s' p"
  shows "page_chain s fl = page_chain s' fl"
  using assms links_cong [of fl "page_link s" "page_link s'"] by (simp add: page_chain_def)

lemma page_chain_upd [simp]:
  "i \<notin> set fl \<Longrightarrow> page_chain (upd_page i f s) fl = page_chain s fl"
  by (rule page_chain_cong) (auto simp: upd_page_def)

lemma page_chain_push:
  "page_chain s fl \<Longrightarrow> i \<notin> set fl \<Longrightarrow> page_chain (page_push i s) (i # fl)"
  unfolding page_chain_def by (rule pfl.push_links)

lemma page_init_one_chain:
  assumes "page_chain s fl" "i \<notin> set fl"
  shows "page_chain (page_init_one fm s i)
    (if allocatable (npages_basemem s) (unat (fm div PGSIZE)) i then i # fl else fl)"
  using assms unfolding page_init_one_def init_consts allocatable_def
  by (auto intro: page_chain_push)

lemma page_init_one_basemem [simp]: "npages_basemem (page_init_one fm s i) = npages_basemem s"
  by (simp add: page_init_one_def page_push_def upd_page_def)

lemma page_init_fold_chain:
  assumes "page_chain s fl" "distinct is" "set is \<inter> set fl = {}"
  shows "page_chain (foldl (page_init_one fm) s is)
    (rev (filter (allocatable (npages_basemem s) (unat (fm div PGSIZE))) is) @ fl)"
  using assms
proof (induction "is" arbitrary: s fl)
  case (Cons i "is")
  let ?a = "allocatable (npages_basemem s) (unat (fm div PGSIZE))"
  have "page_chain (page_init_one fm s i) (if ?a i then i # fl else fl)"
    using Cons.prems by (intro page_init_one_chain) auto
  from Cons.IH [OF this] Cons.prems show ?case
    by (auto split: if_splits)
qed simp

lemma page_init_one_ref:
  "pp_ref (pages (page_init_one fm s i) q) =
    (if q \<noteq> i then pp_ref (pages s q)
     else if allocatable (npages_basemem s) (unat (fm div PGSIZE)) i then 0
     else if i \<noteq> 7 \<and> 256 \<le> i then 1 else pp_ref (pages s i))"
  unfolding page_init_one_def init_consts allocatable_def
  by (auto simp: page_push_def upd_page_def)

lemma page_init_fold_ref:
  "distinct is \<Longrightarrow> pp_ref (pages (foldl (page_init_one fm) s is) q) =
    (if q \<notin> set is then pp_ref (pages s q)
     else if allocatable (npages_basemem s) (unat (fm div PGSIZE)) q then 0
     else if q \<noteq> 7 \<and> 256 \<le> q then 1 else pp_ref (pages s q))"
  by (induction "is" arbitrary: s) (auto simp: page_init_one_ref)

text \<open>The first free frame after the boot allocations.\<close>

definition boot_top :: "u32 \<Rightarrow> kstate \<Rightarrow> u32" where
  "boot_top end_sym s = fst (boot_alloc end_sym 0 s)"

lemma page_init_chain:
  assumes "page_free_list s = None" "KERNBASE \<le> boot_top end_sym s"
    and "page_init end_sym s = Inr ((), s')"
  shows "page_chain s'
    (rev (filter (allocatable (npages_basemem s) (unat ((boot_top end_sym s - KERNBASE) div PGSIZE)))
      [1..<npages s]))"
proof -
  let ?t = "(upd_page 0 (pp_ref_update (\<lambda>_. 1)) s)\<lparr>nextfree := boot_top end_sym s\<rparr>"
  have chain: "page_chain ?t []"
    using assms(1) by (simp add: page_chain_def upd_page_def)
  have "s' = foldl (page_init_one (boot_top end_sym s - KERNBASE)) ?t [1..<npages s]"
    using assms(2,3)
    by (auto simp: page_init_def boot_alloc_def boot_top_def PADDR_def upd_page_def Let_def
        split: if_splits)
  with page_init_fold_chain [OF chain, of "[1..<npages s]" "boot_top end_sym s - KERNBASE"]
  show ?thesis
    by (simp add: upd_page_def)
qed

section \<open>Allocation and release\<close>

lemma page_alloc_None: "page_chain s [] \<Longrightarrow> page_alloc fl s = Inr (None, s)"
  by (simp add: page_chain_def page_alloc_def)

text \<open>The state after the head \<open>p\<close> of the free list was allocated.\<close>

lemma page_alloc_Some:
  assumes "page_chain s (p # ps)" "p < npages s" "npages s \<le> 1048576"
  shows "page_alloc fl s = Inr (Some p, (if odd fl then zero_page p (page_pop s) else page_pop s))"
    and "page_chain (page_pop s) ps"
proof -
  have "unat (PGNUM (page2pa p)) = p"
    using assms by (intro PGNUM_page2pa) simp
  with assms show "page_alloc fl s = Inr (Some p, (if odd fl then zero_page p (page_pop s) else page_pop s))"
    by (auto simp: page_chain_def page_alloc_def page2kva_def KADDR_def page_pop_def upd_page_def)
  from assms(1) show "page_chain (page_pop s) ps"
    unfolding page_chain_def by (rule pfl.pop_links)
qed

lemma page_free_ok:
  "pp_ref (pages s p) = 0 \<Longrightarrow> page_link s p = None \<Longrightarrow> page_free p s = Inr ((), page_push p s)"
  by (simp add: page_free_def)

lemma page_decref_keep:
  "pp_ref (pages s p) \<noteq> 1 \<Longrightarrow>
    page_decref p s = Inr ((), upd_page p (\<lambda>q. q\<lparr>pp_ref := pp_ref q - 1\<rparr>) s)"
  by (simp add: page_decref_def upd_page_def)

lemma page_decref_last:
  "pp_ref (pages s p) = 1 \<Longrightarrow> page_link s p = None \<Longrightarrow>
    page_decref p s = Inr ((), page_push p (upd_page p (\<lambda>q. q\<lparr>pp_ref := 0\<rparr>) s))"
  by (simp add: page_decref_def upd_page_def page_free_def)

end
