(* ===== verification/PageTable.thy ===== *)
theory PageTable
  imports PageAlloc
begin

text \<open>
  The two-level page tables of kern/pmap.c: \<open>pgdir_walk\<close>, \<open>boot_map_region\<close>, \<open>page_lookup\<close>,
  \<open>page_remove\<close>, \<open>page_insert\<close>, \<open>tlb_invalidate\<close> and \<open>mmio_map_region\<close>, and the abstract address
  space \<open>aspace\<close> that a page directory denotes: the map from page numbers to the frame and flags
  found by the hardware walk.
\<close>

unbundle bit_operations_syntax

section \<open>Operations\<close>

text \<open>A \<open>pte_t *\<close> is a frame and an index; reading through the null pointer is undefined.\<close>

type_synonym pte_ptr = "(nat \<times> nat) option"

definition load_pte :: "pte_ptr \<Rightarrow> kstate \<Rightarrow> u32 kres" where
  "load_pte pte s =
    (case pte of None \<Rightarrow> Inl (Undefined ''null pte'') | Some (t, i) \<Rightarrow> Inr (pmem s t i, s))"

definition store_pte :: "pte_ptr \<Rightarrow> u32 \<Rightarrow> kstate \<Rightarrow> unit kres" where
  "store_pte pte w s =
    (case pte of None \<Rightarrow> Inl (Undefined ''null pte'') | Some (t, i) \<Rightarrow> Inr ((), set_word t i w s))"

definition pgdir_walk :: "nat \<Rightarrow> u32 \<Rightarrow> bool \<Rightarrow> kstate \<Rightarrow> pte_ptr kres" where
  "pgdir_walk pgdir va create s =
    (let pde = pmem s pgdir (pdx va)
     in bindR (KADDR (PTE_ADDR pde) s) (\<lambda>(table, s).
          if PTE_P AND pde \<noteq> 0 then Inr (Some (table, ptx va), s)
          else if create then
            bindR (page_alloc ALLOC_ZERO s) (\<lambda>(r, s).
              case r of
                None \<Rightarrow> Inr (None, s)
              | Some new_page_table \<Rightarrow>
                  let s = upd_page new_page_table (\<lambda>q. q\<lparr>pp_ref := pp_ref q + 1\<rparr>) s;
                      entry = page2pa new_page_table OR PTE_P OR PTE_W OR PTE_U;
                      s = set_word pgdir (pdx va) entry s
                  in bindR (KADDR (PTE_ADDR entry) s) (\<lambda>(table, s). Inr (Some (table, ptx va), s)))
          else Inr (None, s)))"

text \<open>One iteration of \<open>boot_map_region\<close>, then its loop counted by the number of pages left.\<close>

definition boot_map_one :: "nat \<Rightarrow> u32 \<Rightarrow> u32 \<Rightarrow> u32 \<Rightarrow> kstate \<Rightarrow> unit kres" where
  "boot_map_one pgdir va pa perm s =
    bindR (pgdir_walk pgdir va True s) (\<lambda>(pte, s). store_pte pte (PTE_ADDR pa OR perm OR PTE_P) s)"

fun boot_map_loop :: "nat \<Rightarrow> nat \<Rightarrow> u32 \<Rightarrow> u32 \<Rightarrow> u32 \<Rightarrow> kstate \<Rightarrow> unit kres" where
  "boot_map_loop 0 pgdir va pa perm s = Inr ((), s)"
| "boot_map_loop (Suc n) pgdir va pa perm s =
    bindR (boot_map_one pgdir va pa perm s) (\<lambda>(_, s).
      boot_map_loop n pgdir (va + PGSIZE) (pa + PGSIZE) perm s)"

definition boot_map_region :: "nat \<Rightarrow> u32 \<Rightarrow> u32 \<Rightarrow> u32 \<Rightarrow> u32 \<Rightarrow> kstate \<Rightarrow> unit kres" where
  "boot_map_region pgdir va sz pa perm s =
    boot_map_loop (unat (ROUNDUP sz PGSIZE div PGSIZE)) pgdir va pa perm s"

text \<open>
  \<open>page_lookup\<close> returns the page and, for \<open>pte_store\<close>, the entry. The entry is read before it is
  compared with the null pointer.
\<close>

definition page_lookup :: "nat \<Rightarrow> u32 \<Rightarrow> kstate \<Rightarrow> (nat \<times> pte_ptr) option kres" where
  "page_lookup pgdir va s =
    bindR (pgdir_walk pgdir va False s) (\<lambda>(pte, s).
      bindR (load_pte pte s) (\<lambda>(w, s).
        if w AND PTE_P = 0 \<or> pte = None then Inr (None, s)
        else bindR (pa2page (PTE_ADDR w) s) (\<lambda>(pp, s). Inr (Some (pp, pte), s))))"

definition tlb_invalidate :: "nat \<Rightarrow> u32 \<Rightarrow> kstate \<Rightarrow> kstate" where
  "tlb_invalidate pgdir va s =
    (case curenv s of
       None \<Rightarrow> invlpg va s
     | Some e \<Rightarrow> if env_pgdir (envs s e) = Some pgdir then invlpg va s else s)"

definition page_remove :: "nat \<Rightarrow> u32 \<Rightarrow> kstate \<Rightarrow> unit kres" where
  "page_remove pgdir va s =
    bindR (page_lookup pgdir va s) (\<lambda>(r, s).
      case r of
        None \<Rightarrow> Inr ((), s)
      | Some (pp, pte) \<Rightarrow>
          bindR (page_decref pp s) (\<lambda>(_, s).
            bindR (store_pte pte 0 s) (\<lambda>(_, s). Inr ((), tlb_invalidate pgdir va s))))"

definition page_insert :: "nat \<Rightarrow> nat \<Rightarrow> u32 \<Rightarrow> u32 \<Rightarrow> kstate \<Rightarrow> int kres" where
  "page_insert pgdir pp va perm s =
    bindR (pgdir_walk pgdir va True s) (\<lambda>(pte, s).
      if pte = None then Inr (- E_NO_MEM, s)
      else
        let s = upd_page pp (\<lambda>q. q\<lparr>pp_ref := pp_ref q + 1\<rparr>) s
        in bindR (load_pte pte s) (\<lambda>(w, s).
             bindR (if w AND PTE_P \<noteq> 0 then page_remove pgdir va s else Inr ((), s)) (\<lambda>(_, s).
               bindR (store_pte pte (page2pa pp OR perm OR PTE_P) s) (\<lambda>(_, s). Inr (0, s)))))"

definition mmio_map_region :: "u32 \<Rightarrow> u32 \<Rightarrow> kstate \<Rightarrow> u32 kres" where
  "mmio_map_region pa sz s =
    (let size_r = ROUNDUP sz PGSIZE;
         base = mmio_base s
     in if base + sz > MMIOLIM \<or> base + sz < base
        then Inl (Panic ''mmio_map region .... memory is not enough'')
        else bindR (boot_map_region (kern_pgdir s) base sz pa
                     (PTE_PCD OR PTE_PWT OR PTE_W OR PTE_P) s) (\<lambda>(_, s).
               Inr (base, s\<lparr>mmio_base := base + size_r\<rparr>)))"

section \<open>The address space a page directory denotes\<close>

definition pte_of :: "kstate \<Rightarrow> nat \<Rightarrow> u32 \<Rightarrow> u32 option" where
  "pte_of s pgdir va =
    (let pde = pmem s pgdir (pdx va)
     in if present pde then Some (pmem s (frame pde) (ptx va)) else None)"

definition aspace :: "kstate \<Rightarrow> nat \<Rightarrow> u32 \<rightharpoonup> nat \<times> u32" where
  "aspace s pgdir va =
    (case pte_of s pgdir va of
       None \<Rightarrow> None
     | Some w \<Rightarrow> if present w then Some (frame w, w AND 0xFFF) else None)"

end
