(* ===== verification/VmInv.thy ===== *)
theory VmInv
  imports PageTable
begin

text \<open>
  The invariant of the virtual memory system. A ghost function \<open>K\<close> gives every physical frame the
  role it plays: on the free list, allocated but not yet referenced, a page directory, the page
  table of one directory slot, a data page, or outside the allocator's care (kernel image, boot
  page tables, holes). A second ghost function \<open>x\<close> counts the references the running kernel code
  holds itself between the update of a reference count and the update of the entry. The invariant
  says that the free list holds exactly the free frames, that no page table is shared, and that
  the reference count of a data page is the number of page table entries that map it.

  The lemmas of this theory are the elementary transitions from which every operation is composed.
\<close>

unbundle bit_operations_syntax

datatype kind = KFree | KNew | KPD | KPT nat nat | KData | KOther

definition is_pt :: "(nat \<Rightarrow> kind) \<Rightarrow> nat \<Rightarrow> bool" where
  "is_pt K t \<longleftrightarrow> (case K t of KPT _ _ \<Rightarrow> True | _ \<Rightarrow> False)"

definition mappings :: "(nat \<Rightarrow> kind) \<Rightarrow> kstate \<Rightarrow> nat \<Rightarrow> (nat \<times> nat) set" where
  "mappings K s p =
    {(t, i). is_pt K t \<and> i < 1024 \<and> present (pmem s t i) \<and> frame (pmem s t i) = p}"

definition free_ok :: "(nat \<Rightarrow> kind) \<Rightarrow> kstate \<Rightarrow> bool" where
  "free_ok K s \<longleftrightarrow> (\<exists>fl. page_chain s fl \<and> set fl = {p. K p = KFree})"

fun pinfo_ok :: "kind \<Rightarrow> PageInfo \<Rightarrow> bool" where
  "pinfo_ok KFree q \<longleftrightarrow> pp_ref q = 0"
| "pinfo_ok KNew q \<longleftrightarrow> pp_ref q = 0 \<and> pp_link q = None"
| "pinfo_ok KPD q \<longleftrightarrow> pp_ref q = 1 \<and> pp_link q = None"
| "pinfo_ok (KPT _ _) q \<longleftrightarrow> pp_ref q = 1 \<and> pp_link q = None"
| "pinfo_ok KData q \<longleftrightarrow> pp_link q = None"
| "pinfo_ok KOther q \<longleftrightarrow> True"

definition page_ok :: "(nat \<Rightarrow> kind) \<Rightarrow> kstate \<Rightarrow> bool" where
  "page_ok K s \<longleftrightarrow> 0 < npages s \<and> npages s \<le> 1048576 \<and>
    (\<forall>p. K p \<noteq> KOther \<longrightarrow> p < npages s) \<and> (\<forall>p. pinfo_ok (K p) (pages s p))"

text \<open>User entries of a page directory permit everything: the page table entries decide.\<close>

definition pde_ok :: "u32 \<Rightarrow> bool" where
  "pde_ok w \<longleftrightarrow> present w \<and> w AND PTE_W \<noteq> 0 \<and> w AND PTE_U \<noteq> 0"

text \<open>
  The kernel's entries of a page directory. Slot 957, at \<open>UVPT\<close>, maps the directory itself, which makes
  the page tables visible to user code.
\<close>

definition kpde_ok :: "nat \<Rightarrow> nat \<Rightarrow> nat \<Rightarrow> u32 \<Rightarrow> bool" where
  "kpde_ok n pd d w \<longleftrightarrow> frame w < n \<and> (d = 957 \<longrightarrow> w = page2pa pd OR PTE_P OR PTE_U)"

definition dir_ok :: "(nat \<Rightarrow> kind) \<Rightarrow> kstate \<Rightarrow> bool" where
  "dir_ok K s \<longleftrightarrow> (\<forall>pd. K pd = KPD \<longrightarrow>
    (\<forall>d<955. pmem s pd d = 0 \<or> pde_ok (pmem s pd d) \<and> K (frame (pmem s pd d)) = KPT pd d) \<and>
    (\<forall>d. 955 \<le> d \<longrightarrow> d < 1024 \<longrightarrow> kpde_ok (npages s) pd d (pmem s pd d)))"

definition table_ok :: "(nat \<Rightarrow> kind) \<Rightarrow> kstate \<Rightarrow> bool" where
  "table_ok K s \<longleftrightarrow> (\<forall>t pd d. K t = KPT pd d \<longrightarrow>
    K pd = KPD \<and> d < 955 \<and> present (pmem s pd d) \<and> frame (pmem s pd d) = t \<and>
    (\<forall>i<1024. present (pmem s t i) \<longrightarrow> K (frame (pmem s t i)) = KData))"

text \<open>All references to a frame: the entries that map it and those the kernel code holds.\<close>

definition nrefs :: "(nat \<Rightarrow> kind) \<Rightarrow> (nat \<Rightarrow> nat) \<Rightarrow> kstate \<Rightarrow> nat \<Rightarrow> nat" where
  "nrefs K x s p = card (mappings K s p) + x p"

definition ref_ok :: "(nat \<Rightarrow> kind) \<Rightarrow> (nat \<Rightarrow> nat) \<Rightarrow> kstate \<Rightarrow> bool" where
  "ref_ok K x s \<longleftrightarrow> (\<forall>p. (K p = KData \<longrightarrow>
      0 < nrefs K x s p \<and> unat (pp_ref (pages s p)) = nrefs K x s p) \<and>
    (K p \<noteq> KData \<longrightarrow> x p = 0))"

definition kern_ok :: "(nat \<Rightarrow> kind) \<Rightarrow> kstate \<Rightarrow> bool" where
  "kern_ok K s \<longleftrightarrow> K (kern_pgdir s) = KOther \<and>
    (\<forall>d<955. pmem s (kern_pgdir s) d = 0) \<and>
    (\<forall>d. 955 \<le> d \<longrightarrow> d < 1024 \<longrightarrow> frame (pmem s (kern_pgdir s) d) < npages s)"

definition vm_inv :: "(nat \<Rightarrow> kind) \<Rightarrow> (nat \<Rightarrow> nat) \<Rightarrow> kstate \<Rightarrow> bool" where
  "vm_inv K x s \<longleftrightarrow>
    free_ok K s \<and> page_ok K s \<and> dir_ok K s \<and> table_ok K s \<and> ref_ok K x s \<and> kern_ok K s"

lemmas vm_defs = vm_inv_def free_ok_def page_ok_def dir_ok_def table_ok_def ref_ok_def kern_ok_def

section \<open>Consequences\<close>

lemma is_ptI [simp]: "K t = KPT pd d \<Longrightarrow> is_pt K t"
  by (simp add: is_pt_def)

lemma is_ptE: "is_pt K t \<Longrightarrow> (\<And>pd d. K t = KPT pd d \<Longrightarrow> P) \<Longrightarrow> P"
  by (auto simp: is_pt_def split: kind.splits)

lemma is_pt_upd:
  "is_pt (K(p := k)) t = (if t = p then (case k of KPT _ _ \<Rightarrow> True | _ \<Rightarrow> False) else is_pt K t)"
  by (simp add: is_pt_def)

lemma vm_inv_bound: "vm_inv K x s \<Longrightarrow> K p \<noteq> KOther \<Longrightarrow> p < npages s \<and> p < 1048576"
  by (auto simp: vm_inv_def page_ok_def)

lemma finite_mappings:
  assumes "page_ok K s"
  shows "finite (mappings K s p)"
proof (rule finite_subset)
  show "mappings K s p \<subseteq> {..<npages s} \<times> {..<1024}"
    using assms by (auto simp: mappings_def page_ok_def is_pt_def split: kind.splits)
qed simp

lemma frame_0 [simp]: "frame 0 = 0"
  by (simp add: frame_alt)

text \<open>The invariant reads only the allocator, the page tables and the bounds.\<close>

lemma mappings_cong: "pmem s = pmem s' \<Longrightarrow> mappings K s p = mappings K s' p"
  by (simp add: mappings_def)

lemma mappings_eqI:
  assumes "\<And>t. is_pt K' t = is_pt K t" "\<And>t. is_pt K t \<Longrightarrow> pmem s' t = pmem s t"
  shows "mappings K' s' p = mappings K s p"
  using assms by (auto simp only: mappings_def)

lemma vm_inv_cong:
  assumes "npages s = npages s'" "pages s = pages s'" "page_free_list s = page_free_list s'"
    "pmem s = pmem s'" "kern_pgdir s = kern_pgdir s'"
  shows "vm_inv K x s = vm_inv K x s'"
  using assms mappings_cong [of s s' K] by (simp add: vm_defs page_chain_def nrefs_def)

text \<open>The user part of a page directory, as \<open>pgdir_walk\<close> sees it.\<close>

lemma user_pde_cases:
  assumes "vm_inv K x s" "K pd = KPD" "d < 955"
  obtains (absent) "pmem s pd d = 0" | (table) "present (pmem s pd d)"
    "K (frame (pmem s pd d)) = KPT pd d" "pde_ok (pmem s pd d)"
proof -
  from assms have "dir_ok K s"
    by (simp add: vm_inv_def)
  with assms(2,3) have "pmem s pd d = 0 \<or> pde_ok (pmem s pd d) \<and> K (frame (pmem s pd d)) = KPT pd d"
    unfolding dir_ok_def by blast
  then show thesis
    using absent table by (auto simp: pde_ok_def)
qed

lemma kernel_pde:
  assumes "vm_inv K x s" "K pd = KPD" "955 \<le> d" "d < 1024"
  shows "kpde_ok (npages s) pd d (pmem s pd d)"
proof -
  from assms(1) have "dir_ok K s"
    by (simp add: vm_inv_def)
  with assms(2-4) show ?thesis
    unfolding dir_ok_def by blast
qed

lemma self_map: "vm_inv K x s \<Longrightarrow> K pd = KPD \<Longrightarrow> pmem s pd 957 = page2pa pd OR PTE_P OR PTE_U"
  using kernel_pde [of K x s pd 957] by (simp add: kpde_ok_def)

lemma pde_frame_less:
  assumes "vm_inv K x s" "K pd = KPD" "d < 1024"
  shows "frame (pmem s pd d) < npages s"
proof (cases "d < 955")
  case True
  from assms(1,2) True show ?thesis
  proof (cases rule: user_pde_cases)
    case absent
    with assms(1) show ?thesis
      by (simp add: vm_inv_def page_ok_def)
  next
    case table
    with vm_inv_bound [OF assms(1), of "frame (pmem s pd d)"] show ?thesis
      by simp
  qed
next
  case False
  with kernel_pde [OF assms(1,2)] assms(3) show ?thesis
    by (simp add: kpde_ok_def)
qed

lemma table_okD:
  assumes "vm_inv K x s" "K t = KPT pd d"
  shows "K pd = KPD" "d < 955" "present (pmem s pd d)" "frame (pmem s pd d) = t"
    "i < 1024 \<Longrightarrow> present (pmem s t i) \<Longrightarrow> K (frame (pmem s t i)) = KData"
proof -
  from assms(1) have "table_ok K s"
    by (simp add: vm_inv_def)
  then show "K pd = KPD" "d < 955" "present (pmem s pd d)" "frame (pmem s pd d) = t"
    "i < 1024 \<Longrightarrow> present (pmem s t i) \<Longrightarrow> K (frame (pmem s t i)) = KData"
    using assms(2) unfolding table_ok_def by blast+
qed

lemma pte_data:
  assumes "vm_inv K x s" "is_pt K t" "i < 1024" "present (pmem s t i)"
  shows "K (frame (pmem s t i)) = KData"
  using assms table_okD(5) [OF assms(1)] by (auto elim: is_ptE)

section \<open>Elementary transitions\<close>

text \<open>
  Changing the role of a frame that is neither a directory nor a table leaves the page tables
  as they are, provided a page that stops being a data page is not mapped.
\<close>

definition leaf :: "kind \<Rightarrow> bool" where
  "leaf k \<longleftrightarrow> k = KFree \<or> k = KNew \<or> k = KData"

lemma leaf_simps [simp]: "leaf KFree" "leaf KNew" "leaf KData" "\<not> leaf KPD" "\<not> leaf (KPT a b)" "\<not> leaf KOther"
  by (simp_all add: leaf_def)

definition same_tables :: "kstate \<Rightarrow> kstate \<Rightarrow> bool" where
  "same_tables s s' \<longleftrightarrow> npages s' = npages s \<and> pmem s' = pmem s \<and> kern_pgdir s' = kern_pgdir s"

lemma mappings_role:
  assumes "leaf (K p)" "leaf k" "pmem s' = pmem s"
  shows "mappings (K(p := k)) s' q = mappings K s q"
proof -
  from assms have "is_pt (K(p := k)) t = is_pt K t" for t
    by (auto simp: is_pt_def leaf_def)
  with assms(3) show ?thesis
    by (simp add: mappings_def)
qed

lemma dir_ok_role:
  assumes "dir_ok K s" "leaf (K p)" "leaf k" "same_tables s s'"
  shows "dir_ok (K(p := k)) s'"
  unfolding dir_ok_def
proof (intro allI impI)
  fix pd
  assume "(K(p := k)) pd = KPD"
  with assms(3) have pd: "K pd = KPD" by (auto split: if_splits)
  have keep: "K q = KPT a b \<Longrightarrow> (K(p := k)) q = KPT a b" for q a b
    using assms(2) by auto
  from assms(1) pd have D: "\<forall>d<955. pmem s pd d = 0 \<or> pde_ok (pmem s pd d) \<and> K (frame (pmem s pd d)) = KPT pd d"
    "\<forall>d. 955 \<le> d \<longrightarrow> d < 1024 \<longrightarrow> kpde_ok (npages s) pd d (pmem s pd d)"
    unfolding dir_ok_def by blast+
  from D(1) keep have "\<forall>d<955. pmem s pd d = 0 \<or> pde_ok (pmem s pd d) \<and> (K(p := k)) (frame (pmem s pd d)) = KPT pd d"
    by blast
  with D(2) show "(\<forall>d<955. pmem s' pd d = 0 \<or> pde_ok (pmem s' pd d) \<and> (K(p := k)) (frame (pmem s' pd d)) = KPT pd d) \<and>
    (\<forall>d. 955 \<le> d \<longrightarrow> d < 1024 \<longrightarrow> kpde_ok (npages s') pd d (pmem s' pd d))"
    using assms(4) by (simp add: same_tables_def)
qed

lemma table_ok_role:
  assumes "table_ok K s" "leaf (K p)" "leaf k" "same_tables s s'"
    and "K p = KData \<Longrightarrow> k \<noteq> KData \<Longrightarrow> mappings K s p = {}"
  shows "table_ok (K(p := k)) s'"
  unfolding table_ok_def
proof (intro allI impI)
  fix t pd d
  assume "(K(p := k)) t = KPT pd d"
  with assms(3) have t: "K t = KPT pd d" by (auto split: if_splits)
  with assms(1) have T: "K pd = KPD" "d < 955" "present (pmem s pd d)" "frame (pmem s pd d) = t"
    "\<And>i. i < 1024 \<Longrightarrow> present (pmem s t i) \<Longrightarrow> K (frame (pmem s t i)) = KData"
    unfolding table_ok_def by blast+
  have "(K(p := k)) (frame (pmem s t i)) = KData" if "i < 1024" "present (pmem s t i)" for i
  proof -
    have "(t, i) \<in> mappings K s (frame (pmem s t i))"
      using that t by (simp add: mappings_def)
    with T(5) [OF that] assms(5) show ?thesis by auto
  qed
  with T assms(2,4) show "(K(p := k)) pd = KPD \<and> d < 955 \<and> present (pmem s' pd d) \<and>
      frame (pmem s' pd d) = t \<and>
      (\<forall>i<1024. present (pmem s' t i) \<longrightarrow> (K(p := k)) (frame (pmem s' t i)) = KData)"
    by (auto simp: same_tables_def)
qed

lemma kern_ok_role:
  "kern_ok K s \<Longrightarrow> leaf (K p) \<Longrightarrow> same_tables s s' \<Longrightarrow> kern_ok (K(p := k)) s'"
  by (auto simp: kern_ok_def same_tables_def leaf_def)

lemma vm_inv_role:
  assumes "vm_inv K x s" "leaf (K p)" "leaf k" "same_tables s s'"
    and "K p = KData \<Longrightarrow> k \<noteq> KData \<Longrightarrow> mappings K s p = {}"
    and "free_ok (K(p := k)) s'" "page_ok (K(p := k)) s'" "ref_ok (K(p := k)) x' s'"
  shows "vm_inv (K(p := k)) x' s'"
  unfolding vm_inv_def
  using assms dir_ok_role [of K s p k s'] table_ok_role [of K s p k s'] kern_ok_role [of K s p s' k]
  by (simp add: vm_inv_def)

lemma ref_okD:
  assumes "vm_inv K x s"
  shows "K p = KData \<Longrightarrow> 0 < nrefs K x s p" "K p = KData \<Longrightarrow> unat (pp_ref (pages s p)) = nrefs K x s p"
    and "K p \<noteq> KData \<Longrightarrow> x p = 0" "K p \<noteq> KData \<Longrightarrow> mappings K s p = {}"
proof -
  show "K p = KData \<Longrightarrow> 0 < nrefs K x s p" "K p = KData \<Longrightarrow> unat (pp_ref (pages s p)) = nrefs K x s p"
    "K p \<noteq> KData \<Longrightarrow> x p = 0"
    using assms by (auto simp: vm_inv_def ref_ok_def)
  show "K p \<noteq> KData \<Longrightarrow> mappings K s p = {}"
    using pte_data [OF assms] by (auto simp: mappings_def)
qed

lemma nrefs_new: "vm_inv K x s \<Longrightarrow> K p \<noteq> KData \<Longrightarrow> nrefs K x s p = 0"
  by (simp add: nrefs_def ref_okD)

lemma pinfoD: "vm_inv K x s \<Longrightarrow> pinfo_ok (K p) (pages s p)"
  by (simp add: vm_inv_def page_ok_def)

lemma page_ok_role:
  assumes "vm_inv K x s" "K p \<noteq> KOther" "pinfo_ok k (pages s' p)" "npages s' = npages s"
    and "\<And>q. q \<noteq> p \<Longrightarrow> pages s' q = pages s q"
  shows "page_ok (K(p := k)) s'"
  using assms by (auto simp: vm_inv_def page_ok_def)

lemma free_list_of:
  assumes "vm_inv K x s"
  obtains fl where "page_chain s fl" "set fl = {p. K p = KFree}" "distinct fl"
  using assms by (auto simp: vm_inv_def free_ok_def page_chain_def dest: links_distinct)

text \<open>Taking the head of the free list.\<close>

lemma vm_inv_take:
  assumes inv: "vm_inv K x s" and ch: "page_chain s (p # ps)"
  shows "K p = KFree" and "vm_inv (K(p := KNew)) x (page_pop s)"
proof -
  from inv obtain fl where fl: "page_chain s fl" "set fl = {p. K p = KFree}" "distinct fl"
    by (rule free_list_of)
  have "fl = p # ps"
    using fl(1) ch unfolding page_chain_def by (rule links_unique)
  with fl have set_ps: "insert p (set ps) = {p. K p = KFree}" and nin: "p \<notin> set ps"
    by auto
  then show p: "K p = KFree" by auto
  have hd: "page_free_list s = Some p"
    using ch by (simp add: page_chain_def)
  let ?K = "K(p := KNew)" and ?s = "page_pop s"
  have st: "same_tables s ?s"
    using hd by (simp add: same_tables_def page_pop_def upd_page_def)
  have f: "\<And>q. pp_ref (pages ?s q) = pp_ref (pages s q)" "\<And>q. q \<noteq> p \<Longrightarrow> page_link ?s q = page_link s q"
    "page_link ?s p = None"
    using hd by (auto simp: page_pop_def upd_page_def)
  have m: "mappings ?K ?s q = mappings K s q" for q
    using p st by (intro mappings_role) (auto simp: same_tables_def)
  have ch': "page_chain ?s ps"
    using ch unfolding page_chain_def by (rule pfl.pop_links)
  have "set ps = {q. ?K q = KFree}"
    using set_ps nin by auto
  with ch' have "free_ok ?K ?s"
    unfolding free_ok_def by blast
  moreover have "page_ok ?K ?s"
    using inv p hd pinfoD [OF inv, of p]
    by (intro page_ok_role) (auto simp: page_pop_def upd_page_def)
  moreover have "ref_ok ?K x ?s"
    using inv p f m unfolding vm_inv_def ref_ok_def nrefs_def by auto
  ultimately show "vm_inv ?K x ?s"
    using inv p st by (intro vm_inv_role [of K x s]) auto
qed

text \<open>Counting a reference that the kernel holds, on a new page or on a data page.\<close>

lemma vm_inv_incref:
  assumes inv: "vm_inv K x s" and p: "K p = KNew \<or> K p = KData"
    and no: "pp_ref (pages s p) \<noteq> 0xFFFF"
  shows "vm_inv (K(p := KData)) (x(p := x p + 1)) (upd_page p (\<lambda>q. q\<lparr>pp_ref := pp_ref q + 1\<rparr>) s)"
proof -
  let ?K = "K(p := KData)" and ?s = "upd_page p (\<lambda>q. q\<lparr>pp_ref := pp_ref q + 1\<rparr>) s"
  have st: "same_tables s ?s"
    by (simp add: same_tables_def upd_page_def)
  have m: "mappings ?K ?s q = mappings K s q" for q
    using p st by (intro mappings_role) (auto simp: same_tables_def)
  from inv obtain fl where fl: "page_chain s fl" "set fl = {p. K p = KFree}" "distinct fl"
    by (rule free_list_of)
  with p have "page_chain ?s fl" "set fl = {q. ?K q = KFree}"
    by auto
  then have "free_ok ?K ?s"
    unfolding free_ok_def by blast
  moreover have "page_ok ?K ?s"
    using inv p pinfoD [OF inv, of p] by (intro page_ok_role) (auto simp: upd_page_def)
  moreover have "ref_ok ?K (x(p := x p + 1)) ?s"
  proof -
    have "unat (pp_ref (pages s p)) = nrefs K x s p"
      using p
    proof
      assume "K p = KNew"
      with inv show ?thesis
        using pinfoD [OF inv, of p] by (simp add: nrefs_new)
    qed (simp add: ref_okD [OF inv])
    then show ?thesis
      using ref_okD [OF inv] m u16_inc [OF no] by (auto simp: ref_ok_def nrefs_def upd_page_def)
  qed
  ultimately show ?thesis
    using inv p st by (intro vm_inv_role [of K x s]) auto
qed

text \<open>Dropping a reference the kernel holds; the last one returns the page to the free list.\<close>

lemma vm_inv_decref:
  assumes inv: "vm_inv K x s" and p: "K p = KData" "0 < x p"
  shows "\<exists>s' K'. page_decref p s = Inr ((), s') \<and> vm_inv K' (x(p := x p - 1)) s' \<and>
    K' = (if nrefs K x s p = 1 then K(p := KFree) else K) \<and>
    s' = s\<lparr>pages := pages s', page_free_list := page_free_list s'\<rparr>"
proof (cases "nrefs K x s p = 1")
  case True
  let ?K = "K(p := KFree)" and ?s = "page_push p (upd_page p (\<lambda>q. q\<lparr>pp_ref := 0\<rparr>) s)"
  have ref: "pp_ref (pages s p) = 1"
    using True ref_okD(2) [OF inv p(1)] by (simp add: word_unat_eq_iff)
  have st: "same_tables s ?s"
    by (simp add: same_tables_def upd_page_def page_push_def)
  have m: "mappings ?K ?s q = mappings K s q" for q
    using p st by (intro mappings_role) (auto simp: same_tables_def)
  have "card (mappings K s p) = 0"
    using True p(2) by (simp add: nrefs_def)
  then have mp: "mappings K s p = {}"
    using finite_mappings [of K s p] inv by (auto simp: vm_inv_def)
  from inv obtain fl where fl: "page_chain s fl" "set fl = {p. K p = KFree}" "distinct fl"
    by (rule free_list_of)
  with p have "page_chain ?s (p # fl)" "set (p # fl) = {q. ?K q = KFree}"
    by (auto intro!: page_chain_push)
  then have "free_ok ?K ?s"
    unfolding free_ok_def by blast
  moreover have "page_ok ?K ?s"
    using inv p by (intro page_ok_role) (auto simp: upd_page_def page_push_def)
  moreover have "ref_ok ?K (x(p := x p - 1)) ?s"
    using ref_okD [OF inv] m mp True
    by (auto simp: ref_ok_def nrefs_def upd_page_def page_push_def)
  ultimately have "vm_inv ?K (x(p := x p - 1)) ?s"
    using inv p st mp by (intro vm_inv_role [of K x s]) auto
  moreover have "page_decref p s = Inr ((), ?s)"
    using pinfoD [OF inv, of p] p ref by (intro page_decref_last) auto
  ultimately show ?thesis
    using True by (auto simp: page_push_def upd_page_def)
next
  case False
  let ?s = "upd_page p (\<lambda>q. q\<lparr>pp_ref := pp_ref q - 1\<rparr>) s"
  have ref: "unat (pp_ref (pages s p)) = nrefs K x s p" "0 < nrefs K x s p"
    using ref_okD(1,2) [OF inv p(1)] by auto
  with False have ne: "pp_ref (pages s p) \<noteq> 1" "pp_ref (pages s p) \<noteq> 0"
    by (auto simp: word_unat_eq_iff)
  have st: "same_tables s ?s"
    by (simp add: same_tables_def upd_page_def)
  have m: "mappings K ?s q = mappings K s q" for q
    by (simp add: mappings_def upd_page_def)
  from inv obtain fl where fl: "page_chain s fl" "set fl = {p. K p = KFree}" "distinct fl"
    by (rule free_list_of)
  with p have "page_chain ?s fl" by auto
  with fl have "free_ok K ?s"
    unfolding free_ok_def by blast
  moreover have K: "K(p := KData) = K"
    using p by auto
  moreover have "page_ok (K(p := KData)) ?s"
    using inv p pinfoD [OF inv, of p] by (intro page_ok_role) (auto simp: upd_page_def)
  moreover have "ref_ok K (x(p := x p - 1)) ?s"
    using ref_okD [OF inv] m u16_dec [OF ne(2)] ref False p
    by (auto simp: ref_ok_def nrefs_def upd_page_def)
  ultimately have "vm_inv K (x(p := x p - 1)) ?s"
    using inv p st vm_inv_role [of K x s p KData ?s "x(p := x p - 1)"] by simp
  then show ?thesis
    using False ne p by (simp add: page_decref_keep upd_page_def)
qed

text \<open>Writing a page that is no directory and no table leaves the invariant alone.\<close>

lemma vm_inv_write_page:
  assumes inv: "vm_inv K x s" and f: "leaf (K f)"
  shows "vm_inv K x (s\<lparr>pmem := (pmem s)(f := g)\<rparr>)"
proof -
  let ?s = "s\<lparr>pmem := (pmem s)(f := g)\<rparr>"
  have old: "pmem ?s q = pmem s q" if "\<not> leaf (K q)" for q
    using that f by auto
  have "pmem ?s a = pmem s a" if "is_pt K a" for a
    using that by (intro old) (auto elim: is_ptE)
  then have m: "mappings K ?s q = mappings K s q" for q
    by (auto simp only: mappings_def)
  have "dir_ok K ?s"
    using inv old unfolding vm_inv_def dir_ok_def by simp
  moreover have "table_ok K ?s"
    using inv old unfolding vm_inv_def table_ok_def by simp
  moreover have "kern_ok K ?s"
    using inv old [of "kern_pgdir s"] unfolding vm_inv_def kern_ok_def by simp
  ultimately show ?thesis
    using inv m by (simp add: vm_inv_def free_ok_def page_ok_def ref_ok_def nrefs_def page_chain_def)
qed

text \<open>Writing an entry of a page table moves one reference between the entry and the kernel.\<close>

lemma mappings_set_word:
  assumes "is_pt K t" "i < 1024"
  shows "mappings K (set_word t i w s) q =
    (if present w \<and> frame w = q then insert (t, i) (mappings K s q) else mappings K s q - {(t, i)})"
  using assms by (auto simp: mappings_def pmem_set_word split: if_splits)

lemma vm_inv_set_pte:
  assumes inv: "vm_inv K x s" and t: "K t = KPT pd d" and i: "i < 1024"
    and w: "present w \<Longrightarrow> K (frame w) = KData" and ref: "ref_ok K x' (set_word t i w s)"
  shows "vm_inv K x' (set_word t i w s)"
proof -
  let ?s = "set_word t i w s"
  have old: "pmem ?s q = pmem s q" if "q \<noteq> t" for q
    using that by (simp add: set_word_def)
  have ne: "K q = KPD \<Longrightarrow> q \<noteq> t" "kern_pgdir s \<noteq> t" for q
    using t inv by (auto simp: vm_inv_def kern_ok_def)
  have "dir_ok K ?s"
    using inv old ne unfolding vm_inv_def dir_ok_def by simp
  moreover have "table_ok K ?s"
    unfolding table_ok_def
  proof (intro allI impI)
    fix t' pd' d'
    assume t': "K t' = KPT pd' d'"
    have "K (frame (pmem ?s t' j)) = KData" if "j < 1024" "present (pmem ?s t' j)" for j
      using that w table_okD(5) [OF inv t', of j] by (auto simp: pmem_set_word split: if_splits)
    with table_okD(1-4) [OF inv t'] ne(1) [of pd']
    show "K pd' = KPD \<and> d' < 955 \<and> present (pmem ?s pd' d') \<and> frame (pmem ?s pd' d') = t' \<and>
      (\<forall>i<1024. present (pmem ?s t' i) \<longrightarrow> K (frame (pmem ?s t' i)) = KData)"
      by (simp add: old)
  qed
  moreover have "kern_ok K ?s"
    using inv old [of "kern_pgdir s"] ne unfolding vm_inv_def kern_ok_def by simp
  moreover have "free_ok K ?s" "page_ok K ?s"
    using inv by (simp_all add: vm_inv_def free_ok_def page_ok_def page_chain_def)
  ultimately show ?thesis
    using ref by (simp add: vm_inv_def)
qed

lemma vm_inv_map:
  assumes inv: "vm_inv K x s" and t: "K t = KPT pd d" and i: "i < 1024"
    and e: "\<not> present (pmem s t i)" and w: "present w" "frame w = p" "K p = KData" "0 < x p"
  shows "vm_inv K (x(p := x p - 1)) (set_word t i w s)"
proof (rule vm_inv_set_pte [OF inv t i])
  let ?s = "set_word t i w s"
  have fin: "finite (mappings K s q)" for q
    using inv by (simp add: vm_inv_def finite_mappings)
  have nin: "(t, i) \<notin> mappings K s q" for q
    using e by (simp add: mappings_def)
  have "nrefs K (x(p := x p - 1)) ?s q = nrefs K x s q" for q
    using w fin nin mappings_set_word [OF is_ptI [of K t pd d] i, of w s q] t by (auto simp: nrefs_def)
  with ref_okD [OF inv] w(3) show "ref_ok K (x(p := x p - 1)) ?s"
    by (auto simp: ref_ok_def)
qed (use w in simp)

lemma vm_inv_unmap:
  assumes inv: "vm_inv K x s" and t: "K t = KPT pd d" and i: "i < 1024"
    and e: "present (pmem s t i)" "frame (pmem s t i) = p"
  shows "vm_inv K (x(p := x p + 1)) (set_word t i 0 s)"
proof (rule vm_inv_set_pte [OF inv t i])
  let ?s = "set_word t i 0 s"
  have p: "K p = KData"
    using table_okD(5) [OF inv t i] e by simp
  have fin: "finite (mappings K s q)" for q
    using inv by (simp add: vm_inv_def finite_mappings)
  have isin: "(t, i) \<in> mappings K s q \<longleftrightarrow> q = p" for q
    using e t i by (auto simp: mappings_def)
  have ms: "mappings K ?s q = mappings K s q - {(t, i)}" for q
    using mappings_set_word [OF is_ptI [of K t pd d] i, of 0 s q] t by simp
  have "nrefs K (x(p := x p + 1)) ?s q = nrefs K x s q" for q
    using card_Suc_Diff1 [OF fin [of q], of "(t, i)"] isin [of q]
    by (cases "q = p") (auto simp: nrefs_def ms)
  with ref_okD [OF inv] p show "ref_ok K (x(p := x p + 1)) ?s"
    by (auto simp: ref_ok_def)
qed simp

text \<open>Installing a new, zeroed page as a page table.\<close>

lemma vm_inv_new_table:
  assumes inv: "vm_inv K x s" and p: "K p = KNew" and z: "\<And>i. i < 1024 \<Longrightarrow> pmem s p i = 0"
    and pd: "K pd = KPD" and d: "d < 955" and e: "pmem s pd d = 0" and w: "present w" "frame w = p" "pde_ok w"
  shows "vm_inv (K(p := KPT pd d)) x
    (set_word pd d w (upd_page p (\<lambda>q. q\<lparr>pp_ref := pp_ref q + 1\<rparr>) s))"
proof -
  let ?K = "K(p := KPT pd d)" and ?u = "upd_page p (\<lambda>q. q\<lparr>pp_ref := pp_ref q + 1\<rparr>) s"
  define s' where "s' = set_word pd d w ?u"
  have ne: "pd \<noteq> p" "kern_pgdir s \<noteq> pd" "kern_pgdir s \<noteq> p"
    using p pd inv by (auto simp: vm_inv_def kern_ok_def)
  have pm: "pmem s' q j = (if q = pd \<and> j = d then w else pmem s q j)" for q j
    by (simp add: pmem_set_word s'_def)
  have f: "npages s' = npages s" "kern_pgdir s' = kern_pgdir s" "pages s' = pages ?u"
    by (simp_all add: s'_def)
  from inv obtain fl where fl: "page_chain s fl" "set fl = {p. K p = KFree}" "distinct fl"
    by (rule free_list_of)
  then have "page_chain ?u fl" "set fl = {q. ?K q = KFree}"
    using p by auto
  then have "free_ok ?K s'"
    unfolding free_ok_def by (auto simp: page_chain_def s'_def)
  moreover have "page_ok ?K s'"
    using inv p pinfoD [OF inv, of p] by (intro page_ok_role) (auto simp: f)
  moreover have "dir_ok ?K s'"
    unfolding dir_ok_def
  proof (intro allI impI conjI)
    fix pd' d'
    assume "?K pd' = KPD" "d' < (955::nat)"
    then have pd': "K pd' = KPD" by (auto split: if_splits)
    from inv this \<open>d' < 955\<close> show "pmem s' pd' d' = 0 \<or> pde_ok (pmem s' pd' d') \<and> ?K (frame (pmem s' pd' d')) = KPT pd' d'"
      by (cases rule: user_pde_cases) (use w p in \<open>auto simp: pm\<close>)
  next
    fix pd' d'
    assume "?K pd' = KPD" "955 \<le> d'" "d' < (1024::nat)"
    then show "kpde_ok (npages s') pd' d' (pmem s' pd' d')"
      using d kernel_pde [OF inv, of pd' d'] by (auto simp: pm f split: if_splits)
  qed
  moreover have "table_ok ?K s'"
    unfolding table_ok_def
  proof (intro allI impI)
    fix t pd' d'
    assume t: "?K t = KPT pd' d'"
    show "?K pd' = KPD \<and> d' < 955 \<and> present (pmem s' pd' d') \<and> frame (pmem s' pd' d') = t \<and>
      (\<forall>i<1024. present (pmem s' t i) \<longrightarrow> ?K (frame (pmem s' t i)) = KData)"
    proof (cases "t = p")
      case True
      with t ne pd d w z show ?thesis by (auto simp: pm)
    next
      case False
      with t have T: "K t = KPT pd' d'" by simp
      then have "t \<noteq> pd" using pd by auto
      moreover have "frame (pmem s t i) \<noteq> p" if "i < 1024" "present (pmem s t i)" for i
        using table_okD(5) [OF inv T that] p by auto
      ultimately show ?thesis
        using table_okD [OF inv T] p e by (auto simp: pm)
    qed
  qed
  moreover have "mappings ?K s' q = mappings K s q" for q
    using p pd z by (auto simp: mappings_def is_pt_upd pm split: if_splits) (auto simp: is_pt_def)
  then have "ref_ok ?K x s'"
    using ref_okD [OF inv] p by (auto simp: ref_ok_def nrefs_def f)
  moreover have "kern_ok ?K s'"
    using inv ne by (simp add: vm_inv_def kern_ok_def f pm)
  ultimately show ?thesis
    by (simp add: vm_inv_def s'_def)
qed

end
