(* ===== verification/VmOps.thy ===== *)
theory VmOps
  imports VmInv
begin

text \<open>
  What the page table operations of kern/pmap.c do to the address spaces, and that they keep the
  invariant of the virtual memory system: \<open>pgdir_walk\<close>, \<open>page_lookup\<close>, \<open>page_remove\<close>, \<open>page_insert\<close>.
\<close>

unbundle bit_operations_syntax

section \<open>What the operations leave alone\<close>

text \<open>
  Everything but the page bookkeeping, physical memory and the TLB log.
\<close>

definition vm_frame :: "kstate \<Rightarrow> kstate \<Rightarrow> bool" where
  "vm_frame s s' \<longleftrightarrow> npages s' = npages s \<and> npages_basemem s' = npages_basemem s \<and>
    kern_pgdir s' = kern_pgdir s \<and> nextfree s' = nextfree s \<and> mmio_base s' = mmio_base s \<and>
    user_mem_check_addr s' = user_mem_check_addr s \<and> envs s' = envs s \<and>
    env_free_list s' = env_free_list s \<and> cpunum s' = cpunum s \<and> kernel_lock s' = kernel_lock s \<and>
    ticks s' = ticks s \<and> cons s' = cons s \<and> nic s' = nic s \<and>
    (\<forall>c. cpu_env (cpus s' c) = cpu_env (cpus s c) \<and> cpu_status (cpus s' c) = cpu_status (cpus s c) \<and>
         ts_esp0 (cpus s' c) = ts_esp0 (cpus s c) \<and> ts_ss0 (cpus s' c) = ts_ss0 (cpus s c) \<and>
         cr3 (cpus s' c) = cr3 (cpus s c))"

lemma vm_frame_refl [simp]: "vm_frame s s"
  by (simp add: vm_frame_def)

lemma vm_frame_trans: "vm_frame s s' \<Longrightarrow> vm_frame s' s'' \<Longrightarrow> vm_frame s s''"
  by (simp add: vm_frame_def)

lemma vm_frame_sel:
  assumes "vm_frame s s'"
  shows "npages s' = npages s" "kern_pgdir s' = kern_pgdir s" "envs s' = envs s"
    "env_free_list s' = env_free_list s" "cpunum s' = cpunum s" "curenv s' = curenv s"
    "cpu_env (cpus s' c) = cpu_env (cpus s c)" "cpu_status (cpus s' c) = cpu_status (cpus s c)"
    "cr3 (cpus s' c) = cr3 (cpus s c)" "cons s' = cons s" "nic s' = nic s" "ticks s' = ticks s"
  using assms by (simp_all add: vm_frame_def curenv_def)

lemma page_push_fields [simp]:
  "npages (page_push p s) = npages s" "pmem (page_push p s) = pmem s"
  "kern_pgdir (page_push p s) = kern_pgdir s" "envs (page_push p s) = envs s"
  "cpus (page_push p s) = cpus s" "cpunum (page_push p s) = cpunum s"
  by (simp_all add: page_push_def)

lemma vm_frame_upd:
  "vm_frame s (upd_page p f s)" "vm_frame s (set_word t i w s)" "vm_frame s (zero_page q s)"
  "vm_frame s (page_push q s)" "vm_frame s (page_pop s)" "vm_frame s (invlpg va s)"
  "vm_frame s (tlb_invalidate pd va s)"
  by (auto simp: vm_frame_def page_push_def page_pop_def tlb_invalidate_def invlpg_def split: option.split)

lemma vm_frame_simps [simp]:
  "vm_frame s s' \<Longrightarrow> vm_frame s (upd_page p f s')" "vm_frame s s' \<Longrightarrow> vm_frame s (set_word t i w s')"
  "vm_frame s s' \<Longrightarrow> vm_frame s (zero_page q s')" "vm_frame s s' \<Longrightarrow> vm_frame s (page_push q s')"
  "vm_frame s s' \<Longrightarrow> vm_frame s (page_pop s')" "vm_frame s s' \<Longrightarrow> vm_frame s (tlb_invalidate pd va s')"
  by (rule vm_frame_trans, assumption, rule vm_frame_upd)+

lemma vm_inv_tlb [simp]: "vm_inv K x (tlb_invalidate pd va s) = vm_inv K x s"
  by (rule vm_inv_cong) (simp_all add: tlb_invalidate_def split: option.split)

lemma pmem_tlb [simp]: "pmem (tlb_invalidate pd va s) = pmem s"
  by (simp add: tlb_invalidate_def split: option.split)

section \<open>Page table writes and address spaces\<close>

text \<open>Two directories of the invariant never share a page table.\<close>

lemma table_owner:
  assumes "vm_inv K x s" "K t = KPT pd d" "K pd' = KPD" "d' < 955" "present (pmem s pd' d')"
  shows "frame (pmem s pd' d') = t \<longleftrightarrow> pd' = pd \<and> d' = d"
proof
  from assms(1,3,4) have "K (frame (pmem s pd' d')) = KPT pd' d'"
    by (cases rule: user_pde_cases) (use assms(5) in auto)
  then show "frame (pmem s pd' d') = t \<Longrightarrow> pd' = pd \<and> d' = d"
    using assms(2) by simp
  show "pd' = pd \<and> d' = d \<Longrightarrow> frame (pmem s pd' d') = t"
    using table_okD(4) [OF assms(1,2)] by blast
qed

lemma pte_of_set_pte:
  assumes "vm_inv K x s" "K t = KPT pd d" "K pd' = KPD" "pdx va < 955"
  shows "pte_of (set_word t i w s) pd' va =
    (if pd' = pd \<and> pdx va = d \<and> ptx va = i then Some w else pte_of s pd' va)"
proof -
  have ne: "t \<noteq> pd'" using assms(2,3) by auto
  then have pde: "pmem (set_word t i w s) pd' (pdx va) = pmem s pd' (pdx va)"
    by (simp add: pmem_set_word)
  show ?thesis
  proof (cases "present (pmem s pd' (pdx va))")
    case False
    with table_okD(3) [OF assms(1,2)] show ?thesis
      by (auto simp: pte_of_def pde)
  next
    case True
    with table_owner [OF assms(1-4)] ne show ?thesis
      by (auto simp: pte_of_def pmem_set_word)
  qed
qed

lemma pte_of_cong: "pmem s = pmem s' \<Longrightarrow> pte_of s pd va = pte_of s' pd va"
  by (simp add: pte_of_def Let_def)

lemma aspace_cong: "pmem s = pmem s' \<Longrightarrow> aspace s pd va = aspace s' pd va"
  using pte_of_cong [of s s' pd va] by (simp add: aspace_def)

lemma pte_of_new_table:
  assumes inv: "vm_inv K x s" and p: "K p = KNew" and z: "\<And>i. i < 1024 \<Longrightarrow> pmem s p i = 0"
    and pd: "K pd = KPD" "K pd' = KPD" and va: "pdx va < 955" and w: "present w" "frame w = p"
  shows "pte_of (set_word pd d w s) pd' va = (if pd' = pd \<and> pdx va = d then Some 0 else pte_of s pd' va)"
proof -
  have ne: "pd \<noteq> p" using p pd by auto
  have tn: "frame (pmem s pd' (pdx va)) \<noteq> pd" if "present (pmem s pd' (pdx va))"
    using inv pd(2) va by (cases rule: user_pde_cases) (use that pd(1) in auto)
  show ?thesis
    using w z tn ne by (auto simp: pte_of_def pmem_set_word Let_def)
qed

section \<open>Walking\<close>

lemma KADDR_pde:
  assumes "vm_inv K x s" "K pd = KPD"
  shows "KADDR (PTE_ADDR (pmem s pd (pdx va))) s = Inr (frame (pmem s pd (pdx va)), s)"
  using pde_frame_less [OF assms, of "pdx va"] by (simp add: KADDR_def)

lemma pgdir_walk_found:
  assumes "vm_inv K x s" "K pd = KPD" "present (pmem s pd (pdx va))"
  shows "pgdir_walk pd va c s = Inr (Some (frame (pmem s pd (pdx va)), ptx va), s)"
  using assms(3) by (simp add: pgdir_walk_def KADDR_pde [OF assms(1,2)] and.commute [of 1])

lemma pgdir_walk_absent:
  assumes "vm_inv K x s" "K pd = KPD" "\<not> present (pmem s pd (pdx va))"
  shows "pgdir_walk pd va False s = Inr (None, s)"
  using assms(3) by (simp add: pgdir_walk_def KADDR_pde [OF assms(1,2)] and.commute [of 1])

lemma page_alloc_inv:
  assumes inv: "vm_inv K x s"
  obtains (full) "page_alloc fl s = Inr (None, s)" "page_free_list s = None"
  | (ok) p s' where "page_alloc fl s = Inr (Some p, s')" "K p = KFree" "vm_inv (K(p := KNew)) x s'"
    "s' = (if odd fl then zero_page p (page_pop s) else page_pop s)"
    "\<And>q. q \<noteq> p \<Longrightarrow> pmem s' q = pmem s q" "odd fl \<Longrightarrow> pmem s' p = (\<lambda>_. 0)"
    "\<And>q. q \<noteq> p \<Longrightarrow> pages s' q = pages s q" "vm_frame s s'" "page_free_list s = Some p"
proof -
  from inv obtain fr where fr: "page_chain s fr" "set fr = {p. K p = KFree}" "distinct fr"
    by (rule free_list_of)
  show thesis
  proof (cases fr)
    case Nil
    then show thesis
      using fr page_alloc_None [of s fl] by (intro full) (auto simp: page_chain_def)
  next
    case (Cons p ps)
    with fr have ch: "page_chain s (p # ps)" by simp
    note tk = vm_inv_take [OF inv ch]
    have p: "p < npages s" "npages s \<le> 1048576"
      using inv tk(1) vm_inv_bound [OF inv, of p] by (auto simp: vm_inv_def page_ok_def)
    have hd: "page_free_list s = Some p"
      using ch by (simp add: page_chain_def)
    then have pm: "pmem (page_pop s) = pmem s" "\<And>q. q \<noteq> p \<Longrightarrow> pages (page_pop s) q = pages s q"
      by (simp_all add: page_pop_def)
    have "vm_inv (K(p := KNew)) x (zero_page p (page_pop s))"
      unfolding zero_page_def by (rule vm_inv_write_page [OF tk(2)]) simp
    with tk page_alloc_Some(1) [OF ch p, of fl] show thesis
      by (intro ok [of p "if odd fl then zero_page p (page_pop s) else page_pop s"])
        (auto simp: fun_eq_iff pm hd)
  qed
qed

lemma pde_entry_ok: "pde_ok (w OR PTE_P OR PTE_W OR PTE_U)"
proof -
  have "(7 :: u32) = mask 3" by (simp add: mask_eq_exp_minus_1)
  then have "bit (w OR 7) k" if "k < 3" for k
    using that by (simp only: bit_or_iff bit_mask_iff) simp
  then have "(w OR 7) AND 2 \<noteq> 0" "(w OR 7) AND 4 \<noteq> 0" "(w OR 7) AND 1 \<noteq> 0"
    using and_exp_eq_0_iff_not_bit [of "w OR 7" 0] and_exp_eq_0_iff_not_bit [of "w OR 7" 1]
      and_exp_eq_0_iff_not_bit [of "w OR 7" 2]
    by (simp_all del: one_and_eq and_one_eq)
  then show ?thesis by (simp add: pde_ok_def)
qed

text \<open>
  With \<open>create\<close>, \<open>pgdir_walk\<close> fails only when no page is free, and otherwise returns the entry of
  the table of the slot, which it installs if there was none; no mapping changes.
\<close>

lemma pgdir_walk_install:
  assumes inv: "vm_inv K x s" and pd: "K pd = KPD" and va: "pdx va < 955" and e: "pmem s pd (pdx va) = 0"
    and al: "page_alloc ALLOC_ZERO s = Inr (Some p, u)" "K p = KFree" "vm_inv (K(p := KNew)) x u"
      "u = zero_page p (page_pop s)"
  defines "s' \<equiv> set_word pd (pdx va) (page2pa p OR PTE_P OR PTE_W OR PTE_U)
    (upd_page p (\<lambda>q. q\<lparr>pp_ref := pp_ref q + 1\<rparr>) u)"
  shows "pgdir_walk pd va True s = Inr (Some (p, ptx va), s')"
    and "vm_inv (K(p := KPT pd (pdx va))) x s'"
    and "K pd' = KPD \<Longrightarrow> pdx va' < 955 \<Longrightarrow> aspace s' pd' va' = aspace s pd' va'"
proof -
  let ?e = "page2pa p OR PTE_P OR PTE_W OR PTE_U" and ?K = "K(p := KNew)"
  have p: "p < 1048576" "p < npages s"
    using vm_inv_bound [OF inv, of p] al(2) by auto
  note en = pde_entry [OF p(1)]
  have ne: "pd \<noteq> p" using pd al(2) by auto
  have pop: "npages (page_pop s) = npages s" "pmem (page_pop s) = pmem s"
    by (simp_all add: page_pop_def split: option.split)
  have u: "pmem u p = (\<lambda>_. 0)" "\<And>q. q \<noteq> p \<Longrightarrow> pmem u q = pmem s q" "npages u = npages s"
    by (simp_all add: al(4) fun_eq_iff pop)
  have K: "KADDR (PTE_ADDR ?e) s' = Inr (p, s')"
    using en(1) p u by (simp add: KADDR_def s'_def)
  show "pgdir_walk pd va True s = Inr (Some (p, ptx va), s')"
    using K KADDR_pde [OF inv pd, of va] al(1) by (simp add: pgdir_walk_def e Let_def s'_def)
  have "vm_inv (?K(p := KPT pd (pdx va))) x s'"
    unfolding s'_def by (rule vm_inv_new_table [OF al(3)]) (use u ne pd va e en pde_entry_ok [of "page2pa p"] in auto)
  then show "vm_inv (K(p := KPT pd (pdx va))) x s'"
    by simp
  assume pd': "K pd' = KPD" and va': "pdx va' < 955"
  then have ne': "pd' \<noteq> p" using al(2) by auto
  let ?v = "upd_page p (\<lambda>q. q\<lparr>pp_ref := pp_ref q + 1\<rparr>) u"
  have "pte_of s' pd' va' = pte_of (set_word pd (pdx va) ?e u) pd' va'"
    by (rule pte_of_cong) (simp add: s'_def set_word_def)
  also have "\<dots> = (if pd' = pd \<and> pdx va' = pdx va then Some 0 else pte_of u pd' va')"
    by (rule pte_of_new_table [OF al(3)]) (use u ne ne' pd pd' va' en in auto)
  also have "pte_of u pd' va' = pte_of s pd' va'"
  proof -
    have "frame (pmem s pd' (pdx va')) \<noteq> p" if "present (pmem s pd' (pdx va'))"
      using inv pd' va' by (cases rule: user_pde_cases) (use that al(2) in auto)
    with u(2) ne' show ?thesis by (auto simp: pte_of_def Let_def)
  qed
  finally show "aspace s' pd' va' = aspace s pd' va'"
    using e by (simp add: aspace_def pte_of_def)
qed

lemma pgdir_walk_create:
  assumes inv: "vm_inv K x s" and pd: "K pd = KPD" and va: "pdx va < 955"
  obtains (nomem) "pgdir_walk pd va True s = Inr (None, s)" "page_free_list s = None"
    "\<not> present (pmem s pd (pdx va))"
  | (ok) t s' K' where "pgdir_walk pd va True s = Inr (Some (t, ptx va), s')" "vm_inv K' x s'"
    "K' t = KPT pd (pdx va)" "vm_frame s s'"
    "\<And>q. K q \<noteq> KFree \<Longrightarrow> K' q = K q \<and> pages s' q = pages s q"
    "\<And>q. K q = KFree \<Longrightarrow> K' q = KFree \<or> K' q = KPT pd (pdx va)"
    "\<And>pd' va'. K pd' = KPD \<Longrightarrow> pdx va' < 955 \<Longrightarrow> aspace s' pd' va' = aspace s pd' va'"
    "\<And>q. K q \<noteq> KFree \<Longrightarrow> q \<noteq> pd \<Longrightarrow> pmem s' q = pmem s q"
  using inv pd va
proof (cases rule: user_pde_cases)
  case table
  with pgdir_walk_found [OF inv pd] show thesis
    by (intro ok [of "frame (pmem s pd (pdx va))" s K]) (use inv in auto)
next
  case absent
  from inv show thesis
  proof (cases rule: page_alloc_inv [where fl = ALLOC_ZERO])
    case full
    with KADDR_pde [OF inv pd, of va] absent show thesis
      by (intro nomem) (auto simp: pgdir_walk_def)
  next
    case (ok p u)
    then have u: "u = zero_page p (page_pop s)" by simp
    let ?s = "set_word pd (pdx va) (page2pa p OR PTE_P OR PTE_W OR PTE_U)
      (upd_page p (\<lambda>q. q\<lparr>pp_ref := pp_ref q + 1\<rparr>) u)"
    note I = pgdir_walk_install [OF inv pd va absent ok(1,2,3) u]
    show thesis
    proof (rule that(2) [OF I(1,2)])
      show "vm_frame s ?s"
        by (simp add: u)
      show "pmem ?s q = pmem s q" if "K q \<noteq> KFree" "q \<noteq> pd" for q
        using that ok(2) ok(5) [of q] by (auto simp: set_word_def)
    qed (use ok(2,7) I(3) in auto)
  qed
qed

section \<open>Lookup, removal, insertion\<close>

text \<open>
  A lookup agrees with the address space when the slot has a page table; without one the code
  reads through the null pointer it was given.
\<close>

lemma page_lookup_eq:
  assumes inv: "vm_inv K x s" and pd: "K pd = KPD" and va: "pdx va < 955"
  shows "page_lookup pd va s =
    (case pte_of s pd va of
       None \<Rightarrow> Inl (Undefined ''null pte'')
     | Some w \<Rightarrow> Inr (if present w then Some (frame w, Some (frame (pmem s pd (pdx va)), ptx va)) else None, s))"
  using inv pd va
proof (cases rule: user_pde_cases)
  case absent
  with pgdir_walk_absent [OF inv pd] show ?thesis
    by (simp add: page_lookup_def pte_of_def load_pte_def)
next
  case table
  let ?t = "frame (pmem s pd (pdx va))"
  have "frame (pmem s ?t (ptx va)) < npages s" if "present (pmem s ?t (ptx va))"
    using table_okD(5) [OF inv table(2) ptx_less that] vm_inv_bound [OF inv] by simp
  with table pgdir_walk_found [OF inv pd] show ?thesis
    by (cases "present (pmem s ?t (ptx va))")
      (auto simp: page_lookup_def pte_of_def load_pte_def pa2page_def)
qed

text \<open>Releasing the page and clearing the entry commute.\<close>

lemma page_decref_set_word:
  "page_decref p (set_word t i w s) = Inr ((), v) \<Longrightarrow>
    \<exists>u. page_decref p s = Inr ((), u) \<and> v = set_word t i w u \<and> vm_frame s u"
  by (auto simp: page_decref_def page_free_def Let_def page_push_def upd_page_def set_word_def vm_frame_def
      split: if_splits)

lemma page_remove_mapped:
  assumes lk: "page_lookup pd va s = Inr (Some (p, Some (t, i)), s)"
    and dec: "page_decref p (set_word t i 0 s) = Inr ((), v)"
  shows "page_remove pd va s = Inr ((), tlb_invalidate pd va v)" "vm_frame s v"
proof -
  from page_decref_set_word [OF dec] obtain u where "page_decref p s = Inr ((), u)"
    "v = set_word t i 0 u" "vm_frame s u"
    by auto
  then show "page_remove pd va s = Inr ((), tlb_invalidate pd va v)" "vm_frame s v"
    using lk by (simp_all add: page_remove_def store_pte_def)
qed

text \<open>
  \<open>page_remove\<close> takes exactly one page out of one address space; a page no longer referenced goes
  back to the free list.
\<close>

lemma page_remove_spec:
  assumes inv: "vm_inv K x s" and pd: "K pd = KPD" and va: "pdx va < 955" and t: "present (pmem s pd (pdx va))"
  obtains s' K' where "page_remove pd va s = Inr ((), s')" "vm_inv K' x s'" "vm_frame s s'"
    "\<And>q. K' q = K q \<or> K q = KData \<and> x q = 0 \<and> K' q = KFree"
    "\<And>pd' va'. K pd' = KPD \<Longrightarrow> pdx va' < 955 \<Longrightarrow>
       aspace s' pd' va' = (if pd' = pd \<and> PGNUM va' = PGNUM va then None else aspace s pd' va')"
    "\<not> present (pmem s' (frame (pmem s pd (pdx va))) (ptx va))"
    "\<And>q j. q \<noteq> frame (pmem s pd (pdx va)) \<or> j \<noteq> ptx va \<Longrightarrow> pmem s' q j = pmem s q j"
proof -
  let ?t = "frame (pmem s pd (pdx va))" and ?i = "ptx va"
  let ?w = "pmem s ?t ?i"
  have K: "K ?t = KPT pd (pdx va)"
    using inv pd va by (cases rule: user_pde_cases) (use t in auto)
  have pg: "PGNUM va' = PGNUM va \<longleftrightarrow> pdx va' = pdx va \<and> ptx va' = ptx va" for va'
    by (simp add: same_page_iff)
  have lk: "page_lookup pd va s = Inr (if present ?w then Some (frame ?w, Some (?t, ?i)) else None, s)"
    using page_lookup_eq [OF inv pd va] t by (simp add: pte_of_def)
  show thesis
  proof (cases "present ?w")
    case False
    have "aspace s pd va' = None" if "PGNUM va' = PGNUM va" for va'
      using False that t by (auto simp: pg aspace_def pte_of_def)
    with False lk inv show thesis
      by (intro that [of s K]) (auto simp: page_remove_def)
  next
    case True
    let ?u = "set_word ?t ?i 0 s" and ?x = "x(frame ?w := x (frame ?w) + 1)"
    have D: "K (frame ?w) = KData"
      using table_okD(5) [OF inv K ptx_less True] .
    have u: "vm_inv K ?x ?u"
      by (rule vm_inv_unmap [OF inv K ptx_less True]) simp
    from vm_inv_decref [OF u D] obtain v K' where v: "page_decref (frame ?w) ?u = Inr ((), v)"
      "vm_inv K' x v" "K' = (if nrefs K ?x ?u (frame ?w) = 1 then K(frame ?w := KFree) else K)"
      "v = ?u\<lparr>pages := pages v, page_free_list := page_free_list v\<rparr>"
      by auto
    have pm: "pmem v = pmem ?u"
      by (subst v(4)) simp
    have "page_lookup pd va s = Inr (Some (frame ?w, Some (?t, ?i)), s)"
      using lk True by simp
    note R = page_remove_mapped [OF this v(1)]
    have as: "aspace (tlb_invalidate pd va v) pd' va' =
        (if pd' = pd \<and> PGNUM va' = PGNUM va then None else aspace s pd' va')"
      if "K pd' = KPD" "pdx va' < 955" for pd' va'
    proof -
      have "pte_of (tlb_invalidate pd va v) pd' va' = pte_of ?u pd' va'"
        by (rule pte_of_cong) (simp add: pm)
      then show ?thesis
        using pte_of_set_pte [OF inv K that, of ?i 0] by (auto simp: aspace_def pg)
    qed
    have kinds: "K' q = K q \<or> K q = KData \<and> x q = 0 \<and> K' q = KFree" for q
      using v(3) D by (auto simp: nrefs_def)
    show thesis
      by (rule that [OF R(1) _ _ kinds as]) (use v(2) R(2) pm in \<open>auto simp: pmem_set_word\<close>)
  qed
qed

text \<open>
  Clearing the slot: the part of \<open>page_insert\<close> between the reference count and the new entry.
\<close>

lemma clear_slot:
  assumes inv: "vm_inv K x s" and t: "K t = KPT pd (pdx va)"
  obtains s' K' where
    "(if pmem s t (ptx va) AND PTE_P \<noteq> 0 then page_remove pd va s else Inr ((), s)) = Inr ((), s')"
    "vm_inv K' x s'" "vm_frame s s'" "\<And>q. K' q = K q \<or> K q = KData \<and> x q = 0 \<and> K' q = KFree"
    "\<And>pd' va'. K pd' = KPD \<Longrightarrow> pdx va' < 955 \<Longrightarrow>
       aspace s' pd' va' = (if pd' = pd \<and> PGNUM va' = PGNUM va then None else aspace s pd' va')"
    "\<not> present (pmem s' t (ptx va))" "\<And>q. q \<noteq> t \<Longrightarrow> pmem s' q = pmem s q"
proof -
  note T = table_okD(1-4) [OF inv t]
  show thesis
  proof (cases "present (pmem s t (ptx va))")
    case True
    show thesis
    proof (rule page_remove_spec [OF inv T(1-3), unfolded T(4)])
      fix s' K'
      assume r: "page_remove pd va s = Inr ((), s')" "vm_inv K' x s'" "vm_frame s s'"
        "\<And>q. K' q = K q \<or> K q = KData \<and> x q = 0 \<and> K' q = KFree"
        "\<And>pd' va'. K pd' = KPD \<Longrightarrow> pdx va' < 955 \<Longrightarrow>
           aspace s' pd' va' = (if pd' = pd \<and> PGNUM va' = PGNUM va then None else aspace s pd' va')"
        "\<not> present (pmem s' t (ptx va))" "\<And>q j. q \<noteq> t \<or> j \<noteq> ptx va \<Longrightarrow> pmem s' q j = pmem s q j"
      have "pmem s' q = pmem s q" if "q \<noteq> t" for q
        using r(7) that by blast
      with r(1-6) True show thesis
        by (intro that [of s' K']) simp_all
    qed
  next
    case False
    have "aspace s pd va' = None" if "PGNUM va' = PGNUM va" for va'
      using False that T(3,4) by (auto simp: same_page_iff aspace_def pte_of_def)
    then show thesis
      using inv False by (intro that [of s K]) auto
  qed
qed

lemma page_insert_spec:
  assumes inv: "vm_inv K x s" and pd: "K pd = KPD" and va: "pdx va < 955"
    and pp: "K pp = KNew \<or> K pp = KData" and no: "pp_ref (pages s pp) \<noteq> 0xFFFF"
    and perm: "perm AND NOT 0xFFF = 0"
  obtains (nomem) "page_insert pd pp va perm s = Inr (- E_NO_MEM, s)" "page_free_list s = None"
    "aspace s pd va = None"
  | (ok) s' K' where "page_insert pd pp va perm s = Inr (0, s')" "vm_inv K' x s'" "vm_frame s s'"
    "K' pp = KData"
    "\<And>q. q \<noteq> pp \<Longrightarrow> K' q = K q \<or> K q = KData \<and> x q = 0 \<and> K' q = KFree \<or> K q = KFree \<and> K' q = KPT pd (pdx va)"
    "\<And>pd' va'. K pd' = KPD \<Longrightarrow> pdx va' < 955 \<Longrightarrow> aspace s' pd' va' =
       (if pd' = pd \<and> PGNUM va' = PGNUM va then Some (pp, perm OR PTE_P) else aspace s pd' va')"
    "\<And>q. K q = KNew \<or> K q = KData \<Longrightarrow> pmem s' q = pmem s q"
  using inv pd va
proof (cases rule: pgdir_walk_create)
  case nomem
  then show thesis
    by (intro that(1)) (auto simp: page_insert_def aspace_def pte_of_def)
next
  case (ok t s1 K1)
  let ?e = "page2pa pp OR perm OR PTE_P" and ?x = "x(pp := x pp + 1)"
  let ?s2 = "upd_page pp (\<lambda>q. q\<lparr>pp_ref := pp_ref q + 1\<rparr>) s1" and ?K2 = "K1(pp := KData)"
  have pp1: "K1 pp = KNew \<or> K1 pp = KData" "pages s1 pp = pages s pp"
    using ok(5) [of pp] pp by auto
  have inv2: "vm_inv ?K2 ?x ?s2"
    by (rule vm_inv_incref [OF ok(2) pp1(1)]) (use no pp1 in simp)
  have t: "?K2 t = KPT pd (pdx va)" "?K2 pd = KPD"
    using ok(3,5) pp1 pd pp by auto
  from inv2 t(1) obtain s3 K3 where c:
    "(if pmem ?s2 t (ptx va) AND PTE_P \<noteq> 0 then page_remove pd va ?s2 else Inr ((), ?s2)) = Inr ((), s3)"
    "vm_inv K3 ?x s3" "vm_frame ?s2 s3" "\<And>q. K3 q = ?K2 q \<or> ?K2 q = KData \<and> ?x q = 0 \<and> K3 q = KFree"
    "\<And>pd' va'. ?K2 pd' = KPD \<Longrightarrow> pdx va' < 955 \<Longrightarrow>
       aspace s3 pd' va' = (if pd' = pd \<and> PGNUM va' = PGNUM va then None else aspace ?s2 pd' va')"
    "\<not> present (pmem s3 t (ptx va))" "\<And>q. q \<noteq> t \<Longrightarrow> pmem s3 q = pmem ?s2 q"
    by (rule clear_slot) blast
  have K3: "K3 t = KPT pd (pdx va)" "K3 pp = KData"
    using c(4) [of t] c(4) [of pp] t by auto
  have fr: "frame ?e = pp"
    using vm_inv_bound [OF inv, of pp] pp perm by (intro frame_entry) auto
  have inv4: "vm_inv K3 x (set_word t (ptx va) ?e s3)"
    using vm_inv_map [OF c(2) K3(1) ptx_less c(6) present_entry fr K3(2)] by simp
  have res: "page_insert pd pp va perm s = Inr (0, set_word t (ptx va) ?e s3)"
    using ok(1) c(1) by (simp add: page_insert_def load_pte_def store_pte_def Let_def)
  have as: "aspace (set_word t (ptx va) ?e s3) pd' va' =
      (if pd' = pd \<and> PGNUM va' = PGNUM va then Some (pp, perm OR PTE_P) else aspace s pd' va')"
    if pd': "K pd' = KPD" and va': "pdx va' < 955" for pd' va'
  proof -
    have k: "K1 pd' = KPD" "pd' \<noteq> pp"
      using ok(5) [of pd'] pd' pp by auto
    then have "K3 pd' = KPD"
      using c(4) [of pd'] by auto
    note P = pte_of_set_pte [OF c(2) K3(1) this va', of "ptx va" ?e]
    show ?thesis
    proof (cases "pd' = pd \<and> PGNUM va' = PGNUM va")
      case True
      then show ?thesis
        using P fr flags_entry [OF perm, of pp] present_entry [of pp perm]
        by (simp add: same_page_iff aspace_def)
    next
      case False
      then have "pte_of (set_word t (ptx va) ?e s3) pd' va' = pte_of s3 pd' va'"
        using P by (auto simp: same_page_iff)
      then show ?thesis
        using c(5) [of pd' va'] k va' False ok(7) [OF pd' va'] aspace_cong [of ?s2 s1 pd' va']
        by (auto simp: aspace_def)
    qed
  qed
  show thesis
  proof (rule that(2) [OF res inv4 _ K3(2) _ as])
    show "vm_frame s (set_word t (ptx va) ?e s3)"
      using ok(4) c(3) by (meson vm_frame_trans vm_frame_upd)
  next
    fix q
    assume "q \<noteq> pp"
    then show "K3 q = K q \<or> K q = KData \<and> x q = 0 \<and> K3 q = KFree \<or> K q = KFree \<and> K3 q = KPT pd (pdx va)"
      using c(4) [of q] ok(5,6) [of q] by (cases "K q = KFree") auto
  next
    fix q
    assume q: "K q = KNew \<or> K q = KData"
    then have "q \<noteq> t" "q \<noteq> pd"
      using ok(3) ok(5) [of q] pd by auto
    with q c(7) [of q] ok(8) [of q] show "pmem (set_word t (ptx va) ?e s3) q = pmem s q"
      by (auto simp: set_word_def)
  qed auto
qed

text \<open>Freeing a page that was allocated and never used.\<close>

lemma page_free_inv:
  assumes inv: "vm_inv K x s" and p: "K p = KNew"
  shows "page_free p s = Inr ((), page_push p s)" "vm_inv (K(p := KFree)) x (page_push p s)"
proof -
  let ?K = "K(p := KFree)" and ?s = "page_push p s"
  have st: "same_tables s ?s"
    by (simp add: same_tables_def)
  have m: "mappings ?K ?s q = mappings K s q" for q
    using p by (intro mappings_role) auto
  from inv obtain fl where fl: "page_chain s fl" "set fl = {p. K p = KFree}" "distinct fl"
    by (rule free_list_of)
  with p have "page_chain ?s (p # fl)" "set (p # fl) = {q. ?K q = KFree}"
    by (auto intro!: page_chain_push)
  then have "free_ok ?K ?s"
    unfolding free_ok_def by blast
  moreover have "page_ok ?K ?s"
    using inv p pinfoD [OF inv, of p] by (intro page_ok_role) (auto simp: page_push_def)
  moreover have "ref_ok ?K x ?s"
    using ref_okD [OF inv] m p by (auto simp: ref_ok_def nrefs_def page_push_def)
  ultimately show "vm_inv ?K x ?s"
    using inv p st by (intro vm_inv_role [of K x s]) auto
  show "page_free p s = Inr ((), page_push p s)"
    using pinfoD [OF inv, of p] p by (simp add: page_free_ok)
qed

section \<open>A small machine\<close>

text \<open>
  Eight frames: the kernel's directory in frame 1, an environment's empty directory in frame 2, the
  free frames 3, 4 and 5, and the new page 6.
\<close>

definition small_kinds :: "nat \<Rightarrow> kind" where
  "small_kinds p = (if p = 2 then KPD else if p = 3 \<or> p = 4 \<or> p = 5 then KFree else if p = 6 then KNew else KOther)"

definition small_state :: kstate where
  "small_state = bss_state\<lparr>npages := 8, kern_pgdir := 1, page_free_list := Some 3,
     pages := (\<lambda>p. \<lparr>pp_link = if p = 3 then Some 4 else if p = 4 then Some 5 else None,
                   pp_ref = if p = 2 then 1 else 0\<rparr>),
     pmem := (\<lambda>p d. if p = 2 \<and> d = 957 then page2pa 2 OR PTE_P OR PTE_U else 0)\<rparr>"

lemma small_inv: "vm_inv small_kinds (\<lambda>_. 0) small_state"
proof -
  have "page_chain small_state [3, 4, 5]" "set [3, 4, 5] = {p. small_kinds p = KFree}"
    by (auto simp: small_state_def page_chain_def small_kinds_def)
  then have "free_ok small_kinds small_state"
    unfolding free_ok_def by blast
  moreover have "frame (page2pa 2 OR PTE_P OR PTE_U) = 2"
    using frame_or_flags [of 2 5] by (simp add: or.assoc)
  ultimately show ?thesis
    by (simp add: vm_inv_def page_ok_def dir_ok_def kpde_ok_def table_ok_def ref_ok_def kern_ok_def)
      (simp add: small_state_def small_kinds_def bss_state_def)
qed

lemma small_simps [simp]: "small_kinds 2 = KPD" "small_kinds 6 = KNew" "small_kinds 3 = KFree"
  "pp_ref (pages small_state 6) = 0"
  by (simp_all add: small_kinds_def small_state_def)

section \<open>Properties\<close>

text \<open>C3. \<open>page_alloc\<close> returns null exactly when no frame is free; otherwise it takes a free frame off the
  free list, keeps the invariant, and hands the frame over filled with zeros if \<open>ALLOC_ZERO\<close> was given.\<close>

theorem page_alloc_correct:
  assumes "vm_inv K x s"
  shows "(page_alloc flags s = Inr (None, s) \<and> (\<forall>p. K p \<noteq> KFree)) \<or>
    (\<exists>p s'. page_alloc flags s = Inr (Some p, s') \<and> K p = KFree \<and> vm_inv (K(p := KNew)) x s' \<and>
      (\<forall>q. q \<noteq> p \<longrightarrow> pmem s' q = pmem s q) \<and> (flags AND ALLOC_ZERO \<noteq> 0 \<longrightarrow> pmem s' p = (\<lambda>_. 0)))"
  using assms
proof (cases rule: page_alloc_inv [where fl = flags])
  case full
  obtain fl where "page_chain s fl" "set fl = {p. K p = KFree}"
    using assms by (rule free_list_of)
  with full show ?thesis
    by (auto simp: page_chain_def)
next
  case (ok p s')
  then show ?thesis by auto
qed

theorem page_alloc_correct_witness:
  "vm_inv small_kinds (\<lambda>_. 0) small_state \<and>
   ((page_alloc 1 small_state = Inr (None, small_state) \<and> (\<forall>p. small_kinds p \<noteq> KFree)) \<or>
    (\<exists>p s'. page_alloc 1 small_state = Inr (Some p, s') \<and> small_kinds p = KFree \<and>
      vm_inv (small_kinds(p := KNew)) (\<lambda>_. 0) s' \<and>
      (\<forall>q. q \<noteq> p \<longrightarrow> pmem s' q = pmem small_state q) \<and> (1 AND ALLOC_ZERO \<noteq> 0 \<longrightarrow> pmem s' p = (\<lambda>_. 0))))"
  using small_inv page_alloc_correct [OF small_inv, of 1] by blast

text \<open>C4. \<open>page_free\<close> puts a page without references back on the free list and keeps the invariant, so
  that freeing is the inverse of allocating.\<close>

theorem page_free_correct:
  assumes "vm_inv K x s" "K p = KNew"
  shows "\<exists>s'. page_free p s = Inr ((), s') \<and> vm_inv (K(p := KFree)) x s' \<and> page_free_list s' = Some p"
  using page_free_inv [OF assms] by (auto simp: page_push_def)

theorem page_free_correct_witness:
  "small_kinds 6 = KNew \<and> (\<exists>s'. page_free 6 small_state = Inr ((), s') \<and>
     vm_inv (small_kinds(6 := KFree)) (\<lambda>_. 0) s' \<and> page_free_list s' = Some 6)"
  using page_free_correct [OF small_inv, of 6] by simp



text \<open>C2. \<open>page_remove\<close> takes one page out of one address space and changes no other mapping; a page that
  loses its last reference is free again and the invariant holds. Where the directory has no page
  table for the address, the code reads through the null pointer that \<open>pgdir_walk\<close> returned.\<close>

theorem page_remove_correct:
  assumes "vm_inv K (\<lambda>_. 0) s" "K pgdir = KPD" "va < UTOP"
  shows "if present (pmem s pgdir (pdx va)) then
      (\<exists>s' K'. page_remove pgdir va s = Inr ((), s') \<and> vm_inv K' (\<lambda>_. 0) s' \<and> vm_frame s s' \<and>
        (\<forall>p. K' p = K p \<or> K p = KData \<and> K' p = KFree) \<and>
        (\<forall>pd va'. K pd = KPD \<and> va' < UTOP \<longrightarrow> aspace s' pd va' =
          (if pd = pgdir \<and> PGNUM va' = PGNUM va then None else aspace s pd va')))
    else page_remove pgdir va s = Inl (Undefined ''null pte'')"
proof -
  have va: "pdx va < 955"
    using assms(3) by (simp only: below_UTOP_iff)
  show ?thesis
  proof (cases "present (pmem s pgdir (pdx va))")
    case True
    from assms(1,2) va True show ?thesis
      unfolding below_UTOP_iff by (rule page_remove_spec) (use True in \<open>simp, blast\<close>)
  next
    case False
    with page_lookup_eq [OF assms(1,2) va] show ?thesis
      by (simp add: page_remove_def pte_of_def)
  qed
qed

theorem page_remove_correct_witness:
  "vm_inv small_kinds (\<lambda>_. 0) small_state \<and> \<not> present (pmem small_state 2 (pdx 0x800000)) \<and>
   page_remove 2 0x800000 small_state = Inl (Undefined ''null pte'')"
proof -
  have z: "pmem small_state 2 (pdx 0x800000) = 0" "(0x800000 :: u32) < UTOP"
    by (simp_all add: small_state_def bss_state_def unat_PDX)
  with small_inv page_remove_correct [OF small_inv, where pgdir = 2 and va = "0x800000"] show ?thesis
    by simp
qed

end
