(* ===== verification/UserMem.thy ===== *)
theory UserMem
  imports VmOps
begin

text \<open>
  Access of the kernel to memory through virtual addresses: the hardware walk of the page directory
  in \<open>cr3\<close>, loads and stores of bytes and words, and the check \<open>user_mem_check\<close> of kern/pmap.c that
  guards the pointers user programs pass to the kernel.
\<close>

unbundle bit_operations_syntax

section \<open>Loads and stores of kernel code\<close>

text \<open>
  The kernel runs with \<open>CR0_WP\<close>: its stores, too, need \<open>PTE_W\<close> at both levels. A fault in kernel mode
  ends in the panic of \<open>page_fault_handler\<close>.
\<close>

definition translate :: "kstate \<Rightarrow> nat \<Rightarrow> bool \<Rightarrow> u32 \<Rightarrow> nat option" where
  "translate s pgdir wr va =
    (let pde = pmem s pgdir (pdx va); pte = pmem s (frame pde) (ptx va)
     in if present pde \<and> present pte \<and> (wr \<longrightarrow> pde AND PTE_W \<noteq> 0 \<and> pte AND PTE_W \<noteq> 0)
        then Some (frame pte) else None)"

definition get_byte :: "kstate \<Rightarrow> nat \<Rightarrow> nat \<Rightarrow> u8" where
  "get_byte s f off = ucast (drop_bit (8 * (off mod 4)) (pmem s f (off div 4)))"

definition put_byte :: "nat \<Rightarrow> nat \<Rightarrow> u8 \<Rightarrow> kstate \<Rightarrow> kstate" where
  "put_byte f off b s =
    (let w = pmem s f (off div 4); k = 8 * (off mod 4)
     in set_word f (off div 4) ((w AND NOT (push_bit k 0xFF)) OR push_bit k (ucast b)) s)"

definition kload8 :: "u32 \<Rightarrow> kstate \<Rightarrow> u8 kres" where
  "kload8 va s =
    (case translate s (cr3 (cpus s (cpunum s))) False va of
       None \<Rightarrow> Inl (Panic ''page fault in kernel mode'')
     | Some f \<Rightarrow> Inr (get_byte s f (unat (PGOFF va)), s))"

definition kstore8 :: "u32 \<Rightarrow> u8 \<Rightarrow> kstate \<Rightarrow> unit kres" where
  "kstore8 va b s =
    (case translate s (cr3 (cpus s (cpunum s))) True va of
       None \<Rightarrow> Inl (Panic ''page fault in kernel mode'')
     | Some f \<Rightarrow> Inr ((), put_byte f (unat (PGOFF va)) b s))"

fun kload :: "nat \<Rightarrow> u32 \<Rightarrow> kstate \<Rightarrow> u8 list kres" where
  "kload 0 va s = Inr ([], s)"
| "kload (Suc n) va s =
    bindR (kload8 va s) (\<lambda>(b, s). bindR (kload n (va + 1) s) (\<lambda>(bs, s). Inr (b # bs, s)))"

fun kstore :: "u32 \<Rightarrow> u8 list \<Rightarrow> kstate \<Rightarrow> unit kres" where
  "kstore va [] s = Inr ((), s)"
| "kstore va (b # bs) s = bindR (kstore8 va b s) (\<lambda>(_, s). kstore (va + 1) bs s)"

fun le_word :: "u8 list \<Rightarrow> u32" where
  "le_word [] = 0"
| "le_word (b # bs) = ucast b OR push_bit 8 (le_word bs)"

definition word_bytes :: "u32 \<Rightarrow> u8 list" where
  "word_bytes w = map (\<lambda>k. ucast (drop_bit (8 * k) w)) [0, 1, 2, 3]"

definition kload32 :: "u32 \<Rightarrow> kstate \<Rightarrow> u32 kres" where
  "kload32 va s = bindR (kload 4 va s) (\<lambda>(bs, s). Inr (le_word bs, s))"

definition kstore32 :: "u32 \<Rightarrow> u32 \<Rightarrow> kstate \<Rightarrow> unit kres" where
  "kstore32 va w s = kstore va (word_bytes w) s"

section \<open>Checking user pointers\<close>

text \<open>
  The loop of \<open>user_mem_check\<close> runs while \<open>i < end\<close> as unsigned numbers. Both bounds are page
  aligned, so it makes \<open>(end - va_r) / PGSIZE\<close> rounds if \<open>va_r < end\<close> and none otherwise.
\<close>

definition pages_between :: "u32 \<Rightarrow> u32 \<Rightarrow> nat" where
  "pages_between a b = (if a < b then unat ((b - a) div PGSIZE) else 0)"

fun user_mem_check_loop :: "nat \<Rightarrow> nat \<Rightarrow> u32 \<Rightarrow> u32 \<Rightarrow> u32 \<Rightarrow> u32 \<Rightarrow> kstate \<Rightarrow> int kres" where
  "user_mem_check_loop 0 pgdir i va va_r perm s = Inr (0, s)"
| "user_mem_check_loop (Suc n) pgdir i va va_r perm s =
    bindR (pgdir_walk pgdir i False s) (\<lambda>(pte_check, s).
      if i \<ge> ULIM \<or> pte_check = None \<or>
         (case pte_check of None \<Rightarrow> True | Some (t, k) \<Rightarrow> pmem s t k AND perm \<noteq> perm)
      then Inr (- E_FAULT, s\<lparr>user_mem_check_addr := if i = va_r then va else i\<rparr>)
      else user_mem_check_loop n pgdir (i + PGSIZE) va va_r perm s)"

definition user_mem_check :: "nat \<Rightarrow> u32 \<Rightarrow> u32 \<Rightarrow> u32 \<Rightarrow> kstate \<Rightarrow> int kres" where
  "user_mem_check env va len perm s =
    (let end_va = ROUNDUP (va + len) PGSIZE; va_r = ROUNDDOWN va PGSIZE
     in case env_pgdir (envs s env) of
          None \<Rightarrow> if va_r < end_va then Inl (Undefined ''null pgdir'') else Inr (0, s)
        | Some pgdir \<Rightarrow>
            user_mem_check_loop (pages_between va_r end_va) pgdir va_r va va_r perm s)"

section \<open>What the check establishes\<close>

text \<open>A page user code may access with the permissions \<open>perm\<close>.\<close>

definition user_ok :: "kstate \<Rightarrow> nat \<Rightarrow> u32 \<Rightarrow> u32 \<Rightarrow> bool" where
  "user_ok s pgdir perm va \<longleftrightarrow>
    va < ULIM \<and> (case pte_of s pgdir va of None \<Rightarrow> False | Some w \<Rightarrow> w AND perm = perm)"

lemma walk_lookup:
  assumes "vm_inv K x s" "K pd = KPD"
  shows "\<exists>r. pgdir_walk pd va False s = Inr (r, s) \<and>
    pte_of s pd va = (case r of None \<Rightarrow> None | Some (t, i) \<Rightarrow> Some (pmem s t i))"
  using pgdir_walk_found [OF assms, of va False] pgdir_walk_absent [OF assms, of va]
  by (cases "present (pmem s pd (pdx va))") (auto simp: pte_of_def)

text \<open>The loop stops at the first page that fails the test, and reports it.\<close>

lemma user_mem_check_loop_eq:
  assumes "vm_inv K x s" "K pd = KPD"
  shows "user_mem_check_loop n pd i va va_r perm s =
    (case find (\<lambda>k. \<not> user_ok s pd perm (i + of_nat k * PGSIZE)) [0..<n] of
       None \<Rightarrow> Inr (0, s)
     | Some k \<Rightarrow> Inr (- E_FAULT, s\<lparr>user_mem_check_addr :=
         if i + of_nat k * PGSIZE = va_r then va else i + of_nat k * PGSIZE\<rparr>))"
proof (induction n arbitrary: i)
  case (Suc n)
  obtain r where r: "pgdir_walk pd i False s = Inr (r, s)"
    "pte_of s pd i = (case r of None \<Rightarrow> None | Some (t, i) \<Rightarrow> Some (pmem s t i))"
    using walk_lookup [OF assms] by blast
  have sh: "find P [0..<Suc n] = (if P 0 then Some 0 else map_option Suc (find (\<lambda>k. P (Suc k)) [0..<n]))" for P
  proof -
    have "[0..<Suc n] = 0 # map Suc [0..<n]"
      by (simp add: upt_conv_Cons map_Suc_upt del: upt_Suc)
    moreover have "find P (map Suc xs) = map_option Suc (find (\<lambda>k. P (Suc k)) xs)" for xs
      by (induction xs) auto
    ultimately show ?thesis by simp
  qed
  show ?case
    using r Suc.IH [of "i + PGSIZE"]
    by (auto simp: sh user_ok_def not_less algebra_simps split: option.splits prod.splits simp del: upt_Suc)
qed simp

lemma user_ok_page: "PGNUM a = PGNUM b \<Longrightarrow> user_ok s pd perm a = user_ok s pd perm b"
proof -
  assume ab: "PGNUM a = PGNUM b"
  then have "pte_of s pd a = pte_of s pd b"
    by (auto simp: pte_of_def same_page_iff Let_def)
  moreover have "a < ULIM \<longleftrightarrow> b < ULIM"
  proof -
    have "unat a div 4096 = unat b div 4096"
      using ab by (metis unat_PGNUM)
    moreover have "x < 0xef800000 \<longleftrightarrow> x div 4096 < 0xef800" for x :: nat
      by (simp add: div_less_iff_less_mult)
    ultimately have "unat a < 0xef800000 \<longleftrightarrow> unat b < 0xef800000"
      by simp
    then show ?thesis
      by (simp add: word_less_nat_alt)
  qed
  ultimately show ?thesis
    by (simp add: user_ok_def)
qed

lemma unat_round_bounds:
  assumes "unat va + unat len \<le> 0xFFFFF000"
  shows "unat (ROUNDDOWN va PGSIZE) = unat va div 4096 * 4096"
    and "unat (ROUNDUP (va + len) PGSIZE) = (unat va + unat len + 4095) div 4096 * 4096"
    and "pages_between (ROUNDDOWN va PGSIZE) (ROUNDUP (va + len) PGSIZE) =
      (unat va + unat len + 4095) div 4096 - unat va div 4096"
proof -
  have s: "unat (va + len) = unat va + unat len"
    using assms by (simp add: unat_word_ariths)
  show d: "unat (ROUNDDOWN va PGSIZE) = unat va div 4096 * 4096"
    by (simp add: unat_ROUNDDOWN minus_mod_eq_div_mult)
  show u: "unat (ROUNDUP (va + len) PGSIZE) = (unat va + unat len + 4095) div 4096 * 4096"
    using assms by (subst unat_ROUNDUP) (auto simp: s)
  show "pages_between (ROUNDDOWN va PGSIZE) (ROUNDUP (va + len) PGSIZE) =
      (unat va + unat len + 4095) div 4096 - unat va div 4096"
  proof (cases "ROUNDDOWN va PGSIZE < ROUNDUP (va + len) PGSIZE")
    case True
    then have "unat (ROUNDUP (va + len) PGSIZE - ROUNDDOWN va PGSIZE) =
        (unat va + unat len + 4095) div 4096 * 4096 - unat va div 4096 * 4096"
      using d u by (simp add: unat_sub)
    with True show ?thesis
      by (simp add: pages_between_def unat_div_distrib flip: diff_mult_distrib)
  next
    case False
    then have "(unat va + unat len + 4095) div 4096 * 4096 \<le> unat va div 4096 * 4096"
      using d u by (simp add: not_less word_le_nat_alt)
    with False show ?thesis
      by (simp add: pages_between_def)
  qed
qed

text \<open>The page the loop looks at in round \<open>k\<close>.\<close>

lemma round_page:
  fixes va len :: u32
  assumes nw: "unat va + unat len \<le> 0xFFFFF000" and k: "unat va div 4096 + k < (unat va + unat len + 4095) div 4096"
  shows "unat (ROUNDDOWN va PGSIZE + of_nat k * PGSIZE) = (unat va div 4096 + k) * 4096"
proof -
  have "(unat va + unat len + 4095) div 4096 \<le> (0xFFFFF000 + 4095) div 4096"
    by (rule div_le_mono) (use nw in simp)
  with k have k': "unat va div 4096 + k < 1048575"
    by simp
  then have o: "unat (of_nat k * PGSIZE :: u32) = k * 4096"
    by (simp add: unat_word_ariths(2) unat_of_nat take_bit_nat_eq_self)
  have "unat va div 4096 * 4096 + k * 4096 < 2 ^ 32"
    using k' by simp
  then show ?thesis
    unfolding unat_word_ariths(1) o unat_round_bounds(1) [OF nw] by (simp add: add_mult_distrib)
qed

text \<open>
  Pages \<open>A\<close> to \<open>N - 1\<close>, with first addresses \<open>i 0\<close>, \<open>i 1\<close> and so on, and a property of pages: if it holds at
  all these addresses it holds everywhere, and otherwise the first address of the first page without
  it, or \<open>va\<close> if this is the first page, is the first address without it.
\<close>

lemma scan_all:
  assumes i: "\<And>k. A + k < N \<Longrightarrow> unat (i k :: u32) = (A + k) * 4096"
    and pg: "\<And>a b. PGNUM a = PGNUM b \<Longrightarrow> P a \<longleftrightarrow> P b" and A: "A = unat va div 4096"
    and ok: "\<And>k. A + k < N \<Longrightarrow> P (i k)" and a: "va \<le> a" "unat a < N * 4096"
  shows "P a"
proof -
  obtain k where k: "unat a div 4096 = A + k"
    using a(1) le_Suc_ex [of A "unat a div 4096"] by (auto simp: A word_le_nat_alt div_le_mono)
  have "A + k < N"
    using a(2) unfolding k [symmetric] by (simp add: div_less_iff_less_mult)
  with pg [of a "i k"] i k ok show ?thesis
    by (simp add: word_unat_eq_iff unat_PGNUM)
qed

lemma scan_first:
  assumes i: "\<And>k. A + k < N \<Longrightarrow> unat (i k :: u32) = (A + k) * 4096"
    and pg: "\<And>a b. PGNUM a = PGNUM b \<Longrightarrow> P a \<longleftrightarrow> P b" and A: "A = unat va div 4096"
    and k: "A + k < N" "\<not> P (i k)" "\<And>j. j < k \<Longrightarrow> P (i j)" and a: "a = (if i k = i 0 then va else i k)"
  shows "va \<le> a" "unat a < N * 4096" "\<not> P a" "va \<le> b \<Longrightarrow> b < a \<Longrightarrow> P b"
proof -
  have k0: "i k = i 0 \<longleftrightarrow> k = 0"
    using i [OF k(1)] i [of 0] k(1) by (auto simp: word_unat_eq_iff)
  have ua: "unat a div 4096 = A + k"
    using k0 i [OF k(1)] by (auto simp: a A)
  then show "unat a < N * 4096"
    unfolding div_less_iff_less_mult [OF zero_less_numeral, symmetric] using k(1) by simp
  show "\<not> P a"
    using pg [of a "i k"] ua i [OF k(1)] k(2) by (simp add: word_unat_eq_iff unat_PGNUM)
  have va: "unat va < (A + k) * 4096" if "k \<noteq> 0"
    unfolding div_less_iff_less_mult [OF zero_less_numeral, symmetric] using that by (simp add: A)
  then show "va \<le> a"
    using k0 i [OF k(1)] by (cases "k = 0") (simp_all add: a word_le_nat_alt)
  show "P b" if b: "va \<le> b" "b < a"
  proof (rule scan_all [where N = "A + k" and P = P, OF _ pg A _ b(1)])
    have "k \<noteq> 0" using b k0 by (auto simp: a)
    then show "unat b < (A + k) * 4096"
      using b(2) k0 i [OF k(1)] by (simp add: word_less_nat_alt a)
  qed (use i k in auto)
qed

lemma user_mem_check_cases:
  assumes inv: "vm_inv K x s" "env_pgdir (envs s e) = Some pd" "K pd = KPD"
    and nw: "unat va + unat (len :: u32) \<le> 0xFFFFF000"
  shows "(user_mem_check e va len perm s = Inr (0, s) \<and>
      (\<forall>a. va \<le> a \<and> unat a < unat va + unat len \<longrightarrow> user_ok s pd perm a)) \<or>
    (\<exists>a. user_mem_check e va len perm s = Inr (- E_FAULT, s\<lparr>user_mem_check_addr := a\<rparr>) \<and>
      va \<le> a \<and> unat a < (unat va + unat len + 4095) div 4096 * 4096 \<and> \<not> user_ok s pd perm a \<and>
      (\<forall>b. va \<le> b \<and> b < a \<longrightarrow> user_ok s pd perm b))"
proof -
  define A where "A = unat va div 4096"
  define N where "N = (unat va + unat len + 4095) div 4096"
  define i where "i k = ROUNDDOWN va PGSIZE + of_nat k * PGSIZE" for k
  have i: "unat (i k) = (A + k) * 4096" if "A + k < N" for k
    using round_page [OF nw] that by (simp add: A_def N_def i_def)
  have pg: "PGNUM a = PGNUM b \<Longrightarrow> user_ok s pd perm a \<longleftrightarrow> user_ok s pd perm b" for a b
    by (rule user_ok_page)
  have eq: "user_mem_check e va len perm s = user_mem_check_loop (N - A) pd (i 0) va (i 0) perm s"
    using inv unat_round_bounds(3) [OF nw] by (simp add: user_mem_check_def Let_def A_def N_def i_def)
  have i0: "i 0 + of_nat k * PGSIZE = i k" for k
    by (simp add: i_def)
  note loop = eq [unfolded user_mem_check_loop_eq [OF inv(1,3)] i0]
  show ?thesis
  proof (cases "find (\<lambda>k. \<not> user_ok s pd perm (i k)) [0..<N - A]")
    case None
    then have ok: "A + k < N \<Longrightarrow> user_ok s pd perm (i k)" for k
      by (auto simp: find_None_iff)
    have "unat va + unat len \<le> N * 4096"
      unfolding N_def using div_mult_mod_eq [of "unat va + unat len + 4095" 4096] mod_less_divisor [of 4096 "unat va + unat len + 4095"]
      by linarith
    then have "user_ok s pd perm a" if "va \<le> a" "unat a < unat va + unat len" for a
      using that by (intro scan_all [where P = "user_ok s pd perm", OF i pg A_def ok]) (auto elim: order_less_le_trans)
    with None loop show ?thesis by simp
  next
    case (Some k)
    define a where "a = (if i k = i 0 then va else i k)"
    have k: "A + k < N" "\<not> user_ok s pd perm (i k)" "\<And>j. j < k \<Longrightarrow> user_ok s pd perm (i j)"
      using Some by (auto simp: find_Some_iff)
    from scan_first [where P = "user_ok s pd perm", OF i pg A_def k a_def] Some loop show ?thesis
      by (auto simp: a_def [symmetric] N_def [symmetric])
  qed
qed

text \<open>Pages that pass the check below \<open>UTOP\<close> can be accessed by the kernel without a fault.\<close>

lemma user_ok_translate:
  assumes inv: "vm_inv K x s" and pd: "K pd = KPD" and va: "pdx va < 955"
    and ok: "user_ok s pd perm va" and perm: "perm AND PTE_P \<noteq> 0" "wr \<Longrightarrow> perm AND PTE_W \<noteq> 0"
  shows "translate s pd wr va \<noteq> None"
proof -
  define w where "w = pmem s (frame (pmem s pd (pdx va))) (ptx va)"
  from ok have p: "present (pmem s pd (pdx va))" "w AND perm = perm"
    by (auto simp: user_ok_def pte_of_def Let_def w_def split: if_splits)
  have m: "w AND m \<noteq> 0" if "perm AND m \<noteq> 0" for m
  proof
    assume "w AND m = 0"
    then have "(w AND perm) AND m = 0" by (metis and.assoc and.commute and_zero_eq)
    with that p(2) show False by simp
  qed
  from inv pd va have "pde_ok (pmem s pd (pdx va))"
    by (cases rule: user_pde_cases) (use p(1) in auto)
  with m [OF perm(1)] m [OF perm(2)] show ?thesis
    by (auto simp: translate_def Let_def w_def pde_ok_def)
qed

section \<open>Properties\<close>




end
