(* ===== verification/EnvMgr.thy ===== *)
theory EnvMgr
  imports UserMem
begin

text \<open>
  Environment management of kern/env.c: \<open>envid2env\<close>, \<open>env_init\<close>, \<open>env_setup_vm\<close>, \<open>env_alloc\<close>,
  \<open>region_alloc\<close>, \<open>load_icode\<close>, \<open>env_create\<close>, \<open>env_free\<close>, \<open>env_pop_tf\<close> and \<open>env_run\<close>, with the big
  kernel lock operations they use. An environment pointer is an index into \<open>envs\<close>.
\<close>

unbundle bit_operations_syntax

section \<open>The big kernel lock (kern/spinlock.h)\<close>

text \<open>
  The lock as one processor sees it: it is stopped by the panics of the debugging checks, and waits
  while another processor has the lock. The interleavings are the subject of the theory of the lock.
\<close>

definition lock_kernel :: "kstate \<Rightarrow> unit kres" where
  "lock_kernel s =
    (if holding (kernel_lock s) (cpunum s) then Inl (Panic ''cannot acquire: already holding'')
     else case xchg_locked (kernel_lock s) 1 of (old, l) \<Rightarrow>
       if old \<noteq> 0 then Inl (Waiting (s\<lparr>kernel_lock := l\<rparr>))
       else Inr ((), s\<lparr>kernel_lock := l\<lparr>lock_cpu := Some (cpunum s)\<rparr>\<rparr>))"

definition unlock_kernel :: "kstate \<Rightarrow> unit kres" where
  "unlock_kernel s =
    (if \<not> holding (kernel_lock s) (cpunum s) then Inl (Panic ''spin_unlock'')
     else Inr ((), s\<lparr>kernel_lock := snd (xchg_locked ((kernel_lock s)\<lparr>lock_cpu := None\<rparr>) 0)\<rparr>))"

section \<open>Identifiers\<close>

definition envid2env :: "u32 \<Rightarrow> bool \<Rightarrow> kstate \<Rightarrow> (int \<times> nat option) kres" where
  "envid2env envid checkperm s =
    (if envid = 0 then Inr ((0, curenv s), s)
     else let e = ENVX envid
       in if env_status (envs s e) = ENV_FREE \<or> env_id (envs s e) \<noteq> envid then Inr ((- E_BAD_ENV, None), s)
          else if checkperm \<and> Some e \<noteq> curenv s then
            (case curenv s of
               None \<Rightarrow> Inl (Undefined ''null curenv'')
             | Some c \<Rightarrow> if env_parent_id (envs s e) \<noteq> env_id (envs s c) then Inr ((- E_BAD_ENV, None), s)
                         else Inr ((0, Some e), s))
          else Inr ((0, Some e), s))"

definition env_push :: "nat \<Rightarrow> kstate \<Rightarrow> kstate" where
  "env_push e s = (upd_env e (\<lambda>v. v\<lparr>env_link := env_free_list s\<rparr>) s)\<lparr>env_free_list := Some e\<rparr>"

definition env_pop :: "kstate \<Rightarrow> kstate" where
  "env_pop s = (case env_free_list s of None \<Rightarrow> s | Some e \<Rightarrow> s\<lparr>env_free_list := env_link (envs s e)\<rparr>)"

definition env_init_one :: "kstate \<Rightarrow> nat \<Rightarrow> kstate" where
  "env_init_one s i = upd_env i (\<lambda>v. v\<lparr>env_id := 0, env_status := ENV_FREE\<rparr>) (env_push i s)"

definition env_init :: "kstate \<Rightarrow> kstate" where
  "env_init s = foldl env_init_one (s\<lparr>env_free_list := None\<rparr>) (rev [0..<NENV])"

section \<open>Creation\<close>

definition env_setup_vm :: "nat \<Rightarrow> kstate \<Rightarrow> int kres" where
  "env_setup_vm e s =
    bindR (page_alloc ALLOC_ZERO s) (\<lambda>(r, s).
      case r of
        None \<Rightarrow> Inr (- E_NO_MEM, s)
      | Some p \<Rightarrow>
          bindR (page2kva p s) (\<lambda>(pgdir, s).
            let s = upd_env e (\<lambda>v. v\<lparr>env_pgdir := Some pgdir\<rparr>) s;
                s = s\<lparr>pmem := (pmem s)(pgdir := pmem s (kern_pgdir s))\<rparr>;
                s = upd_page p (\<lambda>q. q\<lparr>pp_ref := pp_ref q + 1\<rparr>) s
            in Inr (0, set_word pgdir (pdx UVPT) (page2pa pgdir OR PTE_P OR PTE_U) s)))"

text \<open>The next identifier of slot \<open>e\<close>.\<close>

definition next_env_id :: "nat \<Rightarrow> u32 \<Rightarrow> u32" where
  "next_env_id e old =
    (let generation = (old + push_bit ENVGENSHIFT 1) AND NOT (of_nat NENV - 1);
         generation = (if sint generation \<le> 0 then push_bit ENVGENSHIFT 1 else generation)
     in generation OR of_nat e)"

definition user_tf :: Trapframe where
  "user_tf = zero_tf\<lparr>tf_ds := GD_UD OR 3, tf_es := GD_UD OR 3, tf_ss := GD_UD OR 3,
     tf_esp := USTACKTOP, tf_cs := GD_UT OR 3, tf_eflags := FL_IF\<rparr>"

definition env_alloc :: "u32 \<Rightarrow> kstate \<Rightarrow> (int \<times> nat option) kres" where
  "env_alloc parent_id s =
    (case env_free_list s of
       None \<Rightarrow> Inr ((- E_NO_FREE_ENV, None), s)
     | Some e \<Rightarrow>
         bindR (env_setup_vm e s) (\<lambda>(r, s).
           if r < 0 then Inr ((r, None), s)
           else Inr ((0, Some e), env_pop (upd_env e (\<lambda>v. v\<lparr>env_id := next_env_id e (env_id v),
                    env_parent_id := parent_id, env_type := ENV_TYPE_USER,
                    env_status := ENV_RUNNABLE, env_runs := 0, env_tf := user_tf,
                    env_pgfault_upcall := 0, env_ipc_recving := False\<rparr>) s))))"

fun region_alloc_loop :: "nat \<Rightarrow> nat \<Rightarrow> u32 \<Rightarrow> kstate \<Rightarrow> unit kres" where
  "region_alloc_loop 0 pgdir i s = Inr ((), s)"
| "region_alloc_loop (Suc n) pgdir i s =
    bindR (page_alloc 0 s) (\<lambda>(r, s).
      case r of
        None \<Rightarrow> Inl (Panic '' caused by page_alloc : not enough memory'')
      | Some pp \<Rightarrow>
          bindR (page_insert pgdir pp i (PTE_P OR PTE_U OR PTE_W) s) (\<lambda>(r, s).
            if r \<noteq> 0 then Inl (Panic '' caused by page_insert : not enough memory'')
            else region_alloc_loop n pgdir (i + PGSIZE) s))"

definition region_alloc :: "nat \<Rightarrow> u32 \<Rightarrow> u32 \<Rightarrow> kstate \<Rightarrow> unit kres" where
  "region_alloc e va len s =
    (let end_va = ROUNDUP (va + len) PGSIZE; va_r = ROUNDDOWN va PGSIZE
     in case env_pgdir (envs s e) of
          None \<Rightarrow> if va_r < end_va then Inl (Undefined ''null pgdir'') else Inr ((), s)
        | Some pgdir \<Rightarrow> region_alloc_loop (pages_between va_r end_va) pgdir va_r s)"

text \<open>The program image is a list of bytes; reading outside it is undefined.\<close>

definition bin16 :: "u8 list \<Rightarrow> nat \<Rightarrow> kstate \<Rightarrow> u32 kres" where
  "bin16 bin off s =
    (if off + 2 \<le> length bin then Inr (le_word (take 2 (drop off bin)), s)
     else Inl (Undefined ''read past the program image''))"

definition bin32 :: "u8 list \<Rightarrow> nat \<Rightarrow> kstate \<Rightarrow> u32 kres" where
  "bin32 bin off s =
    (if off + 4 \<le> length bin then Inr (le_word (take 4 (drop off bin)), s)
     else Inl (Undefined ''read past the program image''))"

definition bin_bytes :: "u8 list \<Rightarrow> nat \<Rightarrow> nat \<Rightarrow> kstate \<Rightarrow> u8 list kres" where
  "bin_bytes bin off n s =
    (if off + n \<le> length bin then Inr (take n (drop off bin), s)
     else Inl (Undefined ''read past the program image''))"

definition ELF_MAGIC :: u32 where [simp]: "ELF_MAGIC = 0x464C457F"
definition ELF_PROG_LOAD :: u32 where [simp]: "ELF_PROG_LOAD = 1"

text \<open>One program header at offset \<open>ph\<close>: \<open>p_type\<close>, \<open>p_offset\<close>, \<open>p_va\<close>, \<open>p_filesz\<close>, \<open>p_memsz\<close>.\<close>

definition load_segment :: "nat \<Rightarrow> u8 list \<Rightarrow> nat \<Rightarrow> kstate \<Rightarrow> unit kres" where
  "load_segment e bin ph s =
    bindR (bin32 bin ph s) (\<lambda>(p_type, s).
      if p_type \<noteq> ELF_PROG_LOAD then Inr ((), s)
      else bindR (bin32 bin (ph + 4) s) (\<lambda>(p_offset, s).
        bindR (bin32 bin (ph + 8) s) (\<lambda>(p_va, s).
          bindR (bin32 bin (ph + 16) s) (\<lambda>(p_filesz, s).
            bindR (bin32 bin (ph + 20) s) (\<lambda>(p_memsz, s).
              bindR (region_alloc e p_va p_memsz s) (\<lambda>(_, s).
                bindR (bin_bytes bin (unat p_offset) (unat p_filesz) s) (\<lambda>(bytes, s).
                  bindR (kstore p_va bytes s) (\<lambda>(_, s).
                    kstore (p_va + p_filesz) (replicate (unat (p_memsz - p_filesz)) 0) s))))))))"

definition load_icode :: "nat \<Rightarrow> u8 list \<Rightarrow> kstate \<Rightarrow> unit kres" where
  "load_icode e bin s =
    bindR (bin32 bin 0 s) (\<lambda>(e_magic, s).
      if e_magic \<noteq> ELF_MAGIC then Inl (Panic '' incorrect ELF file '')
      else bindR (bin32 bin 28 s) (\<lambda>(e_phoff, s).
        bindR (bin16 bin 44 s) (\<lambda>(e_phnum, s).
          bindR (PADDR_pgdir (env_pgdir (envs s e)) s) (\<lambda>(pa, s).
            let s = lcr3 (unat (PGNUM pa)) s
            in bindR (forR (\<lambda>k. load_segment e bin (unat e_phoff + 32 * k)) [0..<unat e_phnum] s) (\<lambda>(_, s).
                 bindR (region_alloc e (USTACKTOP - PGSIZE) PGSIZE s) (\<lambda>(_, s).
                   bindR (bin32 bin 24 s) (\<lambda>(e_entry, s).
                     let s = upd_env e (\<lambda>v. v\<lparr>env_tf := (env_tf v)\<lparr>tf_eip := e_entry\<rparr>\<rparr>) s
                     in Inr ((), lcr3 (kern_pgdir s) s))))))))"

definition env_create :: "u8 list \<Rightarrow> EnvType \<Rightarrow> kstate \<Rightarrow> unit kres" where
  "env_create binary type s =
    bindR (env_alloc 0 s) (\<lambda>((re, r), s).
      case r of
        None \<Rightarrow> Inl (Panic '' couldn't allocate an evironment'')
      | Some e \<Rightarrow>
          let s = (if type = ENV_TYPE_FS
                   then upd_env e (\<lambda>v. v\<lparr>env_tf := (env_tf v)\<lparr>tf_eflags := tf_eflags (env_tf v) OR FL_IOPL_3\<rparr>\<rparr>) s
                   else s)
          in bindR (load_icode e binary s) (\<lambda>(_, s). Inr ((), upd_env e (\<lambda>v. v\<lparr>env_type := type\<rparr>) s)))"

section \<open>Destruction and context switch\<close>

text \<open>The two nested loops of \<open>env_free\<close>: the entries of one table, then one directory slot.\<close>

definition env_free_pte :: "nat \<Rightarrow> nat \<Rightarrow> nat \<Rightarrow> nat \<Rightarrow> kstate \<Rightarrow> unit kres" where
  "env_free_pte pgdir pt pdeno pteno s =
    (if pmem s pt pteno AND PTE_P \<noteq> 0 then page_remove pgdir (PGADDR (of_nat pdeno) (of_nat pteno) 0) s
     else Inr ((), s))"

definition env_free_pde :: "nat \<Rightarrow> nat \<Rightarrow> kstate \<Rightarrow> unit kres" where
  "env_free_pde pgdir pdeno s =
    (let pde = pmem s pgdir pdeno
     in if pde AND PTE_P = 0 then Inr ((), s)
        else
          let pa = PTE_ADDR pde
          in bindR (KADDR pa s) (\<lambda>(pt, s).
               bindR (forR (env_free_pte pgdir pt pdeno) [0..<1024] s) (\<lambda>(_, s).
                 let s = set_word pgdir pdeno 0 s
                 in bindR (pa2page pa s) (\<lambda>(pp, s). page_decref pp s))))"

definition env_free :: "nat \<Rightarrow> kstate \<Rightarrow> unit kres" where
  "env_free e s =
    (let s = (if Some e = curenv s then lcr3 (kern_pgdir s) s else s)
     in case env_pgdir (envs s e) of
          None \<Rightarrow> Inl (Undefined ''null pgdir'')
        | Some pgdir \<Rightarrow>
            bindR (forR (env_free_pde pgdir) [0..<pdx UTOP] s) (\<lambda>(_, s).
              bindR (PADDR_pgdir (env_pgdir (envs s e)) s) (\<lambda>(pa, s).
                let s = upd_env e (\<lambda>v. v\<lparr>env_pgdir := None\<rparr>) s
                in bindR (pa2page pa s) (\<lambda>(pp, s).
                     bindR (page_decref pp s) (\<lambda>(_, s).
                       Inr ((), env_push e (upd_env e (\<lambda>v. v\<lparr>env_status := ENV_FREE\<rparr>) s)))))))"

text \<open>The \<open>iret\<close> of \<open>env_pop_tf\<close> leaves the kernel with the saved registers of the current environment.\<close>

definition env_pop_tf :: "kstate \<Rightarrow> unit kres" where
  "env_pop_tf s =
    (case curenv s of
       None \<Rightarrow> Inl (Undefined ''null curenv'')
     | Some c \<Rightarrow> Inl (ToUser (upd_env c (\<lambda>v. v\<lparr>env_cpunum := cpunum s\<rparr>) s)))"

definition env_run :: "nat \<Rightarrow> kstate \<Rightarrow> unit kres" where
  "env_run e s =
    bindR
      (if curenv s \<noteq> Some e then
         let s = (case curenv s of
                    None \<Rightarrow> s
                  | Some c \<Rightarrow> if env_status (envs s c) = ENV_RUNNING
                              then upd_env c (\<lambda>v. v\<lparr>env_status := ENV_RUNNABLE\<rparr>) s else s);
             s = upd_cpu (\<lambda>c. c\<lparr>cpu_env := Some e\<rparr>) s;
             s = upd_env e (\<lambda>v. v\<lparr>env_status := ENV_RUNNING, env_runs := env_runs v + 1\<rparr>) s
         in bindR (PADDR_pgdir (env_pgdir (envs s e)) s) (\<lambda>(pa, s). Inr ((), lcr3 (unat (PGNUM pa)) s))
       else Inr ((), s))
      (\<lambda>(_, s). bindR (unlock_kernel s) (\<lambda>(_, s). env_pop_tf s))"

section \<open>Identifiers: lemmas\<close>

abbreviation env_link_of :: "kstate \<Rightarrow> nat \<Rightarrow> nat option" where
  "env_link_of s e \<equiv> env_link (envs s e)"

definition env_chain :: "kstate \<Rightarrow> nat list \<Rightarrow> bool" where
  "env_chain s fl \<longleftrightarrow> links (env_link_of s) (env_free_list s) fl"

interpretation efl: free_list env_free_list env_link_of env_pop env_push
  by unfold_locales (auto simp: env_pop_def env_push_def upd_env_def)

text \<open>The identifier of a new environment: positive, with the slot in its low bits, and different from
  the identifier the slot had before.\<close>

lemma unat_next_env_id:
  fixes old :: u32
  assumes "e < 1024"
  defines "g \<equiv> unat (old + 0x1000 :: u32) div 1024 * 1024"
  shows "unat (next_env_id e old) = (if g = 0 \<or> 2 ^ 31 \<le> g then 4096 + e else g + e)"
proof -
  let ?g = "(old + 0x1000) AND NOT 0x3FF"
  have g: "unat ?g = g"
    unfolding and_not_1023 g_def ..
  have "sint ?g \<le> 0 \<longleftrightarrow> g = 0 \<or> 2 ^ 31 \<le> g"
    unfolding sint_u32 g using u32_less [of ?g] unfolding g by auto
  moreover have "1024 dvd unat ?g" "1024 dvd unat (0x1000 :: u32)"
    unfolding g by (simp_all add: g_def)
  ultimately show ?thesis
    using or_low [OF _ assms(1), of ?g] or_low [OF _ assms(1), of "0x1000"] g
    by (simp add: next_env_id_def Let_def)
qed

lemma next_env_id:
  assumes "e < 1024"
  shows "ENVX (next_env_id e old) = e" "0 < sint (next_env_id e old)" "next_env_id e old \<noteq> old"
proof -
  let ?g = "unat (old + 0x1000 :: u32) div 1024 * 1024"
  note n = unat_next_env_id [OF assms, of old]
  have "unat (next_env_id e old AND 0x3FF) = unat (next_env_id e old) mod 1024"
    by (simp add: mask_consts unsigned_take_bit_eq flip: take_bit_eq_mask) (simp add: take_bit_eq_mod)
  also have "\<dots> = e"
  proof -
    have "(e + 4 * 1024) mod 1024 = e"
      using assms by (simp only: mod_mult_self1 mod_less)
    then have "(4096 + e) mod 1024 = e"
      by (simp add: add.commute)
    with assms show ?thesis
      by (auto simp: n)
  qed
  finally show "ENVX (next_env_id e old) = e"
    by (simp add: ENVX_def)
  show "0 < sint (next_env_id e old)"
    unfolding sint_u32 n using assms by auto
  have "unat (next_env_id e old) \<noteq> unat old"
  proof (cases "unat old + 4096 < 2 ^ 32")
    case True
    then have "unat (old + 0x1000) = unat old + 4096"
      by (simp add: unat_word_ariths(1))
    moreover have "unat old + 4096 < (unat old + 4096) div 1024 * 1024 + 1024"
      using div_mult_mod_eq [of "unat old + 4096" 1024] mod_less_divisor [of 1024 "unat old + 4096"] by linarith
    moreover have "(unat old + 4096) div 1024 * 1024 \<le> unat old + 4096"
      by simp
    ultimately show ?thesis
      using assms unfolding n by auto
  next
    case False
    then have "unat (old + 0x1000) = unat old + 4096 - 2 ^ 32"
      using u32_less [of old] by (simp add: unat_word_ariths(1) mod_if)
    then have "unat (old + 0x1000) < 4096"
      using u32_less [of old] False by simp
    then have "?g < 4096"
      by (meson div_times_less_eq_dividend le_less_trans)
    then show ?thesis
      using assms False unfolding n by auto
  qed
  then show "next_env_id e old \<noteq> old"
    by auto
qed

end
