(* ===== verification/EnvInv.thy ===== *)
theory EnvInv
  imports EnvMgr
begin

text \<open>
  The invariant of the environment table, and that the operations of kern/env.c keep it together with
  the invariant of the virtual memory system: creating an environment gives it a page directory of its
  own, destroying it returns every page table, every page only it references and its directory to the
  free list.
\<close>

unbundle bit_operations_syntax

section \<open>Page directories come and go\<close>

lemma vm_inv_new_dir:
  assumes inv: "vm_inv K x s" and p: "K p = KNew" and w: "w = page2pa p OR PTE_P OR PTE_U" "frame w < npages s"
    and s': "npages s' = npages s" "kern_pgdir s' = kern_pgdir s" "page_free_list s' = page_free_list s"
      "pages s' = (pages s)(p := (pages s p)\<lparr>pp_ref := pp_ref (pages s p) + 1\<rparr>)"
      "pmem s' = (pmem s)(p := (pmem s (kern_pgdir s))(957 := w))"
  shows "vm_inv (K(p := KPD)) x s'"
proof -
  let ?K = "K(p := KPD)"
  have ko: "K (kern_pgdir s) = KOther" "\<And>d. d < 955 \<Longrightarrow> pmem s (kern_pgdir s) d = 0"
    "\<And>d. 955 \<le> d \<Longrightarrow> d < 1024 \<Longrightarrow> frame (pmem s (kern_pgdir s) d) < npages s"
    using inv by (auto simp: vm_inv_def kern_ok_def)
  then have ne: "kern_pgdir s \<noteq> p" using p by auto
  have pm: "q \<noteq> p \<Longrightarrow> pmem s' q = pmem s q" "pmem s' p = (pmem s (kern_pgdir s))(957 := w)" for q
    by (simp_all add: s')
  from inv obtain fl where fl: "page_chain s fl" "set fl = {p. K p = KFree}" "distinct fl"
    by (rule free_list_of)
  have "page_chain s' fl = page_chain s fl"
    using fl p by (intro page_chain_cong) (auto simp: s')
  then have "page_chain s' fl" "set fl = {q. ?K q = KFree}"
    using fl p by auto
  then have "free_ok ?K s'"
    unfolding free_ok_def by blast
  moreover have "page_ok ?K s'"
    using inv p pinfoD [OF inv, of p] by (intro page_ok_role) (auto simp: s')
  moreover have "dir_ok ?K s'"
    unfolding dir_ok_def
  proof (intro allI impI conjI)
    fix pd d
    assume pd: "?K pd = KPD" and d: "d < (955::nat)"
    show "pmem s' pd d = 0 \<or> pde_ok (pmem s' pd d) \<and> ?K (frame (pmem s' pd d)) = KPT pd d"
    proof (cases "pd = p")
      case True
      then show ?thesis using ko(2) [OF d] d by (simp add: pm)
    next
      case False
      with pd have "K pd = KPD" by simp
      from inv this d show ?thesis
        by (cases rule: user_pde_cases) (use p False in \<open>auto simp: pm(1)\<close>)
    qed
  next
    fix pd d
    assume pd: "?K pd = KPD" and d: "955 \<le> d" "d < (1024::nat)"
    show "kpde_ok (npages s') pd d (pmem s' pd d)"
    proof (cases "pd = p")
      case True
      then show ?thesis using ko(3) [OF d] w by (simp add: pm s'(1) kpde_ok_def)
    next
      case False
      with pd kernel_pde [OF inv _ d] show ?thesis by (simp add: pm(1) s'(1))
    qed
  qed
  moreover have "table_ok ?K s'"
    unfolding table_ok_def
  proof (intro allI impI)
    fix t pd d
    assume "?K t = KPT pd d"
    then have T: "K t = KPT pd d" "t \<noteq> p" by (auto split: if_splits)
    note D = table_okD [OF inv T(1)]
    then have "pd \<noteq> p" using p by auto
    moreover have "frame (pmem s t i) \<noteq> p" if "i < 1024" "present (pmem s t i)" for i
      using D(5) [OF that] p by auto
    ultimately show "?K pd = KPD \<and> d < 955 \<and> present (pmem s' pd d) \<and> frame (pmem s' pd d) = t \<and>
      (\<forall>i<1024. present (pmem s' t i) \<longrightarrow> ?K (frame (pmem s' t i)) = KData)"
      using D T(2) by (auto simp: pm(1))
  qed
  moreover have "mappings ?K s' q = mappings K s q" for q
  proof (rule mappings_eqI)
    show pt: "is_pt ?K t = is_pt K t" for t
      using p by (auto simp: is_pt_def)
    show "pmem s' t = pmem s t" if "is_pt K t" for t
      using that p by (intro pm(1)) (auto simp: is_pt_def)
  qed
  then have "ref_ok ?K x s'"
    using ref_okD [OF inv] p by (auto simp: ref_ok_def nrefs_def s')
  moreover have "kern_ok ?K s'"
    using ko ne by (simp add: kern_ok_def s'(1,2) pm(1))
  ultimately show ?thesis
    by (simp add: vm_inv_def)
qed

text \<open>Giving up the only reference to a directory or a table puts it on the free list.\<close>

lemma decref_owned:
  assumes inv: "vm_inv K x s" and p: "K p = KPD \<or> is_pt K p"
  shows "page_decref p s = Inr ((), page_push p (upd_page p (\<lambda>q. q\<lparr>pp_ref := 0\<rparr>) s))"
    and "free_ok (K(p := KFree)) (page_push p (upd_page p (\<lambda>q. q\<lparr>pp_ref := 0\<rparr>) s))"
    and "page_ok (K(p := KFree)) (page_push p (upd_page p (\<lambda>q. q\<lparr>pp_ref := 0\<rparr>) s))"
proof -
  have o: "pp_ref (pages s p) = 1" "page_link s p = None" "K p \<noteq> KOther" "K p \<noteq> KFree"
    using p pinfoD [OF inv, of p] by (cases "K p"; simp add: is_pt_def)+
  then show "page_decref p s = Inr ((), page_push p (upd_page p (\<lambda>q. q\<lparr>pp_ref := 0\<rparr>) s))"
    by (intro page_decref_last) auto
  from inv obtain fl where fl: "page_chain s fl" "set fl = {p. K p = KFree}" "distinct fl"
    by (rule free_list_of)
  have pn: "p \<notin> set fl"
    using fl(2) o(4) by simp
  have "page_chain (page_push p (upd_page p (\<lambda>q. q\<lparr>pp_ref := 0\<rparr>) s)) (p # fl)"
    by (rule page_chain_push) (use fl(1) pn in simp_all)
  moreover have "set (p # fl) = {q. (K(p := KFree)) q = KFree}"
    using fl(2) by auto
  ultimately show "free_ok (K(p := KFree)) (page_push p (upd_page p (\<lambda>q. q\<lparr>pp_ref := 0\<rparr>) s))"
    unfolding free_ok_def by blast
  show "page_ok (K(p := KFree)) (page_push p (upd_page p (\<lambda>q. q\<lparr>pp_ref := 0\<rparr>) s))"
    using inv o by (intro page_ok_role) (auto simp: page_push_def)
qed

lemma vm_inv_free_table:
  assumes inv: "vm_inv K x s" and t: "K t = KPT pd d" and e: "\<And>i. i < 1024 \<Longrightarrow> \<not> present (pmem s t i)"
  defines "s' \<equiv> page_push t (upd_page t (\<lambda>q. q\<lparr>pp_ref := 0\<rparr>) (set_word pd d 0 s))"
  shows "page_decref t (set_word pd d 0 s) = Inr ((), s')" "vm_inv (K(t := KFree)) x s'"
proof -
  let ?K = "K(t := KFree)"
  note D = table_okD [OF inv t]
  have ne: "pd \<noteq> t" using D(1) t by auto
  have o: "pp_ref (pages s t) = 1" "page_link s t = None"
    using t pinfoD [OF inv, of t] by auto
  then show "page_decref t (set_word pd d 0 s) = Inr ((), s')"
    unfolding s'_def by (intro page_decref_last) auto
  have pm: "pmem s' q j = (if q = pd \<and> j = d then 0 else pmem s q j)" for q j
    by (simp add: s'_def pmem_set_word)
  have f: "npages s' = npages s" "kern_pgdir s' = kern_pgdir s"
    by (simp_all add: s'_def)
  have pg: "pages s' = pages (page_push t (upd_page t (\<lambda>q. q\<lparr>pp_ref := 0\<rparr>) s))"
    "page_free_list s' = page_free_list (page_push t (upd_page t (\<lambda>q. q\<lparr>pp_ref := 0\<rparr>) s))"
    by (simp_all add: s'_def page_push_def set_word_def upd_page_def)
  have own: "K (frame (pmem s pd' d')) = KPT pd' d' \<Longrightarrow> frame (pmem s pd' d') = t \<Longrightarrow> pd' = pd \<and> d' = d" for pd' d'
    using t by simp
  note dec = decref_owned(2,3) [OF inv disjI2, OF is_ptI, OF t]
  have "free_ok ?K s'" "page_ok ?K s'"
    using dec by (simp_all add: free_ok_def page_ok_def page_chain_def pg f)
  moreover have "dir_ok ?K s'"
    unfolding dir_ok_def
  proof (intro allI impI conjI)
    fix pd' d'
    assume pd': "?K pd' = KPD" and d': "d' < (955::nat)"
    then have "K pd' = KPD" by (auto split: if_splits)
    from inv this d' show "pmem s' pd' d' = 0 \<or> pde_ok (pmem s' pd' d') \<and> ?K (frame (pmem s' pd' d')) = KPT pd' d'"
    proof (cases rule: user_pde_cases)
      case table
      show ?thesis
      proof (cases "pd' = pd \<and> d' = d")
        case False
        then have "frame (pmem s pd' d') \<noteq> t"
          using own [OF table(2)] by blast
        with False table show ?thesis by (simp add: pm)
      qed (simp add: pm)
    qed (simp add: pm)
  next
    fix pd' d'
    assume "?K pd' = KPD" "955 \<le> d'" "d' < (1024::nat)"
    then show "kpde_ok (npages s') pd' d' (pmem s' pd' d')"
      using D(2) kernel_pde [OF inv, of pd' d'] by (auto simp: pm f split: if_splits)
  qed
  moreover have "table_ok ?K s'"
    unfolding table_ok_def
  proof (intro allI impI)
    fix t' pd' d'
    assume "?K t' = KPT pd' d'"
    then have T: "K t' = KPT pd' d'" "t' \<noteq> t" by (auto split: if_splits)
    note E = table_okD [OF inv T(1)]
    have "pd' \<noteq> t" using E(1) t by auto
    moreover have "\<not> (pd' = pd \<and> d' = d)" using E(4) D(4) T(2) by auto
    moreover have "t' \<noteq> pd" using T(1) D(1) by auto
    moreover have "frame (pmem s t' i) \<noteq> t" if "i < 1024" "present (pmem s t' i)" for i
      using E(5) [OF that] t by auto
    ultimately show "?K pd' = KPD \<and> d' < 955 \<and> present (pmem s' pd' d') \<and> frame (pmem s' pd' d') = t' \<and>
      (\<forall>i<1024. present (pmem s' t' i) \<longrightarrow> ?K (frame (pmem s' t' i)) = KData)"
      using E by (auto simp: pm)
  qed
  moreover have "mappings ?K s' q = mappings K s q" for q
    using e D(1) by (auto simp: mappings_def is_pt_upd pm split: if_splits) (auto simp: is_pt_def)
  then have "ref_ok ?K x s'"
    using ref_okD [OF inv] t by (auto simp: ref_ok_def nrefs_def pg page_push_def)
  moreover have "kern_ok ?K s'"
    using inv t D(1) by (auto simp: vm_inv_def kern_ok_def f pm)
  ultimately show "vm_inv ?K x s'"
    by (simp add: vm_inv_def)
qed

lemma vm_inv_free_dir:
  assumes inv: "vm_inv K x s" and pd: "K pd = KPD" and e: "\<And>d. d < 955 \<Longrightarrow> \<not> present (pmem s pd d)"
  defines "s' \<equiv> page_push pd (upd_page pd (\<lambda>q. q\<lparr>pp_ref := 0\<rparr>) s)"
  shows "page_decref pd s = Inr ((), s')" "vm_inv (K(pd := KFree)) x s'"
proof -
  let ?K = "K(pd := KFree)"
  note dec = decref_owned [OF inv disjI1, OF pd]
  show "page_decref pd s = Inr ((), s')"
    using dec(1) by (simp add: s'_def)
  have st: "npages s' = npages s" "kern_pgdir s' = kern_pgdir s" "pmem s' = pmem s"
    by (simp_all add: s'_def)
  have npt: "K t \<noteq> KPT pd d" for t d
    using table_okD(2,3) [OF inv, of t pd d] e [of d] by auto
  have "dir_ok ?K s'"
    unfolding dir_ok_def
  proof (intro allI impI conjI)
    fix pd' d'
    assume pd': "?K pd' = KPD" and d': "d' < (955::nat)"
    then have "K pd' = KPD" by (auto split: if_splits)
    from inv this d' show "pmem s' pd' d' = 0 \<or> pde_ok (pmem s' pd' d') \<and> ?K (frame (pmem s' pd' d')) = KPT pd' d'"
      by (cases rule: user_pde_cases) (use pd in \<open>auto simp: st\<close>)
  next
    fix pd' d'
    assume "?K pd' = KPD" "955 \<le> d'" "d' < (1024::nat)"
    then show "kpde_ok (npages s') pd' d' (pmem s' pd' d')"
      using kernel_pde [OF inv, of pd' d'] by (auto simp: st split: if_splits)
  qed
  moreover have "table_ok ?K s'"
    unfolding table_ok_def
  proof (intro allI impI)
    fix t pd' d'
    assume "?K t = KPT pd' d'"
    then have T: "K t = KPT pd' d'" by (auto split: if_splits)
    note E = table_okD [OF inv T]
    have "pd' \<noteq> pd" using npt T by auto
    moreover have "frame (pmem s t i) \<noteq> pd" if "i < 1024" "present (pmem s t i)" for i
      using E(5) [OF that] pd by auto
    ultimately show "?K pd' = KPD \<and> d' < 955 \<and> present (pmem s' pd' d') \<and> frame (pmem s' pd' d') = t \<and>
      (\<forall>i<1024. present (pmem s' t i) \<longrightarrow> ?K (frame (pmem s' t i)) = KData)"
      using E by (auto simp: st)
  qed
  moreover have "mappings ?K s' q = mappings K s q" for q
    using pd by (auto simp: mappings_def is_pt_upd st split: if_splits) (auto simp: is_pt_def)
  then have "ref_ok ?K x s'"
    using ref_okD [OF inv] pd by (auto simp: ref_ok_def nrefs_def s'_def page_push_def)
  moreover have "kern_ok ?K s'"
    using inv pd by (auto simp: vm_inv_def kern_ok_def st)
  ultimately show "vm_inv ?K x s'"
    using dec(2,3) by (simp add: vm_inv_def s'_def)
qed

section \<open>Emptying an address space\<close>

text \<open>
  The state while \<open>env_free\<close> empties directory \<open>pd\<close>: only data pages were released, the other address
  spaces are as they were.
\<close>

definition emptying :: "(nat \<Rightarrow> kind) \<Rightarrow> kstate \<Rightarrow> nat \<Rightarrow> (nat \<Rightarrow> kind) \<Rightarrow> kstate \<Rightarrow> bool" where
  "emptying K s pd K' s' \<longleftrightarrow> vm_inv K' (\<lambda>_. 0) s' \<and> vm_frame s s' \<and>
    (\<forall>q. K' q = K q \<or> K' q = KFree \<and> (K q = KData \<or> (\<exists>d. K q = KPT pd d))) \<and>
    (\<forall>pd' va. pd' \<noteq> pd \<longrightarrow> K pd' = KPD \<longrightarrow> pdx va < 955 \<longrightarrow> aspace s' pd' va = aspace s pd' va)"

lemma emptying_refl: "vm_inv K (\<lambda>_. 0) s \<Longrightarrow> emptying K s pd K s"
  by (simp add: emptying_def)

lemma emptying_trans:
  assumes "emptying K s pd K' s'" "emptying K' s' pd K'' s''"
  shows "emptying K s pd K'' s''"
proof -
  have kinds: "K'' q = K q \<or> K'' q = KFree \<and> (K q = KData \<or> (\<exists>d. K q = KPT pd d))" for q
    using assms unfolding emptying_def by (metis kind.distinct)
  have dirs: "K' pd' = KPD" if "K pd' = KPD" for pd'
    using assms(1) that unfolding emptying_def by (metis kind.distinct)
  have frame: "vm_frame s s''"
    using assms vm_frame_trans by (auto simp: emptying_def)
  have "aspace s'' pd' va = aspace s pd' va" if "pd' \<noteq> pd" "K pd' = KPD" "pdx va < 955" for pd' va
    using assms that dirs [OF that(2)] by (simp add: emptying_def)
  with assms(2) kinds frame show ?thesis
    by (simp add: emptying_def)
qed

lemma PGADDR_idx:
  assumes "d < 1024" "i < 1024"
  shows "pdx (PGADDR (of_nat d) (of_nat i) 0) = d" "ptx (PGADDR (of_nat d) (of_nat i) 0) = i"
proof -
  have u: "unat (of_nat d :: u32) = d" "unat (of_nat i :: u32) = i"
    using assms by (simp_all add: unat_of_nat take_bit_nat_eq_self)
  show "pdx (PGADDR (of_nat d) (of_nat i) 0) = d" "ptx (PGADDR (of_nat d) (of_nat i) 0) = i"
    using assms by (simp_all add: PDX_PGADDR PTX_PGADDR u)
qed

lemma env_free_pte_step:
  assumes inv: "vm_inv K (\<lambda>_. 0) s" and t: "K t = KPT pd d" and i: "i < 1024"
  obtains s' K' where "env_free_pte pd t d i s = Inr ((), s')" "emptying K s pd K' s'" "K' t = KPT pd d"
    "\<not> present (pmem s' t i)" "\<And>q j. q \<noteq> t \<or> j \<noteq> i \<Longrightarrow> pmem s' q j = pmem s q j"
proof (cases "present (pmem s t i)")
  case False
  then show thesis
    using t inv by (intro that [of s K]) (auto simp: env_free_pte_def emptying_refl)
next
  case True
  note T = table_okD(1-4) [OF inv t]
  let ?va = "PGADDR (of_nat d) (of_nat i) 0"
  have va: "pdx ?va = d" "ptx ?va = i"
    using T(2) i by (simp_all add: PGADDR_idx)
  obtain s' K' where R: "page_remove pd ?va s = Inr ((), s')" "vm_inv K' (\<lambda>_. 0) s'" "vm_frame s s'"
    "\<And>q. K' q = K q \<or> K q = KData \<and> (0::nat) = 0 \<and> K' q = KFree"
    "\<And>pd' va'. K pd' = KPD \<Longrightarrow> pdx va' < 955 \<Longrightarrow>
       aspace s' pd' va' = (if pd' = pd \<and> PGNUM va' = PGNUM ?va then None else aspace s pd' va')"
    "\<not> present (pmem s' (frame (pmem s pd (pdx ?va))) (ptx ?va))"
    "\<And>q j. q \<noteq> frame (pmem s pd (pdx ?va)) \<or> j \<noteq> ptx ?va \<Longrightarrow> pmem s' q j = pmem s q j"
    by (rule page_remove_spec [OF inv T(1), of ?va]) (use T va in auto)
  have "emptying K s pd K' s'"
    using R(2-5) by (auto simp: emptying_def)
  moreover have "K' t = KPT pd d"
    using R(4) [of t] t by auto
  ultimately show thesis
    using that [of s' K'] R(1,6,7) True T(4) va by (auto simp: env_free_pte_def)
qed

lemma env_free_ptes:
  assumes inv: "vm_inv K (\<lambda>_. 0) s" and t: "K t = KPT pd d"
  obtains s' K' where "forR (env_free_pte pd t d) [0..<1024] s = Inr ((), s')" "emptying K s pd K' s'"
    "K' t = KPT pd d" "\<And>i. i < 1024 \<Longrightarrow> \<not> present (pmem s' t i)" "pmem s' pd = pmem s pd"
proof -
  let ?P = "\<lambda>i u. \<exists>K'. emptying K s pd K' u \<and> K' t = KPT pd d \<and> (\<forall>j<i. \<not> present (pmem u t j)) \<and>
    pmem u pd = pmem s pd"
  have ne: "pd \<noteq> t"
    using table_okD(1) [OF inv t] t by auto
  have "\<exists>s'. forR (env_free_pte pd t d) [0..<1024] s = Inr ((), s') \<and> ?P 1024 s'"
  proof (rule forR_upt)
    show "?P 0 s"
      using emptying_refl [OF inv] t by auto
  next
    fix i u
    assume i: "i < (1024::nat)" and "?P i u"
    then obtain K1 where K1: "emptying K s pd K1 u" "K1 t = KPT pd d" "\<forall>j<i. \<not> present (pmem u t j)"
      "pmem u pd = pmem s pd"
      by blast
    have "vm_inv K1 (\<lambda>_. 0) u"
      using K1(1) by (simp add: emptying_def)
    from env_free_pte_step [OF this K1(2) i] obtain v K2 where v: "env_free_pte pd t d i u = Inr ((), v)"
      "emptying K1 u pd K2 v" "K2 t = KPT pd d" "\<not> present (pmem v t i)"
      "\<And>q j. q \<noteq> t \<or> j \<noteq> i \<Longrightarrow> pmem v q j = pmem u q j"
      by blast
    have "\<forall>j<Suc i. \<not> present (pmem v t j)"
      using v(4,5) K1(3) by (auto simp: less_Suc_eq)
    moreover have "pmem v pd = pmem s pd"
      using v(5) K1(4) ne by (auto simp: fun_eq_iff)
    ultimately show "\<exists>v. env_free_pte pd t d i u = Inr ((), v) \<and> ?P (Suc i) v"
      using v(1,3) emptying_trans [OF K1(1) v(2)] by blast
  qed simp
  then show thesis
    using that by blast
qed

lemma aspace_free_slot:
  assumes inv: "vm_inv K x s" and "K pd = KPD" "K pd' = KPD" "pd' \<noteq> pd" "pdx va < 955"
  shows "aspace (set_word pd d w s) pd' va = aspace s pd' va"
proof -
  have "frame (pmem s pd' (pdx va)) \<noteq> pd" if "present (pmem s pd' (pdx va))"
    using inv assms(3,5) by (cases rule: user_pde_cases) (use that assms(2) in auto)
  then show ?thesis
    using assms(4) by (auto simp: aspace_def pte_of_def pmem_set_word Let_def)
qed

lemma env_free_pde_step:
  assumes inv: "vm_inv K (\<lambda>_. 0) s" and pd: "K pd = KPD" and d: "d < 955"
  obtains s' K' where "env_free_pde pd d s = Inr ((), s')" "emptying K s pd K' s'" "K' pd = KPD"
    "pmem s' pd d = 0" "\<And>j. j \<noteq> d \<Longrightarrow> pmem s' pd j = pmem s pd j"
  using inv pd d
proof (cases rule: user_pde_cases)
  case absent
  then show thesis
    using pd inv by (intro that [of s K]) (auto simp: env_free_pde_def emptying_refl)
next
  case table
  let ?t = "frame (pmem s pd d)"
  obtain u K1 where u: "forR (env_free_pte pd ?t d) [0..<1024] s = Inr ((), u)" "emptying K s pd K1 u"
    "K1 ?t = KPT pd d" "\<And>i. i < 1024 \<Longrightarrow> \<not> present (pmem u ?t i)" "pmem u pd = pmem s pd"
    using env_free_ptes [OF inv table(2)] by blast
  have inv1: "vm_inv K1 (\<lambda>_. 0) u" and fr: "vm_frame s u"
    using u(2) by (auto simp: emptying_def)
  let ?v = "page_push ?t (upd_page ?t (\<lambda>q. q\<lparr>pp_ref := 0\<rparr>) (set_word pd d 0 u))"
  note F = vm_inv_free_table [OF inv1 u(3,4)]
  have t: "?t < npages s" "npages u = npages s"
    using vm_inv_bound [OF inv, of ?t] table(2) vm_frame_sel(1) [OF fr] by auto
  have ev: "env_free_pde pd d s = Inr ((), ?v)"
    using table(1) u(1) F(1) t by (simp add: env_free_pde_def KADDR_def pa2page_def Let_def)
  have K1pd: "K1 pd = KPD"
    using table_okD(1) [OF inv1 u(3)] .
  have "aspace ?v pd' va = aspace u pd' va" if "pd' \<noteq> pd" "K1 pd' = KPD" "pdx va < 955" for pd' va
    using aspace_free_slot [OF inv1 K1pd that(2,1,3), of d 0]
      aspace_cong [of ?v "set_word pd d 0 u" pd' va] by simp
  then have "emptying K1 u pd (K1(?t := KFree)) ?v"
    using F(2) u(3) by (simp add: emptying_def)
  from emptying_trans [OF u(2) this] show thesis
    using ev K1pd u(3,5) by (intro that [of ?v "K1(?t := KFree)"]) (auto simp: pmem_set_word)
qed

lemma pdx_UTOP: "pdx UTOP = 955"
  by (simp add: unat_PDX)

lemma env_free_pdes:
  assumes inv: "vm_inv K (\<lambda>_. 0) s" and pd: "K pd = KPD"
  obtains s' K' where "forR (env_free_pde pd) [0..<pdx UTOP] s = Inr ((), s')" "emptying K s pd K' s'"
    "K' pd = KPD" "\<And>d. d < 955 \<Longrightarrow> pmem s' pd d = 0"
proof -
  let ?P = "\<lambda>i u. \<exists>K'. emptying K s pd K' u \<and> K' pd = KPD \<and> (\<forall>d<i. pmem u pd d = 0)"
  have "\<exists>s'. forR (env_free_pde pd) [0..<955] s = Inr ((), s') \<and> ?P 955 s'"
  proof (rule forR_upt)
    show "?P 0 s"
      using emptying_refl [OF inv] pd by auto
  next
    fix i u
    assume i: "i < (955::nat)" and "?P i u"
    then obtain K1 where K1: "emptying K s pd K1 u" "K1 pd = KPD" "\<forall>d<i. pmem u pd d = 0"
      by blast
    have "vm_inv K1 (\<lambda>_. 0) u"
      using K1(1) by (simp add: emptying_def)
    from env_free_pde_step [OF this K1(2) i] obtain v K2 where v: "env_free_pde pd i u = Inr ((), v)"
      "emptying K1 u pd K2 v" "K2 pd = KPD" "pmem v pd i = 0" "\<And>j. j \<noteq> i \<Longrightarrow> pmem v pd j = pmem u pd j"
      by blast
    have "\<forall>d<Suc i. pmem v pd d = 0"
      using v(4,5) K1(3) by (auto simp: less_Suc_eq)
    then show "\<exists>v. env_free_pde pd i u = Inr ((), v) \<and> ?P (Suc i) v"
      using v(1,3) emptying_trans [OF K1(1) v(2)] by blast
  qed simp
  then show thesis
    using that unfolding pdx_UTOP by blast
qed

section \<open>The environment table\<close>

text \<open>
  A slot of \<open>envs\<close>: free slots have no page directory; the others carry their own index and a positive
  number as identifier, and a page directory.
\<close>

definition env_slot_ok :: "(nat \<Rightarrow> kind) \<Rightarrow> nat \<Rightarrow> Env \<Rightarrow> bool" where
  "env_slot_ok K e v \<longleftrightarrow>
    (if env_status v = ENV_FREE then env_pgdir v = None
     else ENVX (env_id v) = e \<and> 0 < sint (env_id v) \<and> (\<exists>pd. env_pgdir v = Some pd \<and> K pd = KPD))"

definition env_inv :: "(nat \<Rightarrow> kind) \<Rightarrow> kstate \<Rightarrow> bool" where
  "env_inv K s \<longleftrightarrow>
    (\<exists>fl. env_chain s fl \<and> set fl = {e. e < NENV \<and> env_status (envs s e) = ENV_FREE}) \<and>
    (\<forall>e<NENV. env_slot_ok K e (envs s e)) \<and>
    (\<forall>pd. K pd = KPD \<longrightarrow> (\<exists>e<NENV. env_pgdir (envs s e) = Some pd)) \<and>
    (\<forall>e<NENV. \<forall>e'<NENV. env_pgdir (envs s e) = env_pgdir (envs s e') \<longrightarrow> env_pgdir (envs s e) \<noteq> None \<longrightarrow> e = e')"

text \<open>
  The invariant of the kernel between two entries: the memory and the environments are in order, and
  no page is allocated that nobody refers to.
\<close>

definition kernel_inv :: "(nat \<Rightarrow> kind) \<Rightarrow> kstate \<Rightarrow> bool" where
  "kernel_inv K s \<longleftrightarrow> vm_inv K (\<lambda>_. 0) s \<and> env_inv K s \<and> (\<forall>p. K p \<noteq> KNew)"

lemma env_inv_cong:
  assumes "envs s = envs s'" "env_free_list s = env_free_list s'" "\<And>p. K p = KPD \<longleftrightarrow> K' p = KPD"
  shows "env_inv K s = env_inv K' s'"
  using assms by (simp add: env_inv_def env_chain_def env_slot_ok_def)

lemma env_slotD: "env_inv K s \<Longrightarrow> e < NENV \<Longrightarrow> env_slot_ok K e (envs s e)"
  unfolding env_inv_def by blast

lemma env_ownerD: "env_inv K s \<Longrightarrow> K pd = KPD \<Longrightarrow> \<exists>e<NENV. env_pgdir (envs s e) = Some pd"
  unfolding env_inv_def by blast

lemma env_uniqueD:
  "env_inv K s \<Longrightarrow> e < NENV \<Longrightarrow> e' < NENV \<Longrightarrow> env_pgdir (envs s e) = Some pd \<Longrightarrow>
    env_pgdir (envs s e') = Some pd \<Longrightarrow> e = e'"
  unfolding env_inv_def by (metis option.distinct(1))

lemma env_inv_list:
  assumes "env_inv K s"
  obtains fl where "env_chain s fl" "set fl = {e. e < NENV \<and> env_status (envs s e) = ENV_FREE}"
  using assms unfolding env_inv_def by blast

lemma env_inv_head:
  assumes "env_inv K s" "env_free_list s = Some e"
  shows "e < NENV" "env_status (envs s e) = ENV_FREE"
proof -
  from assms(1) obtain fl where fl: "env_chain s fl" "set fl = {e. e < NENV \<and> env_status (envs s e) = ENV_FREE}"
    by (rule env_inv_list)
  have "e \<in> set fl"
    using fl(1) assms(2) by (cases fl) (auto simp: env_chain_def)
  then show "e < NENV" "env_status (envs s e) = ENV_FREE"
    unfolding fl(2) by auto
qed

lemma env_invI:
  assumes "env_chain s fl" "set fl = {e. e < NENV \<and> env_status (envs s e) = ENV_FREE}"
    and "\<And>e. e < NENV \<Longrightarrow> env_slot_ok K e (envs s e)"
    and "\<And>pd. K pd = KPD \<Longrightarrow> \<exists>e<NENV. env_pgdir (envs s e) = Some pd"
    and "\<And>e e' pd. e < NENV \<Longrightarrow> e' < NENV \<Longrightarrow> env_pgdir (envs s e) = Some pd \<Longrightarrow>
      env_pgdir (envs s e') = Some pd \<Longrightarrow> e = e'"
  shows "env_inv K s"
  unfolding env_inv_def
proof (intro conjI)
  show "\<forall>e<NENV. \<forall>e'<NENV. env_pgdir (envs s e) = env_pgdir (envs s e') \<longrightarrow>
      env_pgdir (envs s e) \<noteq> None \<longrightarrow> e = e'"
    using assms(5) by (metis not_None_eq)
qed (use assms(1-4) in blast)+

lemma env_live:
  assumes "env_inv K s" "e < NENV" "env_status (envs s e) \<noteq> ENV_FREE"
  obtains pd where "env_pgdir (envs s e) = Some pd" "K pd = KPD" "ENVX (env_id (envs s e)) = e"
    "0 < sint (env_id (envs s e))"
  using env_slotD [OF assms(1,2)] assms(3) that by (auto simp: env_slot_ok_def)

text \<open>A new environment takes the head of the free list and a directory of its own.\<close>

lemma env_inv_alloc:
  assumes inv: "env_inv K s" and hd: "env_free_list s = Some e" and p: "K p \<noteq> KPD"
    and v: "env_status v \<noteq> ENV_FREE" "ENVX (env_id v) = e" "0 < sint (env_id v)" "env_pgdir v = Some p"
      "env_link v = env_link (envs s e)"
    and s': "envs s' = (envs s)(e := v)" "env_free_list s' = env_link (envs s e)"
  shows "env_inv (K(p := KPD)) s'" "e < NENV" "env_status (envs s e) = ENV_FREE"
proof -
  from inv obtain fl where fl: "env_chain s fl" "set fl = {e. e < NENV \<and> env_status (envs s e) = ENV_FREE}"
    by (rule env_inv_list)
  then obtain es where es: "fl = e # es" "links (env_link_of s) (env_link (envs s e)) es"
    using hd by (auto simp: env_chain_def links_Some)
  show e: "e < NENV" "env_status (envs s e) = ENV_FREE"
    using env_inv_head [OF inv hd] .
  have nin: "e \<notin> set es"
    using es(2) by (rule links_not_in_tail)
  have none: "env_pgdir (envs s e) = None"
    using env_slotD [OF inv e(1)] e(2) by (simp add: env_slot_ok_def)
  have npd: "env_pgdir (envs s a) \<noteq> Some p" if "a < NENV" for a
    using env_slotD [OF inv that] p by (auto simp: env_slot_ok_def split: if_splits)
  show "env_inv (K(p := KPD)) s'"
  proof (rule env_invI)
    have "links (env_link_of s') (env_free_list s') es = links (env_link_of s) (env_free_list s') es"
      using nin by (intro links_cong) (auto simp: s')
    with es show "env_chain s' es"
      by (simp add: env_chain_def s'(2))
    show "set es = {e. e < NENV \<and> env_status (envs s' e) = ENV_FREE}"
      using fl(2) es(1) nin v(1) by (auto simp: s')
  next
    fix a
    assume "a < NENV"
    then show "env_slot_ok (K(p := KPD)) a (envs s' a)"
      using env_slotD [OF inv, of a] v(1-4) by (auto simp: env_slot_ok_def s'(1))
  next
    fix pd
    assume pd: "(K(p := KPD)) pd = KPD"
    show "\<exists>a<NENV. env_pgdir (envs s' a) = Some pd"
    proof (cases "pd = p")
      case True
      with e v(4) show ?thesis by (intro exI [of _ e]) (simp add: s'(1))
    next
      case False
      with pd env_ownerD [OF inv, of pd] obtain a where a: "a < NENV" "env_pgdir (envs s a) = Some pd"
        by auto
      then have "a \<noteq> e" using none by auto
      with a show ?thesis by (intro exI [of _ a]) (simp add: s'(1))
    qed
  next
    fix a b pd
    assume ab: "a < NENV" "b < NENV" "env_pgdir (envs s' a) = Some pd" "env_pgdir (envs s' b) = Some pd"
    show "a = b"
      using ab npd [OF ab(1)] npd [OF ab(2)] env_uniqueD [OF inv ab(1,2), of pd] v(4)
      by (auto simp: s'(1) split: if_splits)
  qed
qed

text \<open>A freed environment goes back to the head of the free list, its directory to the page allocator.\<close>

lemma env_inv_free:
  assumes inv: "env_inv K s" and e: "e < NENV" "env_pgdir (envs s e) = Some pd" "env_status (envs s e) \<noteq> ENV_FREE"
    and K': "\<And>q. K' q = KPD \<longleftrightarrow> K q = KPD \<and> q \<noteq> pd"
    and v: "env_status v = ENV_FREE" "env_pgdir v = None" "env_link v = env_free_list s"
    and s': "envs s' = (envs s)(e := v)" "env_free_list s' = Some e"
  shows "env_inv K' s'"
proof -
  from inv obtain fl where fl: "env_chain s fl" "set fl = {e. e < NENV \<and> env_status (envs s e) = ENV_FREE}"
    by (rule env_inv_list)
  then have nin: "e \<notin> set fl"
    using e(3) by simp
  have ne: "env_pgdir (envs s a) \<noteq> Some pd" if "a < NENV" "a \<noteq> e" for a
    using env_uniqueD [OF inv that(1) e(1)] e(2) that(2) by blast
  show ?thesis
  proof (rule env_invI)
    have "links (env_link_of s') (env_free_list s) fl = links (env_link_of s) (env_free_list s) fl"
      using nin by (intro links_cong) (auto simp: s')
    with fl(1) show "env_chain s' (e # fl)"
      by (simp add: env_chain_def s' v(3))
    show "set (e # fl) = {e. e < NENV \<and> env_status (envs s' e) = ENV_FREE}"
      using fl(2) nin v(1) e(1) by (auto simp: s')
  next
    fix a
    assume a: "a < NENV"
    then show "env_slot_ok K' a (envs s' a)"
      using env_slotD [OF inv a] ne [OF a] v(1,2) by (auto simp: env_slot_ok_def s'(1) K')
  next
    fix p
    assume "K' p = KPD"
    then have p: "K p = KPD" "p \<noteq> pd" by (auto simp: K')
    with env_ownerD [OF inv p(1)] obtain a where a: "a < NENV" "env_pgdir (envs s a) = Some p"
      by auto
    then have "a \<noteq> e" using e(2) p(2) by auto
    with a show "\<exists>a<NENV. env_pgdir (envs s' a) = Some p" by (intro exI [of _ a]) (simp add: s'(1))
  next
    fix a b p
    assume ab: "a < NENV" "b < NENV" "env_pgdir (envs s' a) = Some p" "env_pgdir (envs s' b) = Some p"
    then show "a = b"
      using env_uniqueD [OF inv ab(1,2), of p] v(2) by (auto simp: s'(1) split: if_splits)
  qed
qed

section \<open>Creation and destruction\<close>

lemma aspace_leaf:
  assumes inv: "vm_inv K x s" and pd: "K pd = KPD" and va: "pdx va < 955"
    and pm: "\<And>q. \<not> leaf (K q) \<Longrightarrow> pmem s' q = pmem s q"
  shows "aspace s' pd va = aspace s pd va"
proof -
  have "pmem s' pd = pmem s pd"
    using pd by (intro pm) simp
  moreover have "pmem s' (frame (pmem s pd (pdx va))) = pmem s (frame (pmem s pd (pdx va)))"
    if "present (pmem s pd (pdx va))"
    using inv pd va by (cases rule: user_pde_cases) (use that pm in auto)
  ultimately show ?thesis
    by (auto simp: aspace_def pte_of_def Let_def)
qed

lemma env_setup_vm_spec:
  assumes inv: "vm_inv K x s"
  obtains (nomem) "env_setup_vm e s = Inr (- E_NO_MEM, s)" "page_free_list s = None"
  | (ok) p s' where "env_setup_vm e s = Inr (0, s')" "K p = KFree" "vm_inv (K(p := KPD)) x s'"
    "envs s' = (envs s)(e := (envs s e)\<lparr>env_pgdir := Some p\<rparr>)" "env_free_list s' = env_free_list s"
    "\<And>va. pdx va < 955 \<Longrightarrow> aspace s' p va = None"
    "\<And>pd va. K pd = KPD \<Longrightarrow> pdx va < 955 \<Longrightarrow> aspace s' pd va = aspace s pd va"
    "\<And>c. cpus s' c = cpus s c" "cpunum s' = cpunum s" "kern_pgdir s' = kern_pgdir s" "page_free_list s = Some p"
    "\<And>q. K q \<noteq> KFree \<Longrightarrow> pmem s' q = pmem s q"
  using inv
proof (cases rule: page_alloc_inv [where fl = ALLOC_ZERO])
  case full
  then show thesis
    by (intro that(1)) (auto simp: env_setup_vm_def)
next
  case (ok p u)
  note fr = vm_frame_sel [OF ok(8)]
  have cp: "cpus u = cpus s"
    using ok(4) by (simp add: page_pop_def split: option.split)
  have p: "p < npages u" "p < 1048576"
    using vm_inv_bound [OF ok(3), of p] by auto
  have kva: "page2kva p u = Inr (p, u)"
    using p PGNUM_page2pa by (simp add: page2kva_def KADDR_def)
  let ?w = "page2pa p OR PTE_P OR PTE_U"
  have w: "frame ?w = p"
    using frame_or_flags [OF p(2), of 5] by (simp add: or.assoc)
  define s' where "s' = set_word p (pdx UVPT) ?w
    (upd_page p (\<lambda>q. q\<lparr>pp_ref := pp_ref q + 1\<rparr>)
      ((upd_env e (\<lambda>v. v\<lparr>env_pgdir := Some p\<rparr>) u)\<lparr>pmem := (pmem u)(p := pmem u (kern_pgdir u))\<rparr>))"
  have ev: "env_setup_vm e s = Inr (0, s')"
    using ok(1) kva by (simp add: env_setup_vm_def s'_def Let_def)
  have uv: "pdx UVPT = 957"
    by (simp add: unat_PDX)
  have pm: "pmem s' = (pmem u)(p := (pmem u (kern_pgdir u))(957 := ?w))"
    unfolding s'_def uv by (simp add: set_word_def)
  have "vm_inv ((K(p := KNew))(p := KPD)) x s'"
    by (rule vm_inv_new_dir [OF ok(3) _ refl _ _ _ _ _ pm]) (use w p in \<open>auto simp: s'_def upd_page_def\<close>)
  then have inv': "vm_inv (K(p := KPD)) x s'"
    by simp
  have ko: "pmem u (kern_pgdir u) d = 0" if "d < 955" for d
    using ok(3) that by (simp add: vm_inv_def kern_ok_def)
  have "aspace s' p va = None" if "pdx va < 955" for va
    using that ko [OF that] by (simp add: aspace_def pte_of_def pm)
  moreover have "aspace s' pd va = aspace s pd va" if "K pd = KPD" "pdx va < 955" for pd va
  proof (rule aspace_leaf [OF inv that])
    fix q
    assume "\<not> leaf (K q)"
    then have "q \<noteq> p" using ok(2) by auto
    then show "pmem s' q = pmem s q" by (simp add: pm ok(5))
  qed
  moreover have "pmem s' q = pmem s q" if "K q \<noteq> KFree" for q
    using that ok(2) ok(5) [of q] by (auto simp: pm)
  ultimately show thesis
    using ev ok(2,9) inv' fr cp by (intro that(2) [of s' p]) (auto simp: s'_def upd_env_def)
qed

lemma kernel_invD:
  assumes "kernel_inv K s"
  shows "vm_inv K (\<lambda>_. 0) s" "env_inv K s" "K p \<noteq> KNew"
  using assms by (auto simp: kernel_inv_def)

lemma no_free_env:
  assumes "env_inv K s" "env_free_list s = None" "e < NENV"
  shows "env_status (envs s e) \<noteq> ENV_FREE"
  using assms(1)
proof (rule env_inv_list)
  fix fl
  assume "env_chain s fl" "set fl = {e. e < NENV \<and> env_status (envs s e) = ENV_FREE}"
  with assms(2,3) show ?thesis
    by (auto simp: env_chain_def)
qed

lemma no_free_page:
  assumes "vm_inv K x s" "page_free_list s = None"
  shows "K p \<noteq> KFree"
  using assms(1)
proof (rule free_list_of)
  fix fl
  assume "page_chain s fl" "set fl = {p. K p = KFree}"
  with assms(2) show ?thesis
    by (auto simp: page_chain_def)
qed

text \<open>What a caller of \<open>env_alloc\<close> gets when it succeeds.\<close>

definition env_created :: "(nat \<Rightarrow> kind) \<Rightarrow> kstate \<Rightarrow> u32 \<Rightarrow> nat \<Rightarrow> nat \<Rightarrow> (nat \<Rightarrow> kind) \<Rightarrow> kstate \<Rightarrow> bool" where
  "env_created K s parent e pd K' s' \<longleftrightarrow>
    e < NENV \<and> env_status (envs s e) = ENV_FREE \<and> K pd = KFree \<and> K' = K(pd := KPD) \<and>
    envs s' = (envs s)(e := (envs s e)\<lparr>env_pgdir := Some pd, env_id := next_env_id e (env_id (envs s e)),
      env_parent_id := parent, env_type := ENV_TYPE_USER, env_status := ENV_RUNNABLE, env_runs := 0,
      env_tf := user_tf, env_pgfault_upcall := 0, env_ipc_recving := False\<rparr>) \<and>
    (\<forall>va. va < UTOP \<longrightarrow> aspace s' pd va = None) \<and>
    (\<forall>pd' va. K pd' = KPD \<and> va < UTOP \<longrightarrow> aspace s' pd' va = aspace s pd' va) \<and>
    (\<forall>q. K q \<noteq> KFree \<longrightarrow> pmem s' q = pmem s q) \<and>
    (\<forall>c. cpus s' c = cpus s c) \<and> cpunum s' = cpunum s \<and> kern_pgdir s' = kern_pgdir s"

lemma env_alloc_spec:
  assumes inv: "kernel_inv K s"
  obtains (noenv) "env_alloc parent s = Inr ((- E_NO_FREE_ENV, None), s)" "env_free_list s = None"
  | (nomem) "env_alloc parent s = Inr ((- E_NO_MEM, None), s)" "page_free_list s = None"
  | (ok) e pd s' K' where "env_alloc parent s = Inr ((0, Some e), s')" "env_created K s parent e pd K' s'"
    "kernel_inv K' s'" "env_free_list s = Some e" "page_free_list s = Some pd"
proof (cases "env_free_list s")
  case None
  then show thesis
    by (intro noenv) (simp_all add: env_alloc_def)
next
  case (Some e)
  note I = kernel_invD [OF inv]
  from I(1) show thesis
  proof (cases rule: env_setup_vm_spec [where e = e])
    case nomem
    with Some show thesis
      by (intro that(2)) (simp_all add: env_alloc_def)
  next
    case (ok p u)
    define f where "f v = v\<lparr>env_id := next_env_id e (env_id v), env_parent_id := parent, env_type := ENV_TYPE_USER,
      env_status := ENV_RUNNABLE, env_runs := 0, env_tf := user_tf, env_pgfault_upcall := 0,
      env_ipc_recving := False\<rparr>" for v :: Env
    define s' where "s' = env_pop (upd_env e f u)"
    define v where "v = f ((envs s e)\<lparr>env_pgdir := Some p\<rparr>)"
    have es: "envs s' = (envs s)(e := v)" "env_free_list s' = env_link (envs s e)"
      using Some by (auto simp: s'_def v_def env_pop_def ok(4,5) upd_env_def f_def)
    have fr: "npages s' = npages u" "pages s' = pages u" "page_free_list s' = page_free_list u" "pmem s' = pmem u"
      "kern_pgdir s' = kern_pgdir u" "cpus s' = cpus u" "cpunum s' = cpunum u"
      by (simp_all add: s'_def env_pop_def split: option.split)
    have ev: "env_alloc parent s = Inr ((0, Some e), s')"
      using Some ok(1) by (simp add: env_alloc_def s'_def f_def [abs_def])
    have "e < NENV"
      using env_inv_head(1) [OF I(2) Some] .
    then have id: "ENVX (env_id v) = e" "0 < sint (env_id v)"
      using next_env_id [of e] by (simp_all add: v_def f_def)
    have E: "env_inv (K(p := KPD)) s'" "e < NENV" "env_status (envs s e) = ENV_FREE"
      by (rule env_inv_alloc [OF I(2) Some _ _ id _ _ es]; simp add: ok(2) v_def f_def)+
    have "vm_inv (K(p := KPD)) (\<lambda>_. 0) s'"
      using ok(3) vm_inv_cong [of s' u] fr by simp
    with E(1) I(3) have K': "kernel_inv (K(p := KPD)) s'"
      by (simp add: kernel_inv_def)
    have "env_created K s parent e p (K(p := KPD)) s'"
      using E(2,3) ok(2,6-10,12) es(1) fr aspace_cong [of s' u] unfolding env_created_def below_UTOP_iff
      by (simp add: v_def f_def)
    from that(3) [OF ev this K' Some ok(11)] show thesis .
  qed
qed

text \<open>What \<open>env_free\<close> does to an environment that is in use.\<close>

lemma env_free_spec:
  assumes inv: "kernel_inv K s" and e: "e < NENV" "env_status (envs s e) \<noteq> ENV_FREE"
    and pd: "env_pgdir (envs s e) = Some pd"
  obtains s' K' where "env_free e s = Inr ((), s')" "kernel_inv K' s'" "K' pd = KFree"
    "\<And>q. q \<noteq> e \<Longrightarrow> envs s' q = envs s q" "env_status (envs s' e) = ENV_FREE" "env_pgdir (envs s' e) = None"
    "env_id (envs s' e) = env_id (envs s e)"
    "\<And>q. q \<noteq> pd \<Longrightarrow> K' q = K q \<or> K' q = KFree \<and> (K q = KData \<or> (\<exists>d. K q = KPT pd d))"
    "\<And>pd' va. pd' \<noteq> pd \<Longrightarrow> K pd' = KPD \<Longrightarrow> pdx va < 955 \<Longrightarrow> aspace s' pd' va = aspace s pd' va"
    "cpunum s' = cpunum s" "\<And>c. cpu_env (cpus s' c) = cpu_env (cpus s c)" "kern_pgdir s' = kern_pgdir s"
proof -
  note I = kernel_invD [OF inv]
  define s0 where "s0 = (if Some e = curenv s then lcr3 (kern_pgdir s) s else s)"
  have f0: "envs s0 = envs s" "pmem s0 = pmem s" "env_free_list s0 = env_free_list s" "cpunum s0 = cpunum s"
    "kern_pgdir s0 = kern_pgdir s" "\<And>c. cpu_env (cpus s0 c) = cpu_env (cpus s c)"
    by (auto simp: s0_def lcr3_def)
  have inv0: "vm_inv K (\<lambda>_. 0) s0"
    using I(1) vm_inv_cong [of s0 s] by (simp add: s0_def)
  from I(2) e have kpd: "K pd = KPD"
    by (rule env_live) (use pd in auto)
  obtain u K1 where u: "forR (env_free_pde pd) [0..<pdx UTOP] s0 = Inr ((), u)" "emptying K s0 pd K1 u"
    "K1 pd = KPD" "\<And>d. d < 955 \<Longrightarrow> pmem u pd d = 0"
    using env_free_pdes [OF inv0 kpd] by blast
  have fr: "vm_frame s0 u" and inv1: "vm_inv K1 (\<lambda>_. 0) u"
    using u(2) by (auto simp: emptying_def)
  note fs = vm_frame_sel [OF fr]
  define u' where "u' = upd_env e (\<lambda>v. v\<lparr>env_pgdir := None\<rparr>) u"
  have inv2: "vm_inv K1 (\<lambda>_. 0) u'"
    using inv1 vm_inv_cong [of u' u] by (simp add: u'_def)
  define v where "v = page_push pd (upd_page pd (\<lambda>q. q\<lparr>pp_ref := 0\<rparr>) u')"
  have F: "page_decref pd u' = Inr ((), v)" "vm_inv (K1(pd := KFree)) (\<lambda>_. 0) v"
    using vm_inv_free_dir [OF inv2 u(3)] u(4) by (simp_all add: v_def u'_def)
  define s' where "s' = env_push e (upd_env e (\<lambda>w. w\<lparr>env_status := ENV_FREE\<rparr>) v)"
  have pb: "pd < npages u'" "pd < 1048576"
    using vm_inv_bound [OF inv2, of pd] u(3) by auto
  have ev: "env_free e s = Inr ((), s')"
  proof -
    have P: "PADDR_pgdir (Some pd) u = Inr (page2pa pd, u)"
      by (simp add: PADDR_pgdir_def)
    have pp: "pa2page (page2pa pd) u' = Inr (pd, u')"
      using pb PGNUM_page2pa [OF pb(2)] by (simp add: pa2page_def)
    have "env_free e s = bindR (PADDR_pgdir (env_pgdir (envs u e)) u) (\<lambda>(pa, s).
        let s = upd_env e (\<lambda>v. v\<lparr>env_pgdir := None\<rparr>) s
        in bindR (pa2page pa s) (\<lambda>(pp, s).
             bindR (page_decref pp s) (\<lambda>(_, s).
               Inr ((), env_push e (upd_env e (\<lambda>v. v\<lparr>env_status := ENV_FREE\<rparr>) s)))))"
      using u(1) pd f0(1) unfolding env_free_def s0_def by (simp add: Let_def)
    then show ?thesis
      using P pp F(1) pd by (simp add: fs(3) f0(1) u'_def s'_def)
  qed
  have es: "envs s' = (envs s)(e := (envs s e)\<lparr>env_pgdir := None, env_status := ENV_FREE, env_link := env_free_list s\<rparr>)"
    "env_free_list s' = Some e"
    by (auto simp: s'_def env_push_def v_def page_push_def u'_def upd_env_def upd_page_def fs(3,4) f0(1,3))
  have rest: "pmem s' = pmem u" "npages s' = npages v" "pages s' = pages v" "page_free_list s' = page_free_list v"
    "kern_pgdir s' = kern_pgdir v" "pmem s' = pmem v" "cpus s' = cpus u" "cpunum s' = cpunum u"
    "kern_pgdir v = kern_pgdir u"
    by (simp_all add: s'_def env_push_def v_def u'_def)
  have kinds: "K1 q = K q \<or> K1 q = KFree \<and> (K q = KData \<or> (\<exists>d. K q = KPT pd d))" for q
    using u(2) by (auto simp: emptying_def)
  have "vm_inv (K1(pd := KFree)) (\<lambda>_. 0) s'"
    using F(2) vm_inv_cong [of s' v] rest by simp
  moreover have "env_inv (K1(pd := KFree)) s'"
  proof (rule env_inv_free [OF I(2) e(1) pd e(2) _ _ _ _ es])
    show "(K1(pd := KFree)) q = KPD \<longleftrightarrow> K q = KPD \<and> q \<noteq> pd" for q
      using kinds [of q] by auto
  qed simp_all
  moreover have "(K1(pd := KFree)) q \<noteq> KNew" for q
    using kinds [of q] I(3) [of q] by auto
  ultimately have "kernel_inv (K1(pd := KFree)) s'"
    by (simp add: kernel_inv_def)
  moreover have "aspace s' pd' va = aspace s pd' va" if "pd' \<noteq> pd" "K pd' = KPD" "pdx va < 955" for pd' va
    using u(2) that aspace_cong [OF rest(1)] aspace_cong [OF f0(2)] by (simp add: emptying_def)
  ultimately show thesis
    using ev kinds f0 fs(5,7) rest(5-9) es(1) vm_frame_sel(2) [OF fr]
    by (intro that [of s' "K1(pd := KFree)"]) auto
qed

section \<open>The environment table after \<open>env_init\<close>\<close>

lemma env_init_one_sel:
  "envs (env_init_one s i) q = (if q = i then (envs s i)\<lparr>env_link := env_free_list s, env_id := 0, env_status := ENV_FREE\<rparr>
     else envs s q)"
  "env_free_list (env_init_one s i) = Some i"
  by (auto simp: env_init_one_def env_push_def upd_env_def)

lemma env_init_fold:
  assumes "env_chain s fl" "distinct is" "set is \<inter> set fl = {}"
  shows "env_chain (foldl env_init_one s is) (rev is @ fl)"
    and "q \<in> set is \<Longrightarrow> env_status (envs (foldl env_init_one s is) q) = ENV_FREE \<and>
      env_id (envs (foldl env_init_one s is) q) = 0"
    and "env_pgdir (envs (foldl env_init_one s is) q) = env_pgdir (envs s q)"
proof -
  show "env_chain (foldl env_init_one s is) (rev is @ fl)"
    using assms
  proof (induction "is" arbitrary: s fl)
    case (Cons i "is")
    have "links (env_link_of (env_init_one s i)) (env_free_list s) fl = links (env_link_of s) (env_free_list s) fl"
      using Cons.prems(3) by (intro links_cong) (auto simp: env_init_one_sel)
    then have "env_chain (env_init_one s i) (i # fl)"
      using Cons.prems(1) by (simp add: env_chain_def env_init_one_sel)
    from Cons.IH [OF this] Cons.prems(2,3) show ?case
      by auto
  qed simp
  have keep: "env_status (envs s q) = ENV_FREE \<and> env_id (envs s q) = 0 \<Longrightarrow>
    env_status (envs (foldl env_init_one s is) q) = ENV_FREE \<and> env_id (envs (foldl env_init_one s is) q) = 0" for s "is"
    by (induction "is" arbitrary: s) (auto simp: env_init_one_sel)
  show "q \<in> set is \<Longrightarrow> env_status (envs (foldl env_init_one s is) q) = ENV_FREE \<and>
      env_id (envs (foldl env_init_one s is) q) = 0"
  proof (induction "is" arbitrary: s)
    case (Cons i "is")
    show ?case
    proof (cases "q = i")
      case True
      then show ?thesis using keep [of "env_init_one s i"] by (simp add: env_init_one_sel)
    next
      case False
      with Cons show ?thesis by simp
    qed
  qed simp
  show "env_pgdir (envs (foldl env_init_one s is) q) = env_pgdir (envs s q)"
    by (induction "is" arbitrary: s) (auto simp: env_init_one_sel)
qed

lemma env_ids: "[0..<NENV] = 0 # [Suc 0..<NENV]"
  by (rule upt_conv_Cons) simp

lemma env_init_fields:
  "npages (env_init s) = npages s" "pages (env_init s) = pages s" "page_free_list (env_init s) = page_free_list s"
  "pmem (env_init s) = pmem s" "kern_pgdir (env_init s) = kern_pgdir s"
proof -
  have "npages (foldl env_init_one t is) = npages t \<and> pages (foldl env_init_one t is) = pages t \<and>
    page_free_list (foldl env_init_one t is) = page_free_list t \<and> pmem (foldl env_init_one t is) = pmem t \<and>
    kern_pgdir (foldl env_init_one t is) = kern_pgdir t" for t "is"
    by (induction "is" arbitrary: t) (auto simp: env_init_one_def env_push_def)
  then show "npages (env_init s) = npages s" "pages (env_init s) = pages s"
    "page_free_list (env_init s) = page_free_list s" "pmem (env_init s) = pmem s"
    "kern_pgdir (env_init s) = kern_pgdir s"
    unfolding env_init_def by simp_all
qed

lemma env_init_state:
  shows "env_chain (env_init s) [0..<NENV]"
    and "e < NENV \<Longrightarrow> env_status (envs (env_init s) e) = ENV_FREE \<and> env_id (envs (env_init s) e) = 0 \<and>
      env_pgdir (envs (env_init s) e) = env_pgdir (envs s e)"
proof -
  let ?t = "s\<lparr>env_free_list := None\<rparr>"
  have c: "env_chain ?t []" by (simp add: env_chain_def)
  show "env_chain (env_init s) [0..<NENV]"
    using env_init_fold(1) [OF c, of "rev [0..<NENV]"] unfolding env_init_def by simp
  show "e < NENV \<Longrightarrow> env_status (envs (env_init s) e) = ENV_FREE \<and> env_id (envs (env_init s) e) = 0 \<and>
      env_pgdir (envs (env_init s) e) = env_pgdir (envs s e)"
    using env_init_fold(2,3) [OF c, of "rev [0..<NENV]" e] unfolding env_init_def by simp
qed

section \<open>A small machine with environments\<close>

text \<open>
  Sixteen frames: the kernel's directory in frame 1, the free frames 2 to 14, an empty environment table;
  then the same machine after one environment was created.
\<close>

definition boot_kinds :: "nat \<Rightarrow> kind" where
  "boot_kinds p = (if 2 \<le> p \<and> p \<le> 14 then KFree else KOther)"

definition boot_state :: kstate where
  "boot_state = env_init (bss_state\<lparr>npages := 16, kern_pgdir := 1, page_free_list := Some 2,
     pages := (\<lambda>p. \<lparr>pp_link = if 2 \<le> p \<and> p \<le> 13 then Some (p + 1) else None, pp_ref = 0\<rparr>)\<rparr>)"

definition run_state :: "'a kres \<Rightarrow> kstate" where
  "run_state r = (case r of Inl _ \<Rightarrow> bss_state | Inr (_, s) \<Rightarrow> s)"

definition one_env :: kstate where
  "one_env = run_state (env_alloc 0 boot_state)"

definition one_env_kinds :: "nat \<Rightarrow> kind" where
  "one_env_kinds = boot_kinds(2 := KPD)"

lemma boot_inv: "kernel_inv boot_kinds boot_state"
proof -
  let ?t = "bss_state\<lparr>npages := 16, kern_pgdir := 1, page_free_list := Some 2,
     pages := (\<lambda>p. \<lparr>pp_link = if 2 \<le> p \<and> p \<le> 13 then Some (p + 1) else None, pp_ref = 0\<rparr>)\<rparr>"
  have "page_chain ?t [2..<15]"
    by (simp add: page_chain_def)
  moreover have "set [2..<15] = {p. boot_kinds p = KFree}"
    by (auto simp: boot_kinds_def simp del: upt_rec_numeral)
  ultimately have "free_ok boot_kinds ?t"
    unfolding free_ok_def by blast
  then have "vm_inv boot_kinds (\<lambda>_. 0) ?t"
    by (simp add: vm_inv_def page_ok_def dir_ok_def table_ok_def ref_ok_def kern_ok_def)
      (simp add: boot_kinds_def bss_state_def)
  then have "vm_inv boot_kinds (\<lambda>_. 0) boot_state"
    unfolding boot_state_def by (subst vm_inv_cong [where s' = ?t]) (simp_all add: env_init_fields)
  moreover have "env_inv boot_kinds boot_state"
  proof (rule env_invI)
    show "env_chain boot_state [0..<NENV]"
      unfolding boot_state_def by (rule env_init_state)
    show "set [0..<NENV] = {e. e < NENV \<and> env_status (envs boot_state e) = ENV_FREE}"
      unfolding boot_state_def using env_init_state(2) by auto
    have none: "env_pgdir (envs boot_state e) = None \<and> env_status (envs boot_state e) = ENV_FREE" if "e < NENV" for e
      unfolding boot_state_def using env_init_state(2) [OF that] by (simp add: bss_state_def zero_env_def)
    then show "env_slot_ok boot_kinds e (envs boot_state e)" if "e < NENV" for e
      using that by (simp add: env_slot_ok_def)
    show "e = e'" if "e < NENV" "e' < NENV" "env_pgdir (envs boot_state e) = Some pd" for e e' pd
      using none [OF that(1)] that(3) by simp
  qed (auto simp: boot_kinds_def split: if_splits)
  ultimately show ?thesis
    by (auto simp: kernel_inv_def boot_kinds_def)
qed

lemma boot_lists: "env_free_list boot_state = Some 0" "page_free_list boot_state = Some 2"
proof -
  show "env_free_list boot_state = Some 0"
    using env_init_state(1) unfolding boot_state_def env_ids env_chain_def links.simps by blast
  show "page_free_list boot_state = Some 2"
    by (simp add: boot_state_def env_init_fields)
qed

lemma one_env_created:
  "env_alloc 0 boot_state = Inr ((0, Some 0), one_env)"
  "env_created boot_kinds boot_state 0 0 2 one_env_kinds one_env"
  "kernel_inv one_env_kinds one_env"
proof -
  have "env_alloc 0 boot_state = Inr ((0, Some 0), one_env) \<and>
    env_created boot_kinds boot_state 0 0 2 one_env_kinds one_env \<and> kernel_inv one_env_kinds one_env"
    using boot_inv
  proof (cases rule: env_alloc_spec [where parent = 0])
    case (ok e pd s' K')
    then have "e = 0" "pd = 2" "one_env = s'" "K' = boot_kinds(2 := KPD)"
      by (auto simp: boot_lists one_env_def run_state_def env_created_def)
    with ok show ?thesis by (simp add: one_env_kinds_def)
  qed (simp_all add: boot_lists)
  then show "env_alloc 0 boot_state = Inr ((0, Some 0), one_env)"
    "env_created boot_kinds boot_state 0 0 2 one_env_kinds one_env" "kernel_inv one_env_kinds one_env"
    by auto
qed

section \<open>Properties\<close>

text \<open>After \<open>env_init\<close> every slot of the environment table is free with identifier 0, and the free list
  holds the slots in the order of the table, so that the first \<open>env_alloc\<close> returns \<open>envs[0]\<close>.\<close>

lemma env_init_correct:
  "env_chain (env_init s) [0..<NENV] \<and> env_free_list (env_init s) = Some 0 \<and>
    (\<forall>e \<in> {..<NENV}. env_status (envs (env_init s) e) = ENV_FREE \<and> env_id (envs (env_init s) e) = 0)"
proof -
  have "env_free_list (env_init s) = Some 0"
    using env_init_state(1) unfolding env_ids env_chain_def links.simps by blast
  then show ?thesis
    using env_init_state by blast
qed

text \<open>C7. \<open>env_alloc\<close> either fails without changing anything, because no slot or no page is free, or makes a
  free slot runnable with a fresh positive identifier that names the slot and differs from the last
  one, with initial user registers and an empty user address space of its own; every other
  environment and address space is unchanged and the invariant of the kernel holds.\<close>

theorem env_alloc_correct:
  assumes "kernel_inv K s"
  shows "(env_alloc parent s = Inr ((- E_NO_FREE_ENV, None), s) \<and> (\<forall>e<NENV. env_status (envs s e) \<noteq> ENV_FREE)) \<or>
    (env_alloc parent s = Inr ((- E_NO_MEM, None), s) \<and> (\<forall>p. K p \<noteq> KFree)) \<or>
    (\<exists>e pd s' K'. env_alloc parent s = Inr ((0, Some e), s') \<and> env_created K s parent e pd K' s' \<and>
      kernel_inv K' s' \<and> ENVX (env_id (envs s' e)) = e \<and> 0 < sint (env_id (envs s' e)) \<and>
      env_id (envs s' e) \<noteq> env_id (envs s e))"
  using assms
proof (cases rule: env_alloc_spec [where parent = parent])
  case noenv
  with no_free_env [OF kernel_invD(2) [OF assms]] show ?thesis by blast
next
  case nomem
  with no_free_page [OF kernel_invD(1) [OF assms]] show ?thesis by blast
next
  case (ok e pd s' K')
  then have "env_id (envs s' e) = next_env_id e (env_id (envs s e))" "e < 1024"
    by (auto simp: env_created_def)
  with ok next_env_id [of e "env_id (envs s e)"] show ?thesis by metis
qed

theorem env_alloc_correct_witness:
  "kernel_inv boot_kinds boot_state \<and> env_free_list boot_state = Some 0 \<and>
   ((env_alloc 0 boot_state = Inr ((- E_NO_FREE_ENV, None), boot_state) \<and>
      (\<forall>e<NENV. env_status (envs boot_state e) \<noteq> ENV_FREE)) \<or>
    (env_alloc 0 boot_state = Inr ((- E_NO_MEM, None), boot_state) \<and> (\<forall>p. boot_kinds p \<noteq> KFree)) \<or>
    (\<exists>e pd s' K'. env_alloc 0 boot_state = Inr ((0, Some e), s') \<and> env_created boot_kinds boot_state 0 e pd K' s' \<and>
      kernel_inv K' s' \<and> ENVX (env_id (envs s' e)) = e \<and> 0 < sint (env_id (envs s' e)) \<and>
      env_id (envs s' e) \<noteq> env_id (envs boot_state e)))"
  using boot_inv boot_lists env_alloc_correct [OF boot_inv, of 0] by blast



end
