(* ===== verification/Sched.thy ===== *)
theory Sched
  imports EnvInv
begin

text \<open>
  The scheduler of kern/sched.c, with \<open>env_destroy\<close> of kern/env.c and \<open>user_mem_assert\<close> of kern/pmap.c,
  which end in it, and the clock of kern/time.c. The lemmas say which environment \<open>sched_yield\<close> picks,
  in which state the processor leaves the kernel, and that round robin does not starve anybody.
\<close>

unbundle bit_operations_syntax

section \<open>Time\<close>

definition time_init :: "kstate \<Rightarrow> kstate" where
  "time_init s = s\<lparr>ticks := 0\<rparr>"

definition time_tick :: "kstate \<Rightarrow> unit kres" where
  "time_tick s =
    (let s = s\<lparr>ticks := ticks s + 1\<rparr>
     in if ticks s * 10 < ticks s then Inl (Panic ''time_tick: time overflowed'') else Inr ((), s))"

definition time_msec :: "kstate \<Rightarrow> u32" where
  "time_msec s = ticks s * 10"

section \<open>Scheduling\<close>

text \<open>
  The search loop of \<open>sched_yield\<close>: \<open>n\<close> rounds are left and \<open>j\<close> is the slot to look at. Reading
  \<open>envs[NENV]\<close> is outside the table.
\<close>

fun sched_find :: "nat \<Rightarrow> nat \<Rightarrow> kstate \<Rightarrow> nat option kres" where
  "sched_find 0 j s = Inr (None, s)"
| "sched_find (Suc n) j s =
    (if j \<ge> NENV then Inl (Undefined ''read of envs[NENV]'')
     else if env_status (envs s j) = ENV_RUNNABLE then Inr (Some j, s)
     else sched_find n ((j + 1) mod NENV) s)"

definition sched_halt :: "kstate \<Rightarrow> unit kres" where
  "sched_halt s =
    (if list_all (\<lambda>i. env_status (envs s i) \<notin> {ENV_RUNNABLE, ENV_RUNNING, ENV_DYING}) [0..<NENV]
     then Inl (Monitor s)
     else
       let s = upd_cpu (\<lambda>c. c\<lparr>cpu_env := None\<rparr>) s;
           s = lcr3 (kern_pgdir s) s;
           s = upd_cpu (\<lambda>c. c\<lparr>cpu_status := CPU_HALTED\<rparr>) s
       in bindR (unlock_kernel s) (\<lambda>(_, s). Inl (Halted s)))"

definition sched_yield :: "kstate \<Rightarrow> unit kres" where
  "sched_yield s =
    bindR (sched_find NENV (case curenv s of None \<Rightarrow> 0 | Some c \<Rightarrow> ENVX (env_id (envs s c)) + 1) s)
      (\<lambda>(r, s). case r of
         Some j \<Rightarrow> env_run j s
       | None \<Rightarrow>
           (case curenv s of
              Some c \<Rightarrow> if env_status (envs s c) = ENV_RUNNING then env_run c s else sched_halt s
            | None \<Rightarrow> sched_halt s))"

definition env_destroy :: "nat \<Rightarrow> kstate \<Rightarrow> unit kres" where
  "env_destroy e s =
    (if env_status (envs s e) = ENV_RUNNING \<and> curenv s \<noteq> Some e
     then Inr ((), upd_env e (\<lambda>v. v\<lparr>env_status := ENV_DYING\<rparr>) s)
     else bindR (env_free e s) (\<lambda>(_, s).
       if curenv s = Some e then sched_yield (upd_cpu (\<lambda>c. c\<lparr>cpu_env := None\<rparr>) s) else Inr ((), s)))"

definition user_mem_assert :: "nat \<Rightarrow> u32 \<Rightarrow> u32 \<Rightarrow> u32 \<Rightarrow> kstate \<Rightarrow> unit kres" where
  "user_mem_assert env va len perm s =
    bindR (user_mem_check env va len (perm OR PTE_U) s) (\<lambda>(r, s).
      if r < 0 then env_destroy env s else Inr ((), s))"

section \<open>Lemmas\<close>

text \<open>The search returns the first runnable slot in circular order.\<close>

lemma sched_find_eq:
  assumes "j < NENV"
  shows "sched_find n j s = Inr (map_option (\<lambda>k. (j + k) mod NENV)
    (find (\<lambda>k. env_status (envs s ((j + k) mod NENV)) = ENV_RUNNABLE) [0..<n]), s)"
  using assms
proof (induction n arbitrary: j)
  case (Suc n)
  have m: "(j + 1) mod NENV < NENV" by simp
  have sh: "find P [0..<Suc n] = (if P 0 then Some 0 else map_option Suc (find (\<lambda>k. P (Suc k)) [0..<n]))" for P
  proof -
    have "[0..<Suc n] = 0 # map Suc [0..<n]"
      by (simp add: upt_conv_Cons map_Suc_upt del: upt_Suc)
    moreover have "find P (map Suc xs) = map_option Suc (find (\<lambda>k. P (Suc k)) xs)" for xs
      by (induction xs) auto
    ultimately show ?thesis by simp
  qed
  have a: "((j + 1) mod NENV + k) mod NENV = (j + Suc k) mod NENV" for k
    by (simp add: mod_add_left_eq)
  show ?case
    unfolding sched_find.simps sh a Suc.IH [OF m]
    using Suc.prems by (simp add: option.map_comp comp_def)
qed simp

lemma unlock_ok:
  "holding (kernel_lock s) (cpunum s) \<Longrightarrow>
    unlock_kernel s = Inr ((), s\<lparr>kernel_lock := \<lparr>locked = 0, lock_cpu = None\<rparr>\<rparr>)"
  by (cases "kernel_lock s") (simp add: unlock_kernel_def xchg_locked_def)

text \<open>The state in which \<open>env_run\<close> drops to user mode.\<close>

definition running :: "nat \<Rightarrow> kstate \<Rightarrow> bool" where
  "running e s \<longleftrightarrow> curenv s = Some e \<and> env_cpunum (envs s e) = cpunum s \<and>
    locked (kernel_lock s) = 0 \<and> lock_cpu (kernel_lock s) = None"

lemma env_run_switch:
  assumes "curenv s \<noteq> Some e" "env_pgdir (envs s e) = Some pd" "pd < 1048576" "holding (kernel_lock s) (cpunum s)"
  obtains s' where "env_run e s = Inl (ToUser s')" "running e s'" "env_status (envs s' e) = ENV_RUNNING"
    "cr3 (cpus s' (cpunum s)) = pd" "cpunum s' = cpunum s"
    "\<And>c. curenv s = Some c \<Longrightarrow> env_status (envs s' c) =
       (if env_status (envs s c) = ENV_RUNNING then ENV_RUNNABLE else env_status (envs s c))"
    "\<And>q. q \<noteq> e \<Longrightarrow> curenv s \<noteq> Some q \<Longrightarrow> envs s' q = envs s q"
    "env_tf (envs s' e) = env_tf (envs s e)" "pmem s' = pmem s"
proof -
  let ?a = "case curenv s of None \<Rightarrow> s | Some c \<Rightarrow> if env_status (envs s c) = ENV_RUNNING
    then upd_env c (\<lambda>v. v\<lparr>env_status := ENV_RUNNABLE\<rparr>) s else s"
  let ?b = "upd_env e (\<lambda>v. v\<lparr>env_status := ENV_RUNNING, env_runs := env_runs v + 1\<rparr>) (upd_cpu (\<lambda>c. c\<lparr>cpu_env := Some e\<rparr>) ?a)"
  let ?c = "(lcr3 pd ?b)\<lparr>kernel_lock := \<lparr>locked = 0, lock_cpu = None\<rparr>\<rparr>"
  let ?d = "upd_env e (\<lambda>v. v\<lparr>env_cpunum := cpunum s\<rparr>) ?c"
  have a: "kernel_lock ?a = kernel_lock s" "cpunum ?a = cpunum s" "env_pgdir (envs ?a e) = Some pd"
    "env_tf (envs ?a e) = env_tf (envs s e)" "pmem ?a = pmem s"
    "\<And>q. curenv s \<noteq> Some q \<Longrightarrow> envs ?a q = envs s q"
    "\<And>c. curenv s = Some c \<Longrightarrow> env_status (envs ?a c) =
       (if env_status (envs s c) = ENV_RUNNING then ENV_RUNNABLE else env_status (envs s c))"
    using assms(2) by (auto split: option.split)
  have u: "unlock_kernel (lcr3 pd ?b) = Inr ((), ?c)"
    using assms(4) a by (intro unlock_ok) simp
  have "env_run e s = Inl (ToUser ?d)"
    using assms(1) a u PGNUM_page2pa [OF assms(3)]
    by (simp add: env_run_def PADDR_pgdir_def env_pop_tf_def curenv_def lcr3_def Let_def)
  then show thesis
    using assms(1) a by (intro that [of ?d]) (auto simp: running_def curenv_def lcr3_def)
qed

lemma env_run_again:
  assumes "curenv s = Some e" "holding (kernel_lock s) (cpunum s)"
  shows "env_run e s = Inl (ToUser (upd_env e (\<lambda>v. v\<lparr>env_cpunum := cpunum s\<rparr>)
    (s\<lparr>kernel_lock := \<lparr>locked = 0, lock_cpu = None\<rparr>\<rparr>)))"
  using assms unlock_ok [OF assms(2)] by (simp add: env_run_def env_pop_tf_def curenv_def)

section \<open>The invariant of the kernel\<close>

text \<open>
  Some assignment of kinds to frames makes the memory and the environments consistent, and the
  current environment, if any, is a slot of the table.
\<close>

definition kinv :: "kstate \<Rightarrow> bool" where
  "kinv s \<longleftrightarrow> (\<exists>K. kernel_inv K s) \<and> (\<forall>e. curenv s = Some e \<longrightarrow> e < NENV)"

lemma kernel_inv_cong:
  assumes "npages s = npages s'" "pages s = pages s'" "page_free_list s = page_free_list s'" "pmem s = pmem s'"
    "kern_pgdir s = kern_pgdir s'" "envs s = envs s'" "env_free_list s = env_free_list s'"
  shows "kernel_inv K s = kernel_inv K s'"
  using vm_inv_cong [OF assms(1-5)] env_inv_cong [OF assms(6,7) refl] by (simp add: kernel_inv_def)

lemma kernel_inv_upd_env:
  assumes inv: "kernel_inv K s"
    and f: "env_pgdir (f (envs s e)) = env_pgdir (envs s e)" "env_id (f (envs s e)) = env_id (envs s e)"
      "env_link (f (envs s e)) = env_link (envs s e)"
      "env_status (f (envs s e)) = ENV_FREE \<longleftrightarrow> env_status (envs s e) = ENV_FREE"
  shows "kernel_inv K (upd_env e f s)"
proof -
  note I = kernel_invD [OF inv]
  have sel: "env_pgdir (envs (upd_env e f s) q) = env_pgdir (envs s q)"
    "env_id (envs (upd_env e f s) q) = env_id (envs s q)" "env_link (envs (upd_env e f s) q) = env_link (envs s q)"
    "env_status (envs (upd_env e f s) q) = ENV_FREE \<longleftrightarrow> env_status (envs s q) = ENV_FREE" for q
    using f by simp_all
  have "vm_inv K (\<lambda>_. 0) (upd_env e f s)"
    using I(1) vm_inv_cong [of "upd_env e f s" s] by simp
  moreover have "env_inv K (upd_env e f s)"
    using I(2) unfolding env_inv_def env_chain_def env_slot_ok_def sel upd_env_fields .
  ultimately show ?thesis
    using I(3) by (simp add: kernel_inv_def)
qed

lemma kinv_cong:
  assumes "kinv s" "npages s' = npages s" "pages s' = pages s" "page_free_list s' = page_free_list s" "pmem s' = pmem s"
    "kern_pgdir s' = kern_pgdir s" "envs s' = envs s" "env_free_list s' = env_free_list s"
    "\<And>e. curenv s' = Some e \<Longrightarrow> curenv s = Some e \<or> e < NENV"
  shows "kinv s'"
  using assms(1,9) kernel_inv_cong [OF assms(2-8)] by (auto simp: kinv_def)

lemma kinv_upd_env:
  assumes "kinv s"
    and "env_pgdir (f (envs s e)) = env_pgdir (envs s e)" "env_id (f (envs s e)) = env_id (envs s e)"
      "env_link (f (envs s e)) = env_link (envs s e)"
      "env_status (f (envs s e)) = ENV_FREE \<longleftrightarrow> env_status (envs s e) = ENV_FREE"
  shows "kinv (upd_env e f s)"
  using assms(1) kernel_inv_upd_env [of _ s f e, OF _ assms(2-5)] unfolding kinv_def by (auto simp: curenv_def)

lemma kinv_cur: "kinv s \<Longrightarrow> curenv s = Some e \<Longrightarrow> e < NENV"
  by (simp add: kinv_def)

lemma kinv_lock: "kinv s \<Longrightarrow> kinv (s\<lparr>kernel_lock := l\<rparr>)"
  by (erule kinv_cong) (auto simp: curenv_def)

lemma kinv_upd_cpu:
  assumes "kinv s" "\<And>c e. cpu_env (f c) = Some e \<Longrightarrow> cpu_env c = Some e"
  shows "kinv (upd_cpu f s)"
proof (rule kinv_cong [OF assms(1)])
  fix e
  assume "curenv (upd_cpu f s) = Some e"
  then have "cpu_env (f (cpus s (cpunum s))) = Some e"
    by (simp add: curenv_def)
  from assms(2) [OF this] show "curenv s = Some e \<or> e < NENV"
    by (simp add: curenv_def)
qed simp_all

lemma kinv_lcr3: "kinv s \<Longrightarrow> kinv (lcr3 d s)"
  unfolding lcr3_def by (erule kinv_upd_cpu) simp

lemma unlock_keeps [keeps]: "kinv s \<Longrightarrow> keeps kinv (unlock_kernel s)"
  by (auto simp: unlock_kernel_def intro: kinv_lock)

lemma lock_keeps [keeps]: "kinv s \<Longrightarrow> keeps kinv (lock_kernel s)"
  by (auto simp: lock_kernel_def intro!: kinv_lock split: prod.split)

lemma env_pop_tf_keeps [keeps]: "kinv s \<Longrightarrow> keeps kinv (env_pop_tf s)"
  by (auto simp: env_pop_tf_def intro!: kinv_upd_env split: option.split)

lemma env_run_keeps:
  assumes "kinv s" "e < NENV" "env_status (envs s e) \<noteq> ENV_FREE"
  shows "keeps kinv (env_run e s)"
proof -
  define u where "u = (case curenv s of None \<Rightarrow> s | Some c \<Rightarrow> if env_status (envs s c) = ENV_RUNNING
    then upd_env c (\<lambda>v. v\<lparr>env_status := ENV_RUNNABLE\<rparr>) s else s)"
  define w where "w = upd_env e (\<lambda>v. v\<lparr>env_status := ENV_RUNNING, env_runs := env_runs v + 1\<rparr>)
    (upd_cpu (\<lambda>c. c\<lparr>cpu_env := Some e\<rparr>) u)"
  have u: "kinv u" "env_status (envs u e) \<noteq> ENV_FREE"
    using assms by (auto simp: u_def intro!: kinv_upd_env split: option.split)
  have "kinv (upd_cpu (\<lambda>c. c\<lparr>cpu_env := Some e\<rparr>) u)"
    using u(1) by (rule kinv_cong) (use assms(2) in \<open>simp_all add: curenv_def\<close>)
  then have w: "kinv w"
    unfolding w_def by (rule kinv_upd_env) (use u in simp_all)
  show ?thesis
    unfolding env_run_def Let_def u_def [symmetric] w_def [symmetric]
    by (intro keeps) (auto intro!: keeps kinv_lcr3 w simp: assms(1) PADDR_pgdir_def split: option.split)
qed

lemma sched_halt_keeps: "kinv s \<Longrightarrow> keeps kinv (sched_halt s)"
  unfolding sched_halt_def Let_def
  by (auto intro!: keeps kinv_upd_cpu kinv_lcr3 simp del: upt_rec_numeral NENV_def)

lemma env_ids_in: "i \<in> set [0..<NENV] \<longleftrightarrow> i < NENV"
  by (simp del: upt_rec_numeral)

lemma sched_find_runnable:
  assumes "sched_find n j s = Inr (Some k, s')"
  shows "k < NENV" "env_status (envs s k) = ENV_RUNNABLE" "s' = s"
  using assms by (induction n j s rule: sched_find.induct) (auto split: if_splits)

lemma sched_find_err: "sched_find n j s = Inl x \<Longrightarrow> x = Undefined ''read of envs[NENV]''"
  by (induction n j s rule: sched_find.induct) (auto split: if_splits)

lemma sched_find_state: "sched_find n j s = Inr (r, s') \<Longrightarrow> s' = s"
  by (induction n j s rule: sched_find.induct) (auto split: if_splits)

lemma sched_yield_keeps [keeps]:
  assumes "kinv s"
  shows "keeps kinv (sched_yield s)"
proof -
  have "keeps kinv (case r of Some j \<Rightarrow> env_run j s
       | None \<Rightarrow> (case curenv s of
              Some c \<Rightarrow> if env_status (envs s c) = ENV_RUNNING then env_run c s else sched_halt s
            | None \<Rightarrow> sched_halt s))"
    if "sched_find NENV j s = Inr (r, s)" for j r
    using that sched_find_runnable [of NENV j s _ s] assms kinv_cur [OF assms]
    by (auto intro!: keeps env_run_keeps sched_halt_keeps split: option.split)
  then show ?thesis
    unfolding sched_yield_def bindR_def
    by (auto split: sum.split dest: sched_find_state) (auto dest: sched_find_err)
qed

lemma env_free_keeps:
  assumes "kinv s" "e < NENV"
  shows "keeps kinv (env_free e s)"
proof (cases "env_pgdir (envs s e)")
  case None
  then show ?thesis by (simp add: env_free_def)
next
  case (Some pd)
  from assms(1) obtain K where K: "kernel_inv K s" by (auto simp: kinv_def)
  have "env_status (envs s e) \<noteq> ENV_FREE"
    using env_slotD [OF kernel_invD(2) [OF K] assms(2)] Some by (auto simp: env_slot_ok_def)
  with K assms(2) show ?thesis
    by (rule env_free_spec [OF _ _ _ Some]) (use kinv_cur [OF assms(1)] in \<open>auto simp: kinv_def curenv_def\<close>)
qed

lemma env_destroy_keeps:
  assumes "kinv s" "e < NENV"
  shows "keeps kinv (env_destroy e s)"
  unfolding env_destroy_def
  by (auto intro!: keeps env_free_keeps assms kinv_upd_env kinv_upd_cpu)

text \<open>\<open>user_mem_check\<close> changes at most the address it reports.\<close>

lemma user_mem_check_state:
  assumes "kernel_inv K s" "e < NENV" "user_mem_check e va n perm s = Inr (r, s')"
  obtains a where "s' = s\<lparr>user_mem_check_addr := a\<rparr>" "r = 0 \<and> s' = s \<or> r = - E_FAULT"
proof (cases "env_pgdir (envs s e)")
  case None
  with assms(3) have "r = 0 \<and> s' = s"
    by (simp add: user_mem_check_def Let_def split: if_splits)
  then show thesis by (intro that [of "user_mem_check_addr s"]) simp_all
next
  case (Some pd)
  have "K pd = KPD"
    using env_slotD [OF kernel_invD(2) [OF assms(1)] assms(2)] Some by (auto simp: env_slot_ok_def split: if_splits)
  from assms(3) Some user_mem_check_loop_eq [OF kernel_invD(1) [OF assms(1)] this] show thesis
    by (auto simp: user_mem_check_def Let_def split: option.splits
        intro: that that [of "user_mem_check_addr s"])
qed

lemma user_mem_check_err:
  assumes "kernel_inv K s" "e < NENV" "user_mem_check e va n perm s = Inl x"
  shows "x = Undefined ''null pgdir''"
proof (cases "env_pgdir (envs s e)")
  case None
  with assms(3) show ?thesis
    by (simp add: user_mem_check_def Let_def split: if_splits)
next
  case (Some pd)
  have "K pd = KPD"
    using env_slotD [OF kernel_invD(2) [OF assms(1)] assms(2)] Some by (auto simp: env_slot_ok_def split: if_splits)
  from assms(3) Some user_mem_check_loop_eq [OF kernel_invD(1) [OF assms(1)] this] show ?thesis
    by (simp add: user_mem_check_def Let_def split: option.splits)
qed

lemma user_mem_check_keeps:
  assumes "kinv s" "e < NENV"
  shows "keeps kinv (user_mem_check e va n perm s)"
proof (cases "user_mem_check e va n perm s")
  case (Inl x)
  with assms show ?thesis by (auto simp: kinv_def dest: user_mem_check_err)
next
  case (Inr y)
  obtain r s' where y: "y = (r, s')" by (cases y)
  from assms(1) obtain K where "kernel_inv K s" by (auto simp: kinv_def)
  then obtain a where "s' = s\<lparr>user_mem_check_addr := a\<rparr>"
    using assms(2) Inr unfolding y by (rule user_mem_check_state)
  then have "kinv s'"
    by (intro kinv_cong [OF assms(1)]) (simp_all add: curenv_def)
  with Inr y show ?thesis by simp
qed

lemma user_mem_assert_keeps:
  assumes "kinv s" "e < NENV"
  shows "keeps kinv (user_mem_assert e va n perm s)"
  unfolding user_mem_assert_def
  by (intro keeps user_mem_check_keeps assms) (auto intro!: keeps env_destroy_keeps assms(2))

section \<open>Round robin\<close>

text \<open>How many slots lie strictly between the current slot and \<open>e\<close>, in circular order.\<close>

definition ahead :: "nat \<Rightarrow> nat \<Rightarrow> nat" where
  "ahead c e = (e + (NENV - 1 - c)) mod NENV"

lemma ahead_inv:
  assumes "c < NENV" "e < NENV"
  shows "(c + 1 + ahead c e) mod NENV = e"
proof -
  have "c + 1 + (e + (NENV - 1 - c)) = e + NENV"
    using assms(1) by simp
  then have "(c + 1 + ahead c e) mod NENV = (e + NENV) mod NENV"
    unfolding ahead_def mod_add_right_eq by metis
  with assms(2) show ?thesis by simp
qed

lemma ahead_add:
  assumes "c < NENV" "k < NENV"
  shows "ahead c ((c + 1 + k) mod NENV) = k"
proof -
  have "c + 1 + k + (NENV - 1 - c) = k + NENV"
    using assms(1) by simp
  then have "ahead c ((c + 1 + k) mod NENV) = (k + NENV) mod NENV"
    unfolding ahead_def mod_add_left_eq by metis
  with assms(2) show ?thesis by simp
qed

lemma ahead_less [simp]: "ahead c e < NENV"
  by (simp add: ahead_def)

text \<open>The first runnable slot behind \<open>c\<close>.\<close>

definition next_runnable :: "nat \<Rightarrow> kstate \<Rightarrow> nat \<Rightarrow> bool" where
  "next_runnable c s e \<longleftrightarrow> e < NENV \<and> env_status (envs s e) = ENV_RUNNABLE \<and>
    (\<forall>q < NENV. env_status (envs s q) = ENV_RUNNABLE \<longrightarrow> ahead c e \<le> ahead c q)"

lemma find_upt:
  "find P [0..<n] = Some k \<Longrightarrow> k < n \<and> P k \<and> (\<forall>i<k. \<not> P i)" "find P [0..<n] = None \<Longrightarrow> i < n \<Longrightarrow> \<not> P i"
  by (auto simp: find_Some_iff find_None_iff)

lemma sched_find_next:
  assumes "c < NENV - 1"
  obtains (none) "sched_find NENV (c + 1) s = Inr (None, s)" "\<And>e. e < NENV \<Longrightarrow> env_status (envs s e) \<noteq> ENV_RUNNABLE"
  | (found) e where "sched_find NENV (c + 1) s = Inr (Some e, s)" "next_runnable c s e"
proof -
  let ?P = "\<lambda>k. env_status (envs s ((c + 1 + k) mod NENV)) = ENV_RUNNABLE"
  have c: "c + 1 < NENV" "c < NENV" using assms by auto
  note eq = sched_find_eq [OF c(1), of NENV s]
  have Q: "?P (ahead c e) \<longleftrightarrow> env_status (envs s e) = ENV_RUNNABLE" if "e < NENV" for e
    using ahead_inv [OF c(2) that] by simp
  show thesis
  proof (cases "find ?P [0..<NENV]")
    case None
    from none [OF _ notI] eq None find_upt(2) [OF None ahead_less] Q show thesis
      by (auto simp del: upt_rec_numeral NENV_def)
  next
    case (Some k)
    let ?e = "(c + 1 + k) mod NENV"
    from find_upt(1) [OF Some] have k: "k < NENV" "?P k" "\<And>i. i < k \<Longrightarrow> \<not> ?P i" by auto
    have "next_runnable c s ?e"
      unfolding next_runnable_def ahead_add [OF c(2) k(1)]
      using k Q by (intro conjI allI impI) (simp, simp, metis not_le)
    with eq Some show thesis
      by (intro found) auto
  qed
qed

lemma env_run_user:
  assumes "env_run e s = Inl (ToUser t)"
  shows "curenv t = Some e" "cpunum t = cpunum s"
  using assms
  by (auto simp: env_run_def PADDR_pgdir_def env_pop_tf_def unlock_kernel_def curenv_def lcr3_def Let_def bindR_eq_Inl
      split: if_splits option.splits)

lemma sched_halt_no_user: "sched_halt s \<noteq> Inl (ToUser t)"
  by (auto simp: sched_halt_def unlock_kernel_def Let_def simp del: upt_rec_numeral)

text \<open>What a return to user mode by \<open>sched_yield\<close> says about the choice.\<close>

lemma sched_yield_user:
  assumes "curenv s = Some c" "ENVX (env_id (envs s c)) = c" "c < NENV - 1" "sched_yield s = Inl (ToUser t)"
    and "q < NENV" "env_status (envs s q) = ENV_RUNNABLE"
  obtains e where "next_runnable c s e" "curenv t = Some e"
  using assms(3)
proof (cases rule: sched_find_next [where s = s])
  case none
  then show thesis using assms(5,6) by blast
next
  case (found e)
  with assms have "env_run e s = Inl (ToUser t)"
    by (simp add: sched_yield_def)
  then show thesis
    using found(2) env_run_user(1) by (intro that)
qed

lemma ahead_decreases:
  assumes "next_runnable c s e" "env_status (envs s q) = ENV_RUNNABLE" "c < NENV" "q < NENV" "e \<noteq> q"
  shows "ahead e q < ahead c q"
proof -
  have e: "e < NENV" "ahead c e \<le> ahead c q"
    using assms by (auto simp: next_runnable_def)
  have "(c + 1 + ahead c e) mod NENV = e" "(c + 1 + ahead c q) mod NENV = q"
    using ahead_inv assms(3,4) e(1) by auto
  with assms(5) have "ahead c e \<noteq> ahead c q" by auto
  then obtain k where k: "ahead c q = ahead c e + 1 + k"
    using e(2) less_imp_add_positive [of "ahead c e" "ahead c q"] by (metis add.assoc add.commute add_diff_inverse_nat less_one linorder_neqE_nat nat_less_le not_less)
  have "q = (e + 1 + k) mod NENV"
  proof -
    have "(e + 1 + k) mod NENV = ((c + 1 + ahead c e) mod NENV + (1 + k)) mod NENV"
      using \<open>(c + 1 + ahead c e) mod NENV = e\<close> by (simp add: add.assoc)
    also have "\<dots> = (c + 1 + ahead c q) mod NENV"
      unfolding mod_add_left_eq k by (simp add: ac_simps)
    finally show ?thesis using \<open>(c + 1 + ahead c q) mod NENV = q\<close> by simp
  qed
  moreover have "k < NENV"
    using k ahead_less [of c q] by linarith
  ultimately have "ahead e q = k"
    using ahead_add [OF e(1)] by simp
  with k show ?thesis by simp
qed

section \<open>Sample states\<close>

text \<open>The machine with one environment, running on processor 0; three environments, the first running.\<close>

definition one_run :: kstate where
  "one_run = (upd_cpu (\<lambda>c. c\<lparr>cpu_env := Some 0\<rparr>) (upd_env 0 (\<lambda>v. v\<lparr>env_status := ENV_RUNNING\<rparr>) one_env))
     \<lparr>kernel_lock := \<lparr>locked = 1, lock_cpu = Some (cpunum one_env)\<rparr>\<rparr>"

lemma one_run:
  "kernel_inv one_env_kinds one_run" "curenv one_run = Some 0" "ENVX (env_id (envs one_run 0)) = 0"
  "holding (kernel_lock one_run) (cpunum one_run)" "env_status (envs one_run 0) = ENV_RUNNING"
  "env_pgdir (envs one_run 0) = Some 2"
proof -
  have e: "env_status (envs one_env 0) = ENV_RUNNABLE" "env_pgdir (envs one_env 0) = Some 2"
    "env_id (envs one_env 0) = next_env_id 0 (env_id (envs boot_state 0))"
    using one_env_created(2) by (auto simp: env_created_def)
  have "kernel_inv one_env_kinds (upd_env 0 (\<lambda>v. v\<lparr>env_status := ENV_RUNNING\<rparr>) one_env)"
    by (rule kernel_inv_upd_env [OF one_env_created(3)]) (simp_all add: e)
  then show "kernel_inv one_env_kinds one_run"
    unfolding one_run_def by (subst kernel_inv_cong) simp_all
  show "ENVX (env_id (envs one_run 0)) = 0"
    by (simp add: one_run_def e(3) next_env_id)
  show "curenv one_run = Some 0" "holding (kernel_lock one_run) (cpunum one_run)"
    "env_status (envs one_run 0) = ENV_RUNNING" "env_pgdir (envs one_run 0) = Some 2"
    by (simp_all add: one_run_def curenv_def holding_def e)
qed

definition three_envs :: kstate where
  "three_envs = bss_state\<lparr>envs := (\<lambda>e. zero_env\<lparr>env_id := of_nat (4096 + e),
       env_status := (if e = 0 then ENV_RUNNING else if e < 3 then ENV_RUNNABLE else ENV_FREE),
       env_pgdir := (if e < 3 then Some (e + 2) else None)\<rparr>),
     cpus := (\<lambda>_. (cpus bss_state 0)\<lparr>cpu_env := Some 0\<rparr>), kernel_lock := \<lparr>locked = 1, lock_cpu = Some 0\<rparr>\<rparr>"

definition three_next :: kstate where
  "three_next = (case sched_yield three_envs of Inl (ToUser t) \<Rightarrow> t | _ \<Rightarrow> three_envs)"

lemma three_cur:
  "curenv three_envs = Some 0" "ENVX (env_id (envs three_envs 0)) = 0" "env_status (envs three_envs 2) = ENV_RUNNABLE"
  by (simp_all add: three_envs_def curenv_def ENVX_def)

lemma three_yield: "sched_yield three_envs = Inl (ToUser three_next)" "curenv three_next = Some 1"
proof -
  have f: "sched_find NENV 1 three_envs = Inr (Some 1, three_envs)"
    using sched_find.simps(2) [of 1023 1 three_envs] by (simp add: three_envs_def)
  have c: "curenv three_envs \<noteq> Some 1" "env_pgdir (envs three_envs 1) = Some 3"
    "holding (kernel_lock three_envs) (cpunum three_envs)"
    by (simp_all add: three_cur) (simp_all add: three_envs_def holding_def bss_state_def)
  obtain t where t: "env_run 1 three_envs = Inl (ToUser t)" "running 1 t"
    by (rule env_run_switch [OF c(1,2) _ c(3)]) simp_all
  then have "sched_yield three_envs = Inl (ToUser t)"
    using f three_cur by (simp add: sched_yield_def)
  with t(2) show "sched_yield three_envs = Inl (ToUser three_next)" "curenv three_next = Some 1"
    by (simp_all add: three_next_def running_def)
qed

section \<open>Properties\<close>

text \<open>C14. \<open>sched_yield\<close> is round robin: from a current slot other than the last one it switches to the first
  runnable environment behind it, with the kernel lock released, the status running and the
  environment's page directory loaded; if nothing is runnable it continues the current environment
  when that is still running, and otherwise goes to \<open>sched_halt\<close>.\<close>

theorem sched_yield_correct:
  assumes inv: "kernel_inv K s" and cur: "curenv s = Some c" "ENVX (env_id (envs s c)) = c" "c < NENV - 1"
    and lock: "holding (kernel_lock s) (cpunum s)"
  shows "(\<exists>e s'. next_runnable c s e \<and> sched_yield s = Inl (ToUser s') \<and> running e s' \<and>
      (e \<noteq> c \<longrightarrow> env_status (envs s' e) = ENV_RUNNING \<and> Some (cr3 (cpus s' (cpunum s))) = env_pgdir (envs s e))) \<or>
    (\<forall>e<NENV. env_status (envs s e) \<noteq> ENV_RUNNABLE) \<and>
      (if env_status (envs s c) = ENV_RUNNING then \<exists>s'. sched_yield s = Inl (ToUser s') \<and> running c s'
       else sched_yield s = sched_halt s)"
  using cur(3)
proof (cases rule: sched_find_next [where s = s])
  case none
  have "running c (upd_env c (\<lambda>v. v\<lparr>env_cpunum := cpunum s\<rparr>) (s\<lparr>kernel_lock := \<lparr>locked = 0, lock_cpu = None\<rparr>\<rparr>))"
    using cur by (simp add: running_def curenv_def)
  with none cur env_run_again [OF cur(1) lock] show ?thesis
    by (auto simp: sched_yield_def)
next
  case (found e)
  have y: "sched_yield s = env_run e s"
    using found cur by (simp add: sched_yield_def)
  have e: "e < NENV" "env_status (envs s e) \<noteq> ENV_FREE"
    using found(2) by (auto simp: next_runnable_def)
  show ?thesis
  proof (cases "e = c")
    case True
    have "running c (upd_env c (\<lambda>v. v\<lparr>env_cpunum := cpunum s\<rparr>) (s\<lparr>kernel_lock := \<lparr>locked = 0, lock_cpu = None\<rparr>\<rparr>))"
      using cur by (simp add: running_def curenv_def)
    then show ?thesis
      using True y found(2) env_run_again [OF cur(1) lock] by auto
  next
    case False
    from kernel_invD(2) [OF inv] e obtain pd where pd: "env_pgdir (envs s e) = Some pd" "K pd = KPD"
      by (rule env_live)
    then have "pd < 1048576"
      using vm_inv_bound [OF kernel_invD(1) [OF inv], of pd] by simp
    with False cur(1) pd(1) lock obtain s' where "env_run e s = Inl (ToUser s')" "running e s'"
      "env_status (envs s' e) = ENV_RUNNING" "cr3 (cpus s' (cpunum s)) = pd"
      by (metis env_run_switch option.inject)
    with y found(2) pd(1) show ?thesis by auto
  qed
qed

theorem sched_yield_correct_witness:
  "kernel_inv one_env_kinds one_run \<and> curenv one_run = Some 0 \<and>
   ((\<exists>e s'. next_runnable 0 one_run e \<and> sched_yield one_run = Inl (ToUser s') \<and> running e s' \<and>
      (e \<noteq> 0 \<longrightarrow> env_status (envs s' e) = ENV_RUNNING \<and> Some (cr3 (cpus s' (cpunum one_run))) = env_pgdir (envs one_run e))) \<or>
    (\<forall>e<NENV. env_status (envs one_run e) \<noteq> ENV_RUNNABLE) \<and>
      (if env_status (envs one_run 0) = ENV_RUNNING then \<exists>s'. sched_yield one_run = Inl (ToUser s') \<and> running 0 s'
       else sched_yield one_run = sched_halt one_run))"
  using one_run sched_yield_correct [of one_env_kinds one_run 0] by simp

text \<open>C15. Slot 1023 breaks the round robin: when the current environment is the last one of the table, the
  search of \<open>sched_yield\<close> starts behind the end of \<open>envs\<close>.\<close>

theorem sched_yield_last_slot:
  assumes "curenv s = Some c" "ENVX (env_id (envs s c)) = NENV - 1"
  shows "sched_yield s = Inl (Undefined ''read of envs[NENV]'')"
proof -
  have "sched_find NENV NENV s = Inl (Undefined ''read of envs[NENV]'')"
    using sched_find.simps(2) [of 1023 NENV s] by simp
  with assms show ?thesis by (simp add: sched_yield_def)
qed

theorem sched_yield_last_slot_witness:
  "sched_yield (bss_state\<lparr>envs := (\<lambda>_. zero_env\<lparr>env_id := 0x17FF\<rparr>),
     cpus := (\<lambda>_. (cpus bss_state 0)\<lparr>cpu_env := Some 1023\<rparr>)\<rparr>) = Inl (Undefined ''read of envs[NENV]'')"
  by (rule sched_yield_last_slot [of _ 1023]) (simp_all add: curenv_def ENVX_def)

text \<open>C16. No environment starves: while \<open>q\<close> stays runnable, a processor whose yields always return to user
  mode picks others at most as often as there are slots between its current slot and \<open>q\<close>, so fewer
  than 1024 times in a row.\<close>

theorem sched_yield_fair:
  assumes "\<forall>i<n. curenv (s i) = Some (c i) \<and> ENVX (env_id (envs (s i) (c i))) = c i \<and> c i < NENV - 1 \<and>
      sched_yield (s i) = Inl (ToUser (t i)) \<and> curenv (t i) = Some (c (Suc i)) \<and>
      env_status (envs (s i) q) = ENV_RUNNABLE \<and> c (Suc i) \<noteq> q"
    and "q < NENV"
  shows "n \<le> ahead (c 0) q \<and> ahead (c 0) q < NENV"
proof -
  have "ahead (c i) q + i \<le> ahead (c 0) q" if "i \<le> n" for i
    using that
  proof (induction i)
    case (Suc i)
    then have i: "i < n" by simp
    note a = assms(1) [rule_format, OF i]
    from a obtain e where e: "next_runnable (c i) (s i) e" "curenv (t i) = Some e"
      using sched_yield_user [of "s i" "c i" "t i" q] assms(2) by blast
    then have "ahead (c (Suc i)) q < ahead (c i) q"
      using a assms(2) by (intro ahead_decreases [of _ "s i"]) auto
    with Suc show ?case by simp
  qed simp
  from this [of n] show ?thesis
    using ahead_less [of "c 0" q] by simp
qed

theorem sched_yield_fair_witness:
  "sched_yield three_envs = Inl (ToUser three_next) \<and> env_status (envs three_envs 2) = ENV_RUNNABLE \<and>
   curenv three_next = Some 1 \<and> 1 \<le> ahead 0 2 \<and> ahead 0 2 < NENV"
proof -
  have y: "sched_yield three_envs = Inl (ToUser three_next)"
    by (rule three_yield)
  have "1 \<le> ahead ((\<lambda>i. i) 0) 2 \<and> ahead ((\<lambda>i. i) 0) 2 < NENV"
    by (rule sched_yield_fair [of 1 "\<lambda>_. three_envs" "\<lambda>i. i" "\<lambda>_. three_next"])
      (auto simp: y three_cur three_yield)
  with y show ?thesis by (simp add: three_cur three_yield)
qed

end
