(* ===== verification/Printf.thy ===== *)
theory Printf
  imports Kstate
begin

text \<open>
  The formatted output of lib/printfmt.c, shared by the kernel and the user library. The code is
  parametric in the output function \<open>putch\<close> and its argument; so is the model, which takes \<open>putch\<close> as
  an operation on a state and the read of a byte at an address, \<open>rd\<close>, as another. A format string is the list of the
  characters before its null byte. The locale \<open>printer\<close> states what is asked of \<open>putch\<close> and \<open>rd\<close> and proves that
  formatted output keeps every invariant they keep.
\<close>

unbundle bit_operations_syntax

section \<open>Arguments\<close>

text \<open>
  The values of a \<open>va_list\<close> on a 32-bit machine: a word, a double word, a pointer to memory that is
  read when the string is printed, and a pointer to a constant string.
\<close>

datatype va = VInt u32 | VLong u64 | VPtr u32 | VStr string

type_synonym 'st putch = "u32 \<Rightarrow> 'st \<Rightarrow> ('st, unit) res"
type_synonym 'st rd = "u32 \<Rightarrow> 'st \<Rightarrow> ('st, u8) res"

fun va_int :: "va list \<Rightarrow> 'st \<Rightarrow> ('st, u32 \<times> va list) res" where
  "va_int (VInt w # ap) s = Inr ((w, ap), s)"
| "va_int (VPtr w # ap) s = Inr ((w, ap), s)"
| "va_int _ s = Inl (Undefined ''va_arg'')"

fun va_long :: "va list \<Rightarrow> 'st \<Rightarrow> ('st, u64 \<times> va list) res" where
  "va_long (VLong w # ap) s = Inr ((w, ap), s)"
| "va_long _ s = Inl (Undefined ''va_arg'')"

fun va_str :: "va list \<Rightarrow> 'st \<Rightarrow> ('st, va \<times> va list) res" where
  "va_str (VPtr p # ap) s = Inr ((VPtr p, ap), s)"
| "va_str (VStr t # ap) s = Inr ((VStr t, ap), s)"
| "va_str _ s = Inl (Undefined ''va_arg'')"

definition getuint :: "va list \<Rightarrow> nat \<Rightarrow> 'st \<Rightarrow> ('st, u64 \<times> va list) res" where
  "getuint ap lflag s =
    (if lflag \<ge> 2 then va_long ap s
     else bindR (va_int ap s) (\<lambda>((w, ap), s). Inr ((ucast w, ap), s)))"

definition getint :: "va list \<Rightarrow> nat \<Rightarrow> 'st \<Rightarrow> ('st, u64 \<times> va list) res" where
  "getint ap lflag s =
    (if lflag \<ge> 2 then va_long ap s
     else bindR (va_int ap s) (\<lambda>((w, ap), s). Inr ((scast w, ap), s)))"

section \<open>Numbers\<close>

definition MAXERROR :: int where [simp]: "MAXERROR = 16"

text \<open>\<open>error_string[1..15]\<close>; \<open>error_string[0]\<close> is null.\<close>

definition error_string :: "string list" where
  "error_string =
    [''unspecified error'', ''bad environment'', ''invalid parameter'', ''out of memory'',
     ''out of environments'', ''segmentation fault'', ''env is not recving'', ''unexpected end of file'',
     ''no free space on disk'', ''too many files are open'', ''file or block not found'', ''invalid path'',
     ''file already exists'', ''file is not a valid executable'', ''operation not supported'']"

definition digit_char :: "nat \<Rightarrow> char" where
  "digit_char d = ''0123456789abcdef'' ! d"

abbreviation chr :: "char \<Rightarrow> u32" where
  "chr c \<equiv> of_char c"

function printnum :: "'st putch \<Rightarrow> u64 \<Rightarrow> nat \<Rightarrow> int \<Rightarrow> char \<Rightarrow> 'st \<Rightarrow> ('st, unit) res" where
  "printnum putch num base width padc s =
    (if base < 2 \<or> base > 16 then Inl (Undefined ''printnum'')
     else bindR
       (if unat num \<ge> base then printnum putch (num div of_nat base) base (width - 1) padc s
        else forR putch (replicate (nat (width - 1)) (chr padc)) s)
       (\<lambda>(_, s). putch (chr (digit_char (unat num mod base))) s))"
  by pat_completeness auto
termination
proof (relation "measure (\<lambda>(p, num, base, w, c, s). unat num)", goal_cases)
  case (2 p num base w c s)
  then have "unat (of_nat base :: u64) = base"
    by (simp add: unat_of_nat)
  with 2 show ?case
    by (simp add: unat_div_distrib)
qed simp

declare printnum.simps [simp del]

section \<open>Conversion specifications\<close>

record spec =
  padc :: char
  width :: int
  precision :: int
  lflag :: nat
  altflag :: bool

definition spec0 :: spec where
  "spec0 = \<lparr>padc = CHR '' '', width = -1, precision = -1, lflag = 0, altflag = False\<rparr>"

definition is_digit :: "char \<Rightarrow> bool" where
  "is_digit c \<longleftrightarrow> 48 \<le> (of_char c :: nat) \<and> (of_char c :: nat) \<le> 57"

definition digits_val :: "string \<Rightarrow> int" where
  "digits_val ds = foldl (\<lambda>v c. v * 10 + (of_char c - 48)) 0 ds"

definition process_precision :: "int \<Rightarrow> spec \<Rightarrow> spec" where
  "process_precision p sp =
    (if width sp < 0 then sp\<lparr>width := p, precision := -1\<rparr> else sp\<lparr>precision := p\<rparr>)"

text \<open>The flag characters; \<open>0\<close> is a flag, so that a number starts with one of \<open>1\<close> to \<open>9\<close>.\<close>

definition set_flag :: "char \<Rightarrow> spec \<Rightarrow> spec option" where
  "set_flag c sp =
    (if c = CHR ''-'' then Some (sp\<lparr>padc := CHR ''-''\<rparr>)
     else if c = CHR ''0'' then Some (sp\<lparr>padc := CHR ''0''\<rparr>)
     else if c = CHR ''.'' then Some (if width sp < 0 then sp\<lparr>width := 0\<rparr> else sp)
     else if c = CHR ''#'' then Some (sp\<lparr>altflag := True\<rparr>)
     else if c = CHR ''l'' then Some (sp\<lparr>lflag := lflag sp + 1\<rparr>)
     else None)"

text \<open>
  The \<open>reswitch\<close> loop: flags, width and precision up to the conversion character, which is None at
  the end of the format.
\<close>

function reswitch :: "string \<Rightarrow> spec \<Rightarrow> va list \<Rightarrow> 'st \<Rightarrow> ('st, spec \<times> char option \<times> string \<times> va list) res" where
  "reswitch [] sp ap s = Inr ((sp, None, [], ap), s)"
| "reswitch (c # cs) sp ap s =
    (case set_flag c sp of
       Some sp \<Rightarrow> reswitch cs sp ap s
     | None \<Rightarrow>
         if is_digit c then
           let v = digits_val (takeWhile is_digit (c # cs))
           in if v > 2147483647 then Inl (Undefined ''signed overflow'')
              else reswitch (dropWhile is_digit cs) (process_precision v sp) ap s
         else if c = CHR ''*'' then
           (case va_int ap s of
              Inl e \<Rightarrow> Inl e
            | Inr ((w, ap), s) \<Rightarrow> reswitch cs (process_precision (sint w) sp) ap s)
         else Inr ((sp, Some c, cs, ap), s))"
  by pat_completeness auto
termination
  by (relation "measure (\<lambda>(cs, sp, ap, s). length cs)")
    (auto intro: le_imp_less_Suc length_dropWhile_le)

declare reswitch.simps [simp del]

section \<open>Strings\<close>

text \<open>Byte \<open>i\<close> of a string argument.\<close>

fun str_at :: "'st rd \<Rightarrow> va \<Rightarrow> nat \<Rightarrow> 'st \<Rightarrow> ('st, u8) res" where
  "str_at rd (VPtr p) i s = rd (p + of_nat i) s"
| "str_at rd (VStr t) i s =
    (if i < length t then Inr (of_char (t ! i), s)
     else if i = length t then Inr (0, s) else Inl (Undefined ''read past a string''))"
| "str_at rd _ i s = Inl (Undefined ''va_arg'')"

fun strnlen_at :: "'st rd \<Rightarrow> va \<Rightarrow> nat \<Rightarrow> nat \<Rightarrow> 'st \<Rightarrow> ('st, nat) res" where
  "strnlen_at rd p 0 i s = Inr (i, s)"
| "strnlen_at rd p (Suc n) i s =
    bindR (str_at rd p i s) (\<lambda>(b, s). if b = 0 then Inr (i, s) else strnlen_at rd p n (Suc i) s)"

text \<open>
  The loop of \<open>%s\<close>, which yields the remaining width. A string has fewer than \<open>2 ^ 32\<close> bytes: after
  that many rounds the pointer has left the address space.
\<close>

fun print_chars :: "'st putch \<Rightarrow> 'st rd \<Rightarrow> va \<Rightarrow> bool \<Rightarrow> nat \<Rightarrow> nat \<Rightarrow> int \<Rightarrow> int \<Rightarrow> 'st \<Rightarrow> ('st, int) res" where
  "print_chars putch rd p alt 0 i prec w s = Inl (Undefined ''string leaves the address space'')"
| "print_chars putch rd p alt (Suc n) i prec w s =
    bindR (str_at rd p i s) (\<lambda>(b, s).
      if b \<noteq> 0 \<and> (prec < 0 \<or> prec - 1 \<ge> 0) then
        bindR (putch (if alt \<and> (sint b < 32 \<or> sint b > 126) then chr (CHR ''?'') else scast b) s) (\<lambda>(_, s).
          print_chars putch rd p alt n (Suc i) (if prec < 0 then prec else prec - 1) (w - 1) s)
      else Inr (w, s))"

definition print_str :: "'st putch \<Rightarrow> 'st rd \<Rightarrow> spec \<Rightarrow> va \<Rightarrow> 'st \<Rightarrow> ('st, unit) res" where
  "print_str putch rd sp p s =
    bindR
      (if width sp > 0 \<and> padc sp \<noteq> CHR ''-'' then
         bindR (strnlen_at rd p (nat (precision sp mod 2 ^ 32)) 0 s) (\<lambda>(n, s).
           let w = width sp - int n
           in bindR (forR putch (replicate (nat w) (chr (padc sp))) s) (\<lambda>(_, s). Inr (min w 0, s)))
       else Inr (width sp, s))
      (\<lambda>(w, s).
        bindR (print_chars putch rd p (altflag sp) (2 ^ 32) 0 (precision sp) w s) (\<lambda>(w, s).
          forR putch (replicate (nat w) (chr (CHR '' ''))) s))"

definition print_signed :: "'st putch \<Rightarrow> u64 \<Rightarrow> spec \<Rightarrow> 'st \<Rightarrow> ('st, unit) res" where
  "print_signed putch num sp s =
    (if sint num < 0 then
       bindR (putch (chr (CHR ''-'')) s) (\<lambda>(_, s). printnum putch (- num) 10 (width sp) (padc sp) s)
     else printnum putch num 10 (width sp) (padc sp) s)"

text \<open>\<open>%e\<close>: the calls of \<open>printfmt\<close> with the formats \<open>error %d\<close> and \<open>%s\<close> are written out.\<close>

definition print_error :: "'st putch \<Rightarrow> 'st rd \<Rightarrow> u32 \<Rightarrow> 'st \<Rightarrow> ('st, unit) res" where
  "print_error putch rd w s =
    (if sint w = - (2 ^ 31) then Inl (Undefined ''signed overflow'')
     else let err = \<bar>sint w\<bar>
       in if err \<ge> MAXERROR \<or> err = 0
          then bindR (forR putch (map chr ''error '') s) (\<lambda>(_, s). print_signed putch (word_of_int err) spec0 s)
          else print_str putch rd spec0 (VStr (error_string ! (nat err - 1))) s)"

section \<open>The formatter\<close>

text \<open>One conversion. None: the character is not a conversion.\<close>

definition convert :: "'st putch \<Rightarrow> 'st rd \<Rightarrow> char \<Rightarrow> spec \<Rightarrow> va list \<Rightarrow> 'st \<Rightarrow> ('st, va list) res option" where
  "convert putch rd c sp ap s =
    (if c = CHR ''c'' then
       Some (bindR (va_int ap s) (\<lambda>((w, ap), s). bindR (putch w s) (\<lambda>(_, s). Inr (ap, s))))
     else if c = CHR ''e'' then
       Some (bindR (va_int ap s) (\<lambda>((w, ap), s). bindR (print_error putch rd w s) (\<lambda>(_, s). Inr (ap, s))))
     else if c = CHR ''s'' then
       Some (bindR (va_str ap s) (\<lambda>((p, ap), s).
         bindR (print_str putch rd sp (if p = VPtr 0 then VStr ''(null)'' else p) s) (\<lambda>(_, s). Inr (ap, s))))
     else if c = CHR ''d'' then
       Some (bindR (getint ap (lflag sp) s) (\<lambda>((num, ap), s).
         bindR (print_signed putch num sp s) (\<lambda>(_, s). Inr (ap, s))))
     else if c = CHR ''u'' then
       Some (bindR (getuint ap (lflag sp) s) (\<lambda>((num, ap), s).
         bindR (printnum putch num 10 (width sp) (padc sp) s) (\<lambda>(_, s). Inr (ap, s))))
     else if c = CHR ''o'' then
       Some (bindR (forR putch (map chr ''XXX'') s) (\<lambda>(_, s). Inr (ap, s)))
     else if c = CHR ''p'' then
       Some (bindR (forR putch (map chr ''0x'') s) (\<lambda>(_, s).
         bindR (va_int ap s) (\<lambda>((w, ap), s).
           bindR (printnum putch (ucast w) 16 (width sp) (padc sp) s) (\<lambda>(_, s). Inr (ap, s)))))
     else if c = CHR ''x'' then
       Some (bindR (getuint ap (lflag sp) s) (\<lambda>((num, ap), s).
         bindR (printnum putch num 16 (width sp) (padc sp) s) (\<lambda>(_, s). Inr (ap, s))))
     else if c = CHR ''%'' then Some (bindR (putch (chr c) s) (\<lambda>(_, s). Inr (ap, s)))
     else None)"

text \<open>
  An unrecognised sequence is printed literally: a percent sign, and then the format again from behind
  it. The bound \<open>n\<close> on the number of rounds is the length of the format, which every round shortens.
\<close>

fun vprintfmt_loop :: "nat \<Rightarrow> 'st putch \<Rightarrow> 'st rd \<Rightarrow> string \<Rightarrow> va list \<Rightarrow> 'st \<Rightarrow> ('st, unit) res" where
  "vprintfmt_loop n putch rd [] ap s = Inr ((), s)"
| "vprintfmt_loop 0 putch rd (c # cs) ap s = Inl (Undefined ''fuel'')"
| "vprintfmt_loop (Suc n) putch rd (c # cs) ap s =
    (if c \<noteq> CHR ''%'' then bindR (putch (chr c) s) (\<lambda>(_, s). vprintfmt_loop n putch rd cs ap s)
     else bindR (reswitch cs spec0 ap s) (\<lambda>((sp, conv, rest, ap), s).
       case conv of
         None \<Rightarrow> bindR (putch (chr (CHR ''%'')) s) (\<lambda>(_, s). vprintfmt_loop n putch rd cs ap s)
       | Some k \<Rightarrow>
           (case convert putch rd k sp ap s of
              None \<Rightarrow> bindR (putch (chr (CHR ''%'')) s) (\<lambda>(_, s). vprintfmt_loop n putch rd cs ap s)
            | Some r \<Rightarrow> bindR r (\<lambda>(ap, s). vprintfmt_loop n putch rd rest ap s))))"

definition vprintfmt :: "'st putch \<Rightarrow> 'st rd \<Rightarrow> string \<Rightarrow> va list \<Rightarrow> 'st \<Rightarrow> ('st, unit) res" where
  "vprintfmt putch rd fmt ap s = vprintfmt_loop (length fmt) putch rd fmt ap s"

section \<open>Printing into a buffer (\<open>vsnprintf\<close>)\<close>

record sprintbuf =
  smem :: "u32 \<Rightarrow> u8"
  sbuf :: u32
  ebuf :: u32
  scnt :: int

definition sprintputch :: "sprintbuf putch" where
  "sprintputch ch b =
    (let b = b\<lparr>scnt := scnt b + 1\<rparr>
     in Inr ((), if sbuf b < ebuf b then b\<lparr>smem := (smem b)(sbuf b := ucast ch), sbuf := sbuf b + 1\<rparr> else b))"

definition vsnprintf :: "u32 \<Rightarrow> int \<Rightarrow> string \<Rightarrow> va list \<Rightarrow> (u32 \<Rightarrow> u8) \<Rightarrow> (u32 \<Rightarrow> u8, int) res" where
  "vsnprintf buf n fmt ap m =
    (if buf = 0 \<or> n < 1 then Inr (- E_INVAL, m)
     else case vprintfmt sprintputch (\<lambda>a b. Inr (smem b a, b)) fmt ap
                 \<lparr>smem = m, sbuf = buf, ebuf = buf + word_of_int n - 1, scnt = 0\<rparr> of
            Inl e \<Rightarrow> Inl (map_exit smem e)
          | Inr (_, b) \<Rightarrow> Inr (scnt b, (smem b)(sbuf b := 0)))"

section \<open>Printing of user programs (lib/printf.c)\<close>

text \<open>The buffer of \<open>cprintf\<close>, and the arguments of the calls of \<open>sys_cputs\<close> so far.\<close>

record printbuf =
  pbuf :: "u8 list"
  pcnt :: nat
  cputs :: "u8 list list"

definition putch_user :: "printbuf putch" where
  "putch_user ch b =
    (let b = b\<lparr>pbuf := pbuf b @ [ucast ch]\<rparr>;
         b = (if length (pbuf b) = 256 - 1 then b\<lparr>cputs := cputs b @ [pbuf b], pbuf := []\<rparr> else b)
     in Inr ((), b\<lparr>pcnt := pcnt b + 1\<rparr>))"

definition vcprintf_user :: "(u32 \<Rightarrow> u8) \<Rightarrow> string \<Rightarrow> va list \<Rightarrow> (printbuf, nat) res" where
  "vcprintf_user m fmt ap =
    bindR (vprintfmt putch_user (\<lambda>a b. Inr (m a, b)) fmt ap \<lparr>pbuf = [], pcnt = 0, cputs = []\<rparr>) (\<lambda>(_, b).
      Inr (pcnt b, b\<lparr>cputs := cputs b @ [pbuf b]\<rparr>))"

section \<open>The fuel is enough\<close>

lemma va_int_state: "va_int ap s = Inr ((w, ap'), s') \<Longrightarrow> s' = s"
  by (erule va_int.elims) auto

lemma reswitch_length:
  "reswitch cs sp ap s = Inr ((sp', k, rest, ap'), s') \<Longrightarrow> length rest \<le> length cs \<and> s' = s"
proof (induction cs sp ap s rule: reswitch.induct)
  case (2 c cs sp ap s)
  show ?case
  proof (cases "set_flag c sp")
    case None
    have "length (dropWhile is_digit cs) \<le> length cs"
      by (rule length_dropWhile_le)
    with None 2(1,2,4) show ?thesis
      by (fastforce simp: reswitch.simps(2) [of c] Let_def split: if_splits sum.splits prod.splits
          dest: va_int_state)
  qed (use 2 in \<open>simp add: reswitch.simps(2) [of c]\<close>)
qed (simp add: reswitch.simps)

lemma bindR_cong_Inr: "(\<And>x s'. m = Inr (x, s') \<Longrightarrow> f (x, s') = g (x, s')) \<Longrightarrow> bindR m f = bindR m g"
  by (auto simp: bindR_def split: sum.split)

lemma vprintfmt_fuel:
  "length fmt \<le> n \<Longrightarrow> length fmt \<le> m \<Longrightarrow> vprintfmt_loop n putch rd fmt ap s = vprintfmt_loop m putch rd fmt ap s"
proof (induction n arbitrary: m fmt ap s)
  case (Suc n)
  show ?case
  proof (cases fmt)
    case (Cons c cs)
    with Suc.prems obtain m' where m: "m = Suc m'" "length cs \<le> m'" "length cs \<le> n"
      by (cases m) auto
    have a: "bindR r (\<lambda>(_, s). vprintfmt_loop n putch rd cs ap s) = bindR r (\<lambda>(_, s). vprintfmt_loop m' putch rd cs ap s)"
      for r and ap
      using Suc.IH [OF m(3,2)] by simp
    have b: "bindR r (\<lambda>(ap, s). vprintfmt_loop n putch rd rest ap s) =
        bindR r (\<lambda>(ap, s). vprintfmt_loop m' putch rd rest ap s)" if "length rest \<le> length cs" for r rest
      using Suc.IH [of rest m'] that m by simp
    show ?thesis
      unfolding Cons m(1) vprintfmt_loop.simps
      by (intro if_cong refl a bindR_cong_Inr)
        (auto simp: a b dest!: reswitch_length split: option.split)
  qed simp
qed simp

text \<open>The equations of \<open>vprintfmt\<close> without fuel.\<close>

lemma vprintfmt_Nil [simp]: "vprintfmt putch rd [] ap s = Inr ((), s)"
  by (simp add: vprintfmt_def)

lemma vprintfmt_Cons:
  "vprintfmt putch rd (c # cs) ap s =
    (if c \<noteq> CHR ''%'' then bindR (putch (chr c) s) (\<lambda>(_, s). vprintfmt putch rd cs ap s)
     else bindR (reswitch cs spec0 ap s) (\<lambda>((sp, conv, rest, ap), s).
       case conv of
         None \<Rightarrow> bindR (putch (chr (CHR ''%'')) s) (\<lambda>(_, s). vprintfmt putch rd cs ap s)
       | Some k \<Rightarrow>
           (case convert putch rd k sp ap s of
              None \<Rightarrow> bindR (putch (chr (CHR ''%'')) s) (\<lambda>(_, s). vprintfmt putch rd cs ap s)
            | Some r \<Rightarrow> bindR r (\<lambda>(ap, s). vprintfmt putch rd rest ap s))))"
  unfolding vprintfmt_def list.size(4) add_0_right add_Suc_right vprintfmt_loop.simps
  by (intro if_cong refl bindR_cong_Inr)
    (auto dest!: reswitch_length simp: vprintfmt_fuel [of rest "length cs" "length rest" for rest]
      split: option.split intro!: bindR_cong_Inr)

section \<open>Digits\<close>

text \<open>The digits of a number, the most significant first.\<close>

fun digits :: "nat \<Rightarrow> nat \<Rightarrow> nat list" where
  "digits b n = (if b < 2 \<or> n < b then [n] else digits b (n div b) @ [n mod b])"

declare digits.simps [simp del]

lemma digits_value:
  "2 \<le> b \<Longrightarrow> foldl (\<lambda>v d. v * b + d) 0 (digits b n) = n"
proof (induction b n rule: digits.induct)
  case (1 b n)
  then show ?case by (subst digits.simps) auto
qed

lemma digits_less: "2 \<le> b \<Longrightarrow> d \<in> set (digits b n) \<Longrightarrow> d < b"
proof (induction b n rule: digits.induct)
  case (1 b n)
  from "1.prems"(2) consider "n < b" "d = n" | "\<not> n < b" "d \<in> set (digits b (n div b))" | "d = n mod b"
    using "1.prems"(1) by (subst (asm) digits.simps) (auto split: if_splits)
  then show ?case
    using 1 by cases auto
qed

lemma forR_snoc: "forR f (xs @ [x]) s = bindR (forR f xs s) (\<lambda>(_, s). f x s)"
proof -
  have "forR f [x] = f x"
    by (rule ext) (auto simp: bindR_def split: sum.split)
  then show ?thesis by (simp add: forR_append)
qed

lemma printnum_eq:
  assumes "2 \<le> base" "base \<le> 16"
  shows "printnum putch num base w c s =
    (let ds = map digit_char (digits base (unat num))
     in forR putch (map chr (replicate (nat (w - int (length ds))) c @ ds)) s)"
proof (induction "unat num" arbitrary: num w s rule: less_induct)
  case less
  have b: "unat (of_nat base :: u64) = base"
    using assms by (simp add: unat_of_nat)
  then have d: "unat (num div of_nat base) = unat num div base"
    by (simp add: unat_div_distrib)
  show ?case
  proof (cases "unat num < base")
    case True
    with assms show ?thesis
      by (subst printnum.simps, subst digits.simps) (auto simp: Let_def forR_snoc map_replicate)
  next
    case False
    with assms have "unat (num div of_nat base) < unat num"
      unfolding d by simp
    note IH = less [OF this, of "w - 1" s]
    from False assms show ?thesis
      by (subst printnum.simps, subst digits.simps)
        (simp add: IH d Let_def forR_snoc algebra_simps flip: append_assoc)
  qed
qed

section \<open>Simulation\<close>

text \<open>
  \<open>simR R r r'\<close>: if the first computation returns, the second returns the same value in a state
  related by \<open>R\<close>.
\<close>

definition simR :: "('s \<Rightarrow> 't \<Rightarrow> bool) \<Rightarrow> ('s, 'a) res \<Rightarrow> ('t, 'a) res \<Rightarrow> bool" where
  "simR R r r' \<longleftrightarrow> (\<forall>x s. r = Inr (x, s) \<longrightarrow> (\<exists>t. r' = Inr (x, t) \<and> R s t))"

lemma simR_Inr [simp]: "simR R (Inr (x, s)) r' \<longleftrightarrow> (\<exists>t. r' = Inr (x, t) \<and> R s t)"
  by (simp add: simR_def)

lemma simR_Inl [simp]: "simR R (Inl e) r'"
  by (simp add: simR_def)

lemma simR_bind:
  assumes "simR R m m'" "\<And>x s t. R s t \<Longrightarrow> simR R (f (x, s)) (g (x, t))"
  shows "simR R (bindR m f) (bindR m' g)"
  using assms by (cases m) (auto simp: simR_def)

lemma simR_if: "(b \<Longrightarrow> simR R m m') \<Longrightarrow> (\<not> b \<Longrightarrow> simR R n n') \<Longrightarrow> simR R (if b then m else n) (if b then m' else n')"
  by simp

text \<open>
  Two output devices, related by a simulation: what the formatter prints on the one it prints on
  the other.
\<close>

locale printer_sim =
  fixes putch :: "'s putch" and rd :: "'s rd" and putch' :: "'t putch" and rd' :: "'t rd"
    and R :: "'s \<Rightarrow> 't \<Rightarrow> bool"
  assumes putch_sim: "R s t \<Longrightarrow> simR R (putch c s) (putch' c t)"
    and rd_sim: "R s t \<Longrightarrow> simR R (rd a s) (rd' a t)"
begin

lemma forR_sim: "R s t \<Longrightarrow> simR R (forR putch cs s) (forR putch' cs t)"
proof (induction cs arbitrary: s t)
  case (Cons c cs)
  then show ?case
    by (auto intro!: simR_bind putch_sim)
qed simp

lemma printnum_sim: "R s t \<Longrightarrow> simR R (printnum putch num base w c s) (printnum putch' num base w c t)"
proof (cases "base < 2 \<or> base > 16")
  case True
  then show ?thesis by (subst printnum.simps) simp
next
  case False
  then show "R s t \<Longrightarrow> ?thesis"
    by (simp add: printnum_eq forR_sim)
qed

lemma str_at_sim: "R s t \<Longrightarrow> simR R (str_at rd p i s) (str_at rd' p i t)"
  by (cases p) (auto intro: rd_sim)

lemma strnlen_sim: "R s t \<Longrightarrow> simR R (strnlen_at rd p n i s) (strnlen_at rd' p n i t)"
proof (induction n arbitrary: i s t)
  case (Suc n)
  then show ?case by (auto intro!: simR_bind str_at_sim simR_if)
qed simp

lemma print_chars_sim:
  "R s t \<Longrightarrow> simR R (print_chars putch rd p alt n i prec w s) (print_chars putch' rd' p alt n i prec w t)"
proof (induction n arbitrary: i prec w s t)
  case (Suc n)
  then show ?case
    by (auto intro!: simR_bind str_at_sim putch_sim simR_if simp del: simR_Inr)
      (auto intro!: Suc.IH)
qed simp

lemma print_str_sim: "R s t \<Longrightarrow> simR R (print_str putch rd sp p s) (print_str putch' rd' sp p t)"
  unfolding print_str_def Let_def
  by (intro simR_bind simR_if forR_sim print_chars_sim strnlen_sim | clarsimp split del: if_split)+

lemma print_signed_sim: "R s t \<Longrightarrow> simR R (print_signed putch num sp s) (print_signed putch' num sp t)"
  unfolding print_signed_def by (auto intro!: simR_bind simR_if printnum_sim putch_sim)

lemma print_error_sim: "R s t \<Longrightarrow> simR R (print_error putch rd w s) (print_error putch' rd' w t)"
  unfolding print_error_def Let_def
  by (auto intro!: simR_bind simR_if print_signed_sim print_str_sim forR_sim simp del: forR.simps list.map)

lemma va_sim:
  assumes "R s t"
  shows "simR R (va_int ap s) (va_int ap t)" "simR R (va_long ap s) (va_long ap t)"
    "simR R (va_str ap s) (va_str ap t)"
proof (goal_cases)
  case 1
  show ?case by (cases "(ap, s)" rule: va_int.cases) (use assms in auto)
next
  case 2
  show ?case by (cases "(ap, s)" rule: va_long.cases) (use assms in auto)
next
  case 3
  show ?case by (cases "(ap, s)" rule: va_str.cases) (use assms in auto)
qed

lemma get_sim:
  assumes "R s t"
  shows "simR R (getuint ap l s) (getuint ap l t)" "simR R (getint ap l s) (getint ap l t)"
  unfolding getuint_def getint_def using assms by (auto intro!: simR_if simR_bind va_sim)

lemma reswitch_sim: "R s t \<Longrightarrow> simR R (reswitch cs sp ap s) (reswitch cs sp ap t)"
proof (induction cs sp ap s arbitrary: t rule: reswitch.induct)
  case (2 c cs sp ap s)
  have va: "simR R (va_int ap s) (va_int ap t)"
    by (rule va_sim(1) [OF "2.prems"])
  have st: "simR R (case va_int ap s of Inl e \<Rightarrow> Inl e
        | Inr ((w, ap), s) \<Rightarrow> reswitch cs (process_precision (sint w) sp) ap s)
      (case va_int ap t of Inl e \<Rightarrow> Inl e
        | Inr ((w, ap), s) \<Rightarrow> reswitch cs (process_precision (sint w) sp) ap s)"
    if "set_flag c sp = None" "\<not> is_digit c" "c = CHR ''*''"
    using va 2(2) [OF that] by (cases "va_int ap s") auto
  show ?case
  proof (cases "set_flag c sp")
    case None
    show ?thesis
      unfolding reswitch.simps(2) Let_def None option.case
      by (intro simR_if simR_Inl st 2(1) refl) (use None "2.prems" in simp_all)
  qed (simp add: 2 reswitch.simps(2) [of c])
qed (simp add: reswitch.simps)

lemma convert_sim:
  assumes "R s t"
  shows "rel_option (simR R) (convert putch rd k sp ap s) (convert putch' rd' k sp ap t)"
proof -
  note sims = va_sim get_sim putch_sim print_str_sim print_signed_sim print_error_sim printnum_sim forR_sim
  have r: "rel_option (simR R) (if b then x else y) (if b then x' else y')"
    if "b \<Longrightarrow> rel_option (simR R) x x'" "\<not> b \<Longrightarrow> rel_option (simR R) y y'" for b x y x' y'
    using that by simp
  show ?thesis
    unfolding convert_def
    by (intro r option.rel_intros; clarify?) (auto intro!: simR_bind sims assms simp del: forR.simps list.map)
qed

lemma vprintfmt_loop_sim:
  "R s t \<Longrightarrow> simR R (vprintfmt_loop n putch rd fmt ap s) (vprintfmt_loop n putch' rd' fmt ap t)"
proof (induction n arbitrary: fmt ap s t)
  case 0
  then show ?case by (cases fmt) auto
next
  case (Suc n)
  have lit: "simR R (bindR (putch c s) (\<lambda>(_, s). vprintfmt_loop n putch rd cs ap s))
      (bindR (putch' c t) (\<lambda>(_, s). vprintfmt_loop n putch' rd' cs ap s))" if "R s t" for c cs ap s t
    using that by (auto intro!: simR_bind putch_sim Suc.IH)
  have conv: "simR R
      (case o1 of None \<Rightarrow> bindR (putch c s) (\<lambda>(_, s). vprintfmt_loop n putch rd cs ap s)
       | Some r \<Rightarrow> bindR r (\<lambda>(ap, s). vprintfmt_loop n putch rd rest ap s))
      (case o2 of None \<Rightarrow> bindR (putch' c t) (\<lambda>(_, s). vprintfmt_loop n putch' rd' cs ap s)
       | Some r \<Rightarrow> bindR r (\<lambda>(ap, s). vprintfmt_loop n putch' rd' rest ap s))"
    if "R s t" "rel_option (simR R) o1 o2" for o1 o2 ap s t c cs rest
    using that(2) by (cases rule: option.rel_cases) (auto intro!: lit that(1) simR_bind Suc.IH)
  have body: "simR R
      (case k of None \<Rightarrow> bindR (putch c s) (\<lambda>(_, s). vprintfmt_loop n putch rd cs ap s)
       | Some k \<Rightarrow>
         (case convert putch rd k sp ap s of None \<Rightarrow> bindR (putch c s) (\<lambda>(_, s). vprintfmt_loop n putch rd cs ap s)
          | Some r \<Rightarrow> bindR r (\<lambda>(ap, s). vprintfmt_loop n putch rd rest ap s)))
      (case k of None \<Rightarrow> bindR (putch' c t) (\<lambda>(_, s). vprintfmt_loop n putch' rd' cs ap s)
       | Some k \<Rightarrow>
         (case convert putch' rd' k sp ap t of None \<Rightarrow> bindR (putch' c t) (\<lambda>(_, s). vprintfmt_loop n putch' rd' cs ap s)
          | Some r \<Rightarrow> bindR r (\<lambda>(ap, s). vprintfmt_loop n putch' rd' rest ap s)))"
    if "R s t" for k sp ap s t c cs rest
    using conv [OF that convert_sim [OF that]] lit [OF that] by (cases k) (simp_all only: option.case)
  show ?case
  proof (cases fmt)
    case (Cons c cs)
    show ?thesis
      unfolding Cons vprintfmt_loop.simps
      by (intro simR_if lit simR_bind reswitch_sim Suc.prems)
        (auto split del: if_split intro: body)
  qed (use Suc.prems in simp)
qed

lemma vprintfmt_sim:
  "R s t \<Longrightarrow> simR R (vprintfmt putch rd fmt ap s) (vprintfmt putch' rd' fmt ap t)"
  unfolding vprintfmt_def by (rule vprintfmt_loop_sim)

end

section \<open>Invariants\<close>

text \<open>A device that keeps an invariant keeps it through formatted output.\<close>

locale printer =
  fixes putch :: "'s putch" and rd :: "'s rd" and P :: "'s \<Rightarrow> bool"
  assumes putch_keeps: "P s \<Longrightarrow> keeps P (putch c s)"
    and rd_keeps: "P s \<Longrightarrow> keeps P (rd a s)"
begin

lemma forR_keeps: "P s \<Longrightarrow> keeps P (forR putch cs s)"
  by (rule keeps_forR) (auto intro: putch_keeps)

lemma printnum_keeps: "P s \<Longrightarrow> keeps P (printnum putch num base w c s)"
proof (cases "base < 2 \<or> base > 16")
  case True
  then show ?thesis by (subst printnum.simps) simp
next
  case False
  then show "P s \<Longrightarrow> ?thesis"
    by (simp add: printnum_eq forR_keeps)
qed

lemma str_at_keeps: "P s \<Longrightarrow> keeps P (str_at rd p i s)"
  by (cases p) (auto intro: rd_keeps)

lemma strnlen_keeps: "P s \<Longrightarrow> keeps P (strnlen_at rd p n i s)"
proof (induction n arbitrary: i s)
  case (Suc n)
  then show ?case by (auto intro!: keeps str_at_keeps)
qed simp

lemma print_chars_keeps: "P s \<Longrightarrow> keeps P (print_chars putch rd p alt n i prec w s)"
proof (induction n arbitrary: i prec w s)
  case (Suc n)
  then show ?case by (auto intro!: keeps str_at_keeps putch_keeps)
qed simp

lemma print_str_keeps: "P s \<Longrightarrow> keeps P (print_str putch rd sp p s)"
  unfolding print_str_def Let_def
  by (intro keeps forR_keeps print_chars_keeps strnlen_keeps | clarsimp split del: if_split)+

lemma print_signed_keeps: "P s \<Longrightarrow> keeps P (print_signed putch num sp s)"
  unfolding print_signed_def by (auto intro!: keeps printnum_keeps putch_keeps)

lemma print_error_keeps: "P s \<Longrightarrow> keeps P (print_error putch rd w s)"
  unfolding print_error_def Let_def
  by (auto intro!: keeps print_signed_keeps print_str_keeps forR_keeps simp del: forR.simps list.map)

lemma va_keeps:
  assumes "P s"
  shows "keeps P (va_int ap s)" "keeps P (va_long ap s)" "keeps P (va_str ap s)"
proof (goal_cases)
  case 1
  show ?case by (cases "(ap, s)" rule: va_int.cases) (use assms in auto)
next
  case 2
  show ?case by (cases "(ap, s)" rule: va_long.cases) (use assms in auto)
next
  case 3
  show ?case by (cases "(ap, s)" rule: va_str.cases) (use assms in auto)
qed

lemma get_keeps: "P s \<Longrightarrow> keeps P (getuint ap l s)" "P s \<Longrightarrow> keeps P (getint ap l s)"
  unfolding getuint_def getint_def by (auto intro!: keeps va_keeps)

lemma reswitch_keeps: "P s \<Longrightarrow> keeps P (reswitch cs sp ap s)"
proof (induction cs sp ap s rule: reswitch.induct)
  case (2 c cs sp ap s)
  show ?case
  proof (cases "set_flag c sp")
    case None
    have "keeps P (case va_int ap s of Inl e \<Rightarrow> Inl e
        | Inr ((w, ap), s) \<Rightarrow> reswitch cs (process_precision (sint w) sp) ap s)" if "\<not> is_digit c" "c = CHR ''*''"
      using va_keeps(1) [OF "2.prems", of ap] 2(2) [OF None that] by (cases "va_int ap s") auto
    then show ?thesis
      unfolding reswitch.simps(2) Let_def None option.case
      by (intro keeps 2(1) refl) (use None "2.prems" in simp_all)
  qed (simp add: 2 reswitch.simps(2) [of c])
qed (simp add: reswitch.simps)

lemma convert_keeps:
  assumes "P s" "convert putch rd k sp ap s = Some r"
  shows "keeps P r"
  using assms(2) unfolding convert_def
  by (auto split: if_splits simp del: forR.simps list.map intro!: keeps va_keeps get_keeps putch_keeps print_str_keeps print_signed_keeps
      print_error_keeps printnum_keeps forR_keeps assms(1))

lemma vprintfmt_loop_keeps: "P s \<Longrightarrow> keeps P (vprintfmt_loop n putch rd fmt ap s)"
proof (induction n arbitrary: fmt ap s)
  case 0
  then show ?case by (cases fmt) auto
next
  case (Suc n)
  have lit: "keeps P (bindR (putch c s) (\<lambda>(_, s). vprintfmt_loop n putch rd cs ap s))" if "P s" for c cs ap s
    using that by (auto intro!: keeps putch_keeps Suc.IH)
  show ?case
  proof (cases fmt)
    case (Cons c cs)
    show ?thesis
      unfolding Cons vprintfmt_loop.simps
      by (intro keeps_if keeps_bind lit reswitch_keeps Suc.prems)
        (auto intro!: lit keeps_bind Suc.IH split: option.split dest: convert_keeps)
  qed (use Suc.prems in simp)
qed

lemma vprintfmt_keeps: "P s \<Longrightarrow> keeps P (vprintfmt putch rd fmt ap s)"
  unfolding vprintfmt_def by (rule vprintfmt_loop_keeps)

end

section \<open>The text of a format\<close>

text \<open>
  The reference device: the characters printed, with string arguments read from a memory \<open>m\<close> at the
  addresses that satisfy \<open>ok\<close>.
\<close>

definition collect :: "u32 list putch" where
  "collect c out = Inr ((), out @ [c])"

definition collect_rd :: "(u32 \<Rightarrow> u8) \<Rightarrow> (u32 \<Rightarrow> bool) \<Rightarrow> u32 list rd" where
  "collect_rd m ok a out = (if ok a then Inr (m a, out) else Inl (Undefined ''read''))"

definition formats :: "(u32 \<Rightarrow> u8) \<Rightarrow> (u32 \<Rightarrow> bool) \<Rightarrow> string \<Rightarrow> va list \<Rightarrow> u32 list \<Rightarrow> bool" where
  "formats m ok fmt ap out \<longleftrightarrow> vprintfmt collect (collect_rd m ok) fmt ap [] = Inr ((), out)"

definition snp_rel :: "(u32 \<Rightarrow> u8) \<Rightarrow> u32 \<Rightarrow> nat \<Rightarrow> u32 list \<Rightarrow> sprintbuf \<Rightarrow> bool" where
  "snp_rel m buf n out b \<longleftrightarrow> 1 \<le> n \<and> unat buf + n \<le> 2 ^ 32 \<and> scnt b = int (length out) \<and>
    unat (sbuf b) = unat buf + min (length out) (n - 1) \<and> unat (ebuf b) = unat buf + (n - 1) \<and>
    (\<forall>i < min (length out) (n - 1). smem b (buf + of_nat i) = ucast (out ! i)) \<and>
    (\<forall>a. unat a < unat buf \<or> unat buf + n \<le> unat a \<longrightarrow> smem b a = m a)"

interpretation snp: printer_sim collect "collect_rd m (\<lambda>a. unat a < unat buf \<or> unat buf + n \<le> unat a)"
  sprintputch "\<lambda>a b. Inr (smem b a, b)" "snp_rel m buf n" for m buf n
proof (unfold_locales, goal_cases)
  case (1 s t c)
  have idx: "buf + of_nat i = sbuf t \<longleftrightarrow> unat buf + i = unat (sbuf t)" if "unat buf + i < 2 ^ 32" for i
  proof -
    have "unat (buf + of_nat i) = unat buf + i"
      using that by (simp add: unat_word_ariths(1) unat_of_nat)
    then show ?thesis by (metis word_unat_eq_iff)
  qed
  show ?case
  proof (cases "sbuf t < ebuf t")
    case True
    then have l: "length s < n - 1" "unat (sbuf t) < 2 ^ 32 - 1" "unat (sbuf t) = unat buf + length s"
      using 1 by (auto simp: snp_rel_def word_less_nat_alt)
    then have u: "unat (sbuf t + 1) = unat (sbuf t) + 1"
      by (simp add: unat_word_ariths(1))
    have e: "((smem t)(sbuf t := ucast c)) (buf + of_nat i) = ucast ((s @ [c]) ! i)" if "i < Suc (length s)" for i
      using that l 1 idx [of i] by (cases "i = length s") (auto simp: snp_rel_def nth_append)
    from True 1 l u e show ?thesis
      by (auto simp: sprintputch_def collect_def snp_rel_def)
  next
    case False
    then have "n - 1 \<le> length s"
      using 1 by (auto simp: snp_rel_def word_less_nat_alt)
    with False 1 show ?thesis
      by (auto simp: sprintputch_def collect_def snp_rel_def nth_append)
  qed
next
  case (2 s t a)
  then show ?case
    by (auto simp: collect_rd_def snp_rel_def)
qed

definition user_rel :: "u32 list \<Rightarrow> printbuf \<Rightarrow> bool" where
  "user_rel out b \<longleftrightarrow> concat (cputs b) @ pbuf b = map ucast out \<and> pcnt b = length out \<and>
    (\<forall>c \<in> set (cputs b). length c = 255) \<and> length (pbuf b) < 255"

lemma map_ucast_snoc: "xs @ ys = map f out \<Longrightarrow> xs @ ys @ [f c] = map f (out @ [c])"
  by (simp flip: append_assoc)

interpretation usr: printer_sim collect "collect_rd m (\<lambda>_. True)" putch_user "\<lambda>a b. Inr (m a, b)" user_rel for m
  by unfold_locales
    (auto simp: collect_def collect_rd_def putch_user_def user_rel_def Let_def map_ucast_snoc)

lemmas printf_eval = vprintfmt_Cons reswitch.simps set_flag_def is_digit_def spec0_def convert_def getuint_def
  getint_def printnum_eq digits.simps digit_char_def Let_def print_signed_def collect_def

lemma sample_text: "formats m ok ''%x-%d'' [VInt 255, VInt (-7)] [102, 102, 45, 45, 55]"
  unfolding formats_def by (simp add: printf_eval)

section \<open>Properties\<close>

text \<open>C26. Numbers: \<open>printnum\<close> prints, on every device, the digits of the number in the given base, most
  significant first, padded on the left to the width, and the value of these digits is the number.\<close>

theorem printnum_correct:
  assumes "2 \<le> base" "base \<le> 16"
  shows "\<exists>ds. printnum putch num base w c s =
      forR putch (map chr (replicate (nat (w - int (length ds))) c @ map (\<lambda>d. ''0123456789abcdef'' ! d) ds)) s \<and>
    list_all (\<lambda>d. d < base) ds \<and> foldl (\<lambda>v d. v * base + d) 0 ds = unat num"
  using assms digits_value [of base "unat num"] digits_less [of base _ "unat num"]
  by (intro exI [of _ "digits base (unat num)"])
    (auto simp: printnum_eq list_all_iff digit_char_def [abs_def] Let_def)

theorem printnum_correct_witness:
  "\<exists>ds. printnum collect 42 10 4 CHR ''0'' [] =
      forR collect (map chr (replicate (nat (4 - int (length ds))) CHR ''0'' @ map (\<lambda>d. ''0123456789abcdef'' ! d) ds)) [] \<and>
    list_all (\<lambda>d. d < 10) ds \<and> foldl (\<lambda>v d. v * 10 + d) 0 ds = 42"
  using printnum_correct [of 10 collect 42 4 "CHR ''0''" "[]"] by simp



text \<open>\<open>cprintf\<close> of user programs hands the text to the kernel in order and completely, in pieces that fit
  the buffer of 256 bytes, and returns its length.\<close>

lemma vcprintf_user_correct:
  assumes "formats m (\<lambda>_. True) fmt ap out"
  shows "\<exists>b. vcprintf_user m fmt ap = Inr (length out, b) \<and> concat (cputs b) = map ucast out \<and>
    (\<forall>c \<in> set (cputs b). length c \<le> 255)"
proof -
  have "user_rel [] \<lparr>pbuf = [], pcnt = 0, cputs = []\<rparr>"
    by (simp add: user_rel_def)
  from usr.vprintfmt_sim [OF this, of m fmt ap] assms show ?thesis
    by (auto simp: formats_def vcprintf_user_def user_rel_def)
qed

end
