(* ===== verification/Syscall.thy ===== *)
theory Syscall
  imports Sched Printf
begin

text \<open>
  The system calls of kern/syscall.c as whole handlers over the kernel state, with the kernel's \<open>cprintf\<close>
  of kern/printf.c, and the dispatcher \<open>syscall\<close>. Arguments are the words of the registers; a
  result is the value that goes back into \<open>eax\<close>, as an integer.
\<close>

unbundle bit_operations_syntax

section \<open>\<open>cprintf\<close>\<close>

text \<open>
  \<open>putch\<close> increments the pointer \<open>cnt\<close>, not the counter (\<open>*cnt++\<close>), so that \<open>cprintf\<close> returns 0. String
  arguments are read through the current page directory.
\<close>

definition putch_kern :: "kstate putch" where
  "putch_kern ch s = Inr ((), s\<lparr>cons := cputchar (cons s) ch\<rparr>)"

definition cprintf :: "string \<Rightarrow> va list \<Rightarrow> kstate \<Rightarrow> int kres" where
  "cprintf fmt ap s = bindR (vprintfmt putch_kern kload8 fmt ap s) (\<lambda>(_, s). Inr (0, s))"

section \<open>Handlers\<close>

text \<open>Handlers run on behalf of the current environment; a null \<open>curenv\<close> would be dereferenced.\<close>

definition with_curenv :: "(nat \<Rightarrow> kstate \<Rightarrow> 'a kres) \<Rightarrow> kstate \<Rightarrow> 'a kres" where
  "with_curenv f s = (case curenv s of None \<Rightarrow> Inl (Undefined ''null curenv'') | Some c \<Rightarrow> f c s)"

text \<open>\<open>envid2env\<close> with the early return on an error.\<close>

definition with_env :: "u32 \<Rightarrow> bool \<Rightarrow> (nat \<Rightarrow> kstate \<Rightarrow> int kres) \<Rightarrow> kstate \<Rightarrow> int kres" where
  "with_env envid checkperm f s =
    bindR (envid2env envid checkperm s) (\<lambda>((ret, e), s).
      if ret < 0 then Inr (ret, s)
      else case e of None \<Rightarrow> Inl (Undefined ''null env'') | Some e \<Rightarrow> f e s)"

definition with_pgdir :: "nat \<Rightarrow> (nat \<Rightarrow> kstate \<Rightarrow> 'a kres) \<Rightarrow> kstate \<Rightarrow> 'a kres" where
  "with_pgdir e f s =
    (case env_pgdir (envs s e) of None \<Rightarrow> Inl (Undefined ''null pgdir'') | Some pd \<Rightarrow> f pd s)"

definition sys_cputs :: "u32 \<Rightarrow> u32 \<Rightarrow> kstate \<Rightarrow> int kres" where
  "sys_cputs va len = with_curenv (\<lambda>c s.
    bindR (user_mem_assert c va len (PTE_U OR PTE_P) s) (\<lambda>(_, s).
      bindR (cprintf ''%.*s'' [VInt len, VPtr va] s) (\<lambda>(_, s). Inr (0, s))))"

definition sys_cgetc :: "kstate \<Rightarrow> int kres" where
  "sys_cgetc s = (let (c, cn) = cons_getc (cons s) in Inr (c, s\<lparr>cons := cn\<rparr>))"

definition sys_getenvid :: "kstate \<Rightarrow> int kres" where
  "sys_getenvid = with_curenv (\<lambda>c s. Inr (sint (env_id (envs s c)), s))"

definition sys_env_destroy :: "u32 \<Rightarrow> kstate \<Rightarrow> int kres" where
  "sys_env_destroy envid = with_env envid True (\<lambda>e. with_curenv (\<lambda>c s.
    bindR
      (if e = c
       then cprintf (''\<newline>\<newline>[%08x] exiting gracefully\<newline>'') [VInt (env_id (envs s c))] s
       else cprintf (''[%08x] destroying %08x\<newline>'') [VInt (env_id (envs s c)), VInt (env_id (envs s e))] s)
      (\<lambda>(_, s). bindR (env_destroy e s) (\<lambda>(_, s). Inr (0, s)))))"

definition sys_yield :: "kstate \<Rightarrow> int kres" where
  "sys_yield s = bindR (sched_yield s) (\<lambda>(_, s). Inr (0, s))"

definition sys_exofork :: "kstate \<Rightarrow> int kres" where
  "sys_exofork = with_curenv (\<lambda>c s.
    bindR (env_alloc (env_id (envs s c)) s) (\<lambda>((ret, e), s).
      if ret < 0 then Inr (ret, s)
      else case e of
        None \<Rightarrow> Inl (Undefined ''null env'')
      | Some e \<Rightarrow>
          let tf = env_tf (envs s c);
              s = upd_env e (\<lambda>v. v\<lparr>env_status := ENV_NOT_RUNNABLE,
                     env_tf := tf\<lparr>tf_regs := (tf_regs tf)\<lparr>reg_eax := 0\<rparr>\<rparr>\<rparr>) s
          in Inr (sint (env_id (envs s e)), s)))"

text \<open>The numbers of \<open>ENV_RUNNABLE\<close> and \<open>ENV_NOT_RUNNABLE\<close> in the enumeration of inc/env.h.\<close>

definition status_of :: "u32 \<Rightarrow> env_status option" where
  "status_of w = (if w = 2 then Some ENV_RUNNABLE else if w = 4 then Some ENV_NOT_RUNNABLE else None)"

definition sys_env_set_status :: "u32 \<Rightarrow> u32 \<Rightarrow> kstate \<Rightarrow> int kres" where
  "sys_env_set_status envid status = with_env envid True (\<lambda>e s.
    case status_of status of
      None \<Rightarrow> Inr (- E_INVAL, s)
    | Some st \<Rightarrow> Inr (0, upd_env e (\<lambda>v. v\<lparr>env_status := st\<rparr>) s))"

text \<open>A \<open>struct Trapframe\<close> of 68 bytes in memory, as inc/trap.h lays it out.\<close>

definition load_trapframe :: "u32 \<Rightarrow> kstate \<Rightarrow> Trapframe kres" where
  "load_trapframe va s =
    bindR (kload 68 va s) (\<lambda>(bs, s).
      let w = (\<lambda>k. le_word (take 4 (drop k bs))); h = (\<lambda>k. ucast (le_word (take 2 (drop k bs))) :: u16)
      in Inr (\<lparr>tf_regs = \<lparr>reg_edi = w 0, reg_esi = w 4, reg_ebp = w 8, reg_oesp = w 12, reg_ebx = w 16,
                 reg_edx = w 20, reg_ecx = w 24, reg_eax = w 28\<rparr>,
               tf_es = h 32, tf_ds = h 36, tf_trapno = w 40, tf_err = w 44, tf_eip = w 48, tf_cs = h 52,
               tf_eflags = w 56, tf_esp = w 60, tf_ss = h 64\<rparr>, s))"

definition sys_env_set_trapframe :: "u32 \<Rightarrow> u32 \<Rightarrow> kstate \<Rightarrow> int kres" where
  "sys_env_set_trapframe envid tf s =
    bindR (envid2env envid True s) (\<lambda>((ret, e), s).
      if ret < 0 then Inr (- E_BAD_ENV, s)
      else case e of
        None \<Rightarrow> Inl (Undefined ''null env'')
      | Some e \<Rightarrow>
          bindR (user_mem_check e tf 68 (PTE_W OR PTE_U) s) (\<lambda>(r, s).
            if r < 0 then Inr (r, s)
            else bindR (load_trapframe tf s) (\<lambda>(f, s).
              let s = upd_env e (\<lambda>v. v\<lparr>env_tf := f\<lparr>tf_eflags := tf_eflags f OR FL_IF\<rparr>\<rparr>) s
              in bindR (kload 2 (tf + 52) s) (\<lambda>(cs, s).
                   bindR (kstore (tf + 52) (take 2 (word_bytes (le_word cs OR 3))) s) (\<lambda>(_, s). Inr (0, s))))))"

definition sys_env_set_pgfault_upcall :: "u32 \<Rightarrow> u32 \<Rightarrow> kstate \<Rightarrow> int kres" where
  "sys_env_set_pgfault_upcall envid func = with_env envid True (\<lambda>e s.
    Inr (0, upd_env e (\<lambda>v. v\<lparr>env_pgfault_upcall := func\<rparr>) s))"

definition bad_va :: "u32 \<Rightarrow> bool" where
  "bad_va va \<longleftrightarrow> va \<ge> UTOP \<or> va mod PGSIZE \<noteq> 0"

text \<open>The second half of \<open>sys_page_alloc\<close>: a zeroed page is inserted, and freed if that fails.\<close>

definition alloc_page_at :: "nat \<Rightarrow> u32 \<Rightarrow> u32 \<Rightarrow> kstate \<Rightarrow> int kres" where
  "alloc_page_at e va perm s =
    bindR (page_alloc ALLOC_ZERO s) (\<lambda>(pp, s).
      case pp of
        None \<Rightarrow> Inr (- E_NO_MEM, s)
      | Some pp \<Rightarrow> with_pgdir e (\<lambda>pd s.
          bindR (page_insert pd pp va perm s) (\<lambda>(ret, s).
            if ret < 0 then bindR (page_free pp s) (\<lambda>(_, s). Inr (ret, s)) else Inr (0, s))) s)"

definition sys_page_alloc :: "u32 \<Rightarrow> u32 \<Rightarrow> u32 \<Rightarrow> kstate \<Rightarrow> int kres" where
  "sys_page_alloc envid va perm = with_env envid True (\<lambda>e s.
    if bad_va va then Inr (- E_INVAL, s)
    else
      let perm = PTE_U OR PTE_P OR perm
      in if perm AND NOT (PTE_U OR PTE_P OR PTE_AVAIL OR PTE_W) \<noteq> 0 then Inr (- E_INVAL, s)
         else alloc_page_at e va perm s)"

definition sys_page_map :: "u32 \<Rightarrow> u32 \<Rightarrow> u32 \<Rightarrow> u32 \<Rightarrow> u32 \<Rightarrow> kstate \<Rightarrow> int kres" where
  "sys_page_map srcenvid srcva dstenvid dstva perm = with_env srcenvid True (\<lambda>srce.
    with_env dstenvid True (\<lambda>dste s.
      if bad_va srcva \<or> bad_va dstva then Inr (- E_INVAL, s)
      else with_pgdir srce (\<lambda>spd s.
        bindR (page_lookup spd srcva s) (\<lambda>(r, s).
          case r of
            None \<Rightarrow> Inr (- E_INVAL, s)
          | Some (pp, pte) \<Rightarrow> with_pgdir dste (\<lambda>dpd s.
              bindR (page_insert dpd pp dstva perm s) (\<lambda>(ret, s).
                if ret < 0 then Inr (ret, s) else Inr (0, s))) s)) s))"

definition sys_page_unmap :: "u32 \<Rightarrow> u32 \<Rightarrow> kstate \<Rightarrow> int kres" where
  "sys_page_unmap envid va = with_env envid True (\<lambda>e s.
    if bad_va va then Inr (- E_INVAL, s)
    else with_pgdir e (\<lambda>pd s. bindR (page_remove pd va s) (\<lambda>(_, s). Inr (0, s))) s)"

text \<open>The updates of the receiver at the end of \<open>sys_ipc_try_send\<close>.\<close>

definition ipc_deliver :: "nat \<Rightarrow> nat \<Rightarrow> u32 \<Rightarrow> u32 \<Rightarrow> u32 \<Rightarrow> kstate \<Rightarrow> kstate" where
  "ipc_deliver c d value srcva perm s =
    upd_env d (\<lambda>v. v\<lparr>env_ipc_perm := (if srcva < UTOP \<and> env_ipc_dstva v < UTOP then perm else 0),
      env_ipc_recving := False, env_ipc_value := value, env_ipc_from := env_id (envs s c),
      env_status := ENV_RUNNABLE\<rparr>) s"

text \<open>The conditions on \<open>srcva\<close>, \<open>perm\<close> and the page found there; \<open>PTE_SYSCALL\<close> is the mask of inc/mmu.h.\<close>

definition ipc_page_ok :: "u32 \<Rightarrow> u32 \<Rightarrow> (nat \<times> pte_ptr) option \<Rightarrow> kstate \<Rightarrow> bool" where
  "ipc_page_ok srcva perm pp s \<longleftrightarrow>
    \<not> (srcva mod PGSIZE \<noteq> 0 \<or>
       perm AND PTE_U \<noteq> PTE_U \<or> perm AND PTE_P \<noteq> PTE_P \<or> perm AND NOT PTE_SYSCALL \<noteq> 0 \<or>
       (case pp of
          None \<Rightarrow> True
        | Some (_, pte) \<Rightarrow>
            perm AND PTE_W \<noteq> 0 \<and> (case pte of None \<Rightarrow> False | Some (t, i) \<Rightarrow> pmem s t i AND PTE_W = 0)))"

definition ipc_transfer :: "nat \<Rightarrow> u32 \<Rightarrow> u32 \<Rightarrow> (nat \<times> pte_ptr) option \<Rightarrow> kstate \<Rightarrow> int kres" where
  "ipc_transfer d srcva perm pp s =
    (if env_ipc_dstva (envs s d) < UTOP \<and> srcva < UTOP then
       (case pp of
          None \<Rightarrow> Inl (Undefined ''null page'')
        | Some (p, _) \<Rightarrow> with_pgdir d (\<lambda>dpd. page_insert dpd p (env_ipc_dstva (envs s d)) perm) s)
     else Inr (0, s))"

definition ipc_send :: "nat \<Rightarrow> nat \<Rightarrow> u32 \<Rightarrow> u32 \<Rightarrow> u32 \<Rightarrow> (nat \<times> pte_ptr) option \<Rightarrow> kstate \<Rightarrow> int kres" where
  "ipc_send c d value srcva perm pp s =
    (if \<not> env_ipc_recving (envs s d) then Inr (- E_IPC_NOT_RECV, s)
     else if srcva < UTOP \<and> \<not> ipc_page_ok srcva perm pp s then Inr (- E_INVAL, s)
     else bindR (ipc_transfer d srcva perm pp s) (\<lambda>(r, s).
       if r < 0 then Inr (- E_NO_MEM, s) else Inr (0, ipc_deliver c d value srcva perm s)))"

definition sys_ipc_try_send :: "u32 \<Rightarrow> u32 \<Rightarrow> u32 \<Rightarrow> u32 \<Rightarrow> kstate \<Rightarrow> int kres" where
  "sys_ipc_try_send envid value srcva perm = with_curenv (\<lambda>c. with_pgdir c (\<lambda>cpd s.
    bindR (page_lookup cpd srcva s) (\<lambda>(pp, s).
      bindR (envid2env envid False s) (\<lambda>((ret, d), s).
        if ret < 0 then Inr (- E_BAD_ENV, s)
        else case d of
          None \<Rightarrow> Inl (Undefined ''null env'')
        | Some d \<Rightarrow> ipc_send c d value srcva perm pp s))))"

definition sys_ipc_recv :: "u32 \<Rightarrow> kstate \<Rightarrow> int kres" where
  "sys_ipc_recv dstva = with_curenv (\<lambda>c s.
    if dstva < UTOP \<and> dstva mod PGSIZE \<noteq> 0 then Inr (- E_INVAL, s)
    else
      let s = upd_env c (\<lambda>v. v\<lparr>env_ipc_dstva := dstva, env_ipc_recving := True,
                env_tf := (env_tf v)\<lparr>tf_regs := (tf_regs (env_tf v))\<lparr>reg_eax := 0\<rparr>\<rparr>,
                env_status := ENV_NOT_RUNNABLE\<rparr>) s
      in bindR (sched_yield s) (\<lambda>(_, s). Inr (0, s)))"

definition sys_time_msec :: "kstate \<Rightarrow> int kres" where
  "sys_time_msec s = Inr (sint (time_msec s), s)"

text \<open>
  The packet is copied into the transmit buffer through the current page directory, but only if
  \<open>nic_transmit\<close> accepts it.
\<close>

definition sys_send_packet :: "u32 \<Rightarrow> u32 \<Rightarrow> kstate \<Rightarrow> int kres" where
  "sys_send_packet va len = with_curenv (\<lambda>c s.
    bindR (user_mem_check c va len PTE_U s) (\<lambda>(r, s).
      if r \<noteq> 0 then Inr (- E_INVAL, s)
      else if fst (nic_transmit (nic s) (\<lambda>_. 0) len) \<noteq> 0 then Inr (fst (nic_transmit (nic s) (\<lambda>_. 0) len), s)
      else bindR (kload (unat len) va s) (\<lambda>(bs, s).
        let (r, n) = nic_transmit (nic s) (\<lambda>i. bs ! i) len in Inr (r, s\<lparr>nic := n\<rparr>))))"

definition sys_rcv_packet :: "u32 \<Rightarrow> u32 \<Rightarrow> kstate \<Rightarrow> int kres" where
  "sys_rcv_packet va len = with_curenv (\<lambda>c s.
    bindR (kload32 len s) (\<lambda>(n, s).
      bindR (user_mem_check c va n (PTE_U OR PTE_W) s) (\<lambda>(r, s).
        if r \<noteq> 0 then Inr (- E_INVAL, s)
        else case e1000_receive (nic s) of
          (Inl r, nc) \<Rightarrow> Inr (r, s\<lparr>nic := nc\<rparr>)
        | (Inr (l, bs), nc) \<Rightarrow>
            bindR (kstore32 len l s) (\<lambda>(_, s).
              bindR (kstore va bs s) (\<lambda>(_, s). Inr (0, s\<lparr>nic := nc\<rparr>))))))"

section \<open>The dispatcher\<close>

definition syscall :: "u32 \<Rightarrow> u32 \<Rightarrow> u32 \<Rightarrow> u32 \<Rightarrow> u32 \<Rightarrow> u32 \<Rightarrow> kstate \<Rightarrow> int kres" where
  "syscall syscallno a1 a2 a3 a4 a5 s =
    (if syscallno = 0 then sys_cputs a1 a2 s
     else if syscallno = 1 then sys_cgetc s
     else if syscallno = 2 then sys_getenvid s
     else if syscallno = 3 then sys_env_destroy a1 s
     else if syscallno = 11 then sys_yield s
     else if syscallno = 7 then sys_exofork s
     else if syscallno = 8 then sys_env_set_status a1 a2 s
     else if syscallno = 5 then sys_page_map a1 a2 a3 a4 a5 s
     else if syscallno = 6 then sys_page_unmap a1 a2 s
     else if syscallno = 4 then sys_page_alloc a1 a2 a3 s
     else if syscallno = 10 then sys_env_set_pgfault_upcall a1 a2 s
     else if syscallno = 13 then sys_ipc_recv a1 s
     else if syscallno = 12 then sys_ipc_try_send a1 a2 a3 a4 s
     else if syscallno = 9 then sys_env_set_trapframe a1 a2 s
     else if syscallno = 14 then sys_time_msec s
     else if syscallno = 15 then sys_send_packet a1 a2 s
     else if syscallno = 16 then sys_rcv_packet a1 a2 s
     else Inr (- E_INVAL, s))"

section \<open>\<open>cprintf\<close>: what it changes\<close>

interpretation kpr: printer putch_kern kload8 "\<lambda>t. \<exists>cn. t = s\<lparr>cons := cn\<rparr>" for s
  by unfold_locales (auto simp: putch_kern_def kload8_def split: option.split)

lemma cprintf_state: "cprintf fmt ap s = Inr (r, s') \<Longrightarrow> r = 0 \<and> (\<exists>cn. s' = s\<lparr>cons := cn\<rparr>)"
  using kpr.vprintfmt_keeps [of s s fmt ap, OF exI [of _ "cons s"]] by (auto simp: cprintf_def bindR_eq_Inr)

lemma kinv_cons: "kinv s \<Longrightarrow> kinv (s\<lparr>cons := cn\<rparr>)"
  by (erule kinv_cong) (simp_all add: curenv_def)

lemma kinv_nic: "kinv s \<Longrightarrow> kinv (s\<lparr>nic := n\<rparr>)"
  by (erule kinv_cong) (simp_all add: curenv_def)

lemma kload8_keeps: "kinv s \<Longrightarrow> keeps kinv (kload8 va s)"
  by (simp add: kload8_def split: option.split)

interpretation kpi: printer putch_kern kload8 kinv
  by unfold_locales (auto simp: putch_kern_def intro: kinv_cons kload8_keeps)

lemma cprintf_keeps [keeps]: "kinv s \<Longrightarrow> keeps kinv (cprintf fmt ap s)"
  unfolding cprintf_def by (auto intro!: keeps kpi.vprintfmt_keeps)

lemma kload_keeps: "kinv s \<Longrightarrow> keeps kinv (kload n va s)"
proof (induction n arbitrary: va s)
  case (Suc n)
  then show ?case by (auto intro!: keeps kload8_keeps)
qed simp

section \<open>Handlers keep the invariant\<close>

lemma ENVX_less: "ENVX envid < NENV"
proof -
  have "unat (envid AND 0x3FF) = unat envid mod 1024"
    by (simp add: mask_consts unsigned_take_bit_eq flip: take_bit_eq_mask) (simp add: take_bit_eq_mod)
  then show ?thesis by (simp add: ENVX_def)
qed

lemma envid2env_state:
  "envid2env envid p s = Inr ((r, e), s') \<Longrightarrow> s' = s \<and> (r = 0 \<or> r = - E_BAD_ENV \<and> e = None)"
  by (auto simp: envid2env_def Let_def split: if_splits option.splits)

lemma envid2env_err: "envid2env envid p s = Inl x \<Longrightarrow> x = Undefined ''null curenv''"
  by (auto simp: envid2env_def Let_def split: if_splits option.splits)

lemma envid2env_slot:
  "kinv s \<Longrightarrow> envid2env envid p s = Inr ((r, Some e), s') \<Longrightarrow> e < NENV"
  using ENVX_less [of envid]
  by (auto simp: envid2env_def Let_def simp del: NENV_def split: if_splits option.splits dest: kinv_cur)

lemma with_env_keeps:
  assumes "kinv s" "\<And>e. e < NENV \<Longrightarrow> keeps kinv (f e s)"
  shows "keeps kinv (with_env envid p f s)"
proof (cases "envid2env envid p s")
  case (Inl x)
  then show ?thesis by (auto simp: with_env_def dest: envid2env_err)
next
  case (Inr y)
  obtain r e s' where y: "y = ((r, e), s')" by (cases y) auto
  with Inr have s': "s' = s" using envid2env_state by blast
  show ?thesis
  proof (cases e)
    case None
    then show ?thesis using Inr y s' assms(1) by (simp add: with_env_def)
  next
    case (Some d)
    then show ?thesis
      using Inr y s' assms envid2env_slot [OF assms(1), of envid p r d s'] by (simp add: with_env_def)
  qed
qed

lemma with_curenv_keeps:
  assumes "kinv s" "\<And>c. c < NENV \<Longrightarrow> curenv s = Some c \<Longrightarrow> keeps kinv (f c s)"
  shows "keeps kinv (with_curenv f s)"
  using assms kinv_cur [OF assms(1)] by (auto simp: with_curenv_def split: option.split)

lemma with_pgdir_keeps:
  assumes "\<And>pd. env_pgdir (envs s e) = Some pd \<Longrightarrow> keeps kinv (f pd s)"
  shows "keeps kinv (with_pgdir e f s)"
  using assms by (auto simp: with_pgdir_def split: option.split)

lemma kinv_pd:
  assumes "kernel_inv K s" "e < NENV" "env_pgdir (envs s e) = Some pd"
  shows "K pd = KPD" "env_status (envs s e) \<noteq> ENV_FREE"
  using env_slotD [OF kernel_invD(2) [OF assms(1)] assms(2)] assms(3)
  by (auto simp: env_slot_ok_def split: if_splits)

text \<open>A change of memory and kinds that leaves the directories alone keeps the invariant.\<close>

lemma kernel_inv_vm:
  assumes "kernel_inv K s" "vm_inv K' (\<lambda>_. 0) s'" "vm_frame s s'" "\<And>q. K' q = KPD \<longleftrightarrow> K q = KPD" "\<And>q. K' q \<noteq> KNew"
  shows "kernel_inv K' s'"
  using assms(2,5) env_inv_cong [of s' s K' K] vm_frame_sel [OF assms(3)] assms(4) kernel_invD(2) [OF assms(1)]
  by (simp add: kernel_inv_def)

lemma kinv_vm: "kinv s \<Longrightarrow> kernel_inv K' s' \<Longrightarrow> vm_frame s s' \<Longrightarrow> kinv s'"
  using vm_frame_sel(6) [of s s'] by (auto simp: kinv_def)

lemma page_remove_keeps:
  assumes "kinv s" "e < NENV" "env_pgdir (envs s e) = Some pd" "pdx va < 955"
  shows "keeps kinv (page_remove pd va s)"
proof -
  from assms(1) obtain K where K: "kernel_inv K s" by (auto simp: kinv_def)
  note I = kernel_invD [OF K] and pd = kinv_pd(1) [OF K assms(2,3)]
  show ?thesis
  proof (cases "present (pmem s pd (pdx va))")
    case False
    then show ?thesis
      using page_lookup_eq [OF I(1) pd assms(4)] by (simp add: page_remove_def pte_of_def)
  next
    case True
    show ?thesis
    proof (rule page_remove_spec [OF I(1) pd assms(4) True])
      fix s' K'
      assume r: "page_remove pd va s = Inr ((), s')" "vm_inv K' (\<lambda>_. 0) s'" "vm_frame s s'"
        "\<And>q. K' q = K q \<or> K q = KData \<and> 0 = (0 :: nat) \<and> K' q = KFree"
      have "kernel_inv K' s'"
        using r(4) I(3) by (intro kernel_inv_vm [OF K r(2,3)]) (metis kind.distinct)+
      with assms(1) r(1,3) show ?thesis
        by (auto intro: kinv_vm)
    qed
  qed
qed

lemma page_insert_kernel_inv:
  assumes K: "kernel_inv K s" and pd: "K pd = KPD" and va: "pdx va < 955" and pp: "K pp = KData"
    and no: "pp_ref (pages s pp) \<noteq> 0xFFFF" and perm: "perm AND NOT 0xFFF = 0"
  obtains (nomem) "page_insert pd pp va perm s = Inr (- E_NO_MEM, s)" "page_free_list s = None"
    "aspace s pd va = None"
  | (ok) s' K' where "page_insert pd pp va perm s = Inr (0, s')" "kernel_inv K' s'" "vm_frame s s'"
    "\<And>pd' va'. K pd' = KPD \<Longrightarrow> pdx va' < 955 \<Longrightarrow> aspace s' pd' va' =
       (if pd' = pd \<and> PGNUM va' = PGNUM va then Some (pp, perm OR PTE_P) else aspace s pd' va')"
    "\<And>q. K q = KData \<Longrightarrow> pmem s' q = pmem s q"
    "\<And>q. K' q = K q \<or> K q = KData \<and> K' q = KFree \<or> K q = KFree \<and> K' q = KPT pd (pdx va)"
proof -
  note I = kernel_invD [OF K]
  show thesis
    using I(1) pd va disjI2 [OF pp] no perm
  proof (cases rule: page_insert_spec)
    case nomem
    then show thesis by (rule that(1))
  next
    case (ok s' K')
    have q: "K' q = KPD \<longleftrightarrow> K q = KPD" "K' q \<noteq> KNew" for q
      using ok(4) ok(5) [of q] pp I(3) [of q] by (cases "q = pp"; auto)+
    have k: "K' q = K q \<or> K q = KData \<and> K' q = KFree \<or> K q = KFree \<and> K' q = KPT pd (pdx va)" for q
      using ok(4) ok(5) [of q] pp by (cases "q = pp") auto
    show thesis
      by (rule that(2) [OF ok(1) kernel_inv_vm [OF K ok(2,3) q] ok(3) ok(6) _ k]) (simp_all add: ok(7))
  qed
qed

lemma page_lookup_kinv:
  assumes K: "kernel_inv K s" and pd: "K pd = KPD" and va: "pdx va < 955"
    and l: "page_lookup pd va s = Inr (Some (pp, pte), s')"
  shows "s' = s" "K pp = KData"
    "\<exists>t. pte = Some (t, ptx va) \<and> pte_of s pd va = Some (pmem s t (ptx va)) \<and>
       aspace s pd va = Some (pp, pmem s t (ptx va) AND 0xFFF)"
proof -
  note I = kernel_invD [OF K]
  from l page_lookup_eq [OF I(1) pd va] obtain w where w: "pte_of s pd va = Some w" "present w" "s' = s"
    "pp = frame w" "pte = Some (frame (pmem s pd (pdx va)), ptx va)"
    by (auto split: option.splits if_splits)
  then have t: "present (pmem s pd (pdx va))" "w = pmem s (frame (pmem s pd (pdx va))) (ptx va)"
    by (auto simp: pte_of_def Let_def split: if_splits)
  from I(1) pd va have "K (frame (pmem s pd (pdx va))) = KPT pd (pdx va)"
    by (cases rule: user_pde_cases) (use t(1) in auto)
  then show "K pp = KData"
    using table_okD(5) [OF I(1) _ ptx_less] w(2,4) t(2) by simp
  show "s' = s" "\<exists>t. pte = Some (t, ptx va) \<and> pte_of s pd va = Some (pmem s t (ptx va)) \<and>
       aspace s pd va = Some (pp, pmem s t (ptx va) AND 0xFFF)"
    using w t by (auto simp: aspace_def)
qed

lemma keeps_mono: "keeps P r \<Longrightarrow> (\<And>s. P s \<Longrightarrow> Q s) \<Longrightarrow> keeps Q r"
  by (auto simp: keeps_def split: sum.splits)

text \<open>\<open>page_insert\<close> of the page a lookup has found.\<close>

lemma page_insert_keeps:
  assumes "kinv s" "e < NENV" "env_pgdir (envs s e) = Some pd" "pdx va < 955"
    and "e' < NENV" "env_pgdir (envs s e') = Some pd'" "pdx va' < 955" "page_lookup pd' va' s = Inr (Some (pp, pte), s')"
    and "pp_ref (pages s pp) \<noteq> 0xFFFF" "perm AND NOT 0xFFF = 0"
  shows "keeps (\<lambda>t. kinv t \<and> envs t = envs s) (page_insert pd pp va perm s)"
proof -
  from assms(1) obtain K where K: "kernel_inv K s" by (auto simp: kinv_def)
  have "K pp = KData"
    using page_lookup_kinv(2) [OF K kinv_pd(1) [OF K assms(5,6)] assms(7,8)] .
  from K kinv_pd(1) [OF K assms(2,3)] assms(4) this assms(9,10) show ?thesis
    by (cases rule: page_insert_kernel_inv) (use assms(1) in \<open>auto intro: kinv_vm dest: vm_frame_sel(3)\<close>)
qed

section \<open>The calls on address spaces\<close>

text \<open>The permissions \<open>sys_page_alloc\<close> accepts, after it has set \<open>PTE_U\<close> and \<open>PTE_P\<close>.\<close>

definition user_perm :: "u32 \<Rightarrow> bool" where
  "user_perm perm \<longleftrightarrow> perm AND NOT (PTE_U OR PTE_P OR PTE_AVAIL OR PTE_W) = 0"

lemma user_perm_or: "user_perm (PTE_U OR PTE_P OR perm) \<longleftrightarrow> user_perm perm"
  by (simp add: user_perm_def bit.conj_disj_distrib2)

lemma user_perm_low: "user_perm perm \<Longrightarrow> (PTE_U OR PTE_P OR perm) AND NOT 0xFFF = 0"
proof -
  assume "user_perm perm"
  then have "perm AND NOT 0xE07 = 0" by (simp add: user_perm_def)
  then have "(perm AND NOT 0xE07) AND NOT 0xFFF = 0" by simp
  moreover have "(perm AND NOT 0xE07) AND NOT 0xFFF = perm AND NOT (0xFFF :: u32)"
    unfolding and.assoc by simp
  ultimately show ?thesis
    by (simp add: bit.conj_disj_distrib2)
qed

lemma good_va: "\<not> bad_va va \<Longrightarrow> pdx va < 955"
  by (simp add: bad_va_def not_le flip: below_UTOP_iff)

text \<open>The work of \<open>sys_page_alloc\<close> behind its argument checks.\<close>

lemma page_alloc_insert_spec:
  assumes K: "kernel_inv K s" and pd: "K pd = KPD" and va: "pdx va < 955" and perm: "perm AND NOT 0xFFF = 0"
  obtains (full) "page_alloc ALLOC_ZERO s = Inr (None, s)" "\<And>p. K p \<noteq> KFree"
  | (nomem) p u where "page_alloc ALLOC_ZERO s = Inr (Some p, u)" "page_insert pd p va perm u = Inr (- E_NO_MEM, u)"
    "page_free p u = Inr ((), page_push p u)" "kernel_inv K (page_push p u)" "vm_frame s (page_push p u)"
    "\<And>pd' va'. K pd' = KPD \<Longrightarrow> pdx va' < 955 \<Longrightarrow> aspace (page_push p u) pd' va' = aspace s pd' va'"
    "\<And>q. K q = KFree \<Longrightarrow> q = p"
  | (ok) p u s' K' where "page_alloc ALLOC_ZERO s = Inr (Some p, u)" "page_insert pd p va perm u = Inr (0, s')"
    "K p = KFree" "kernel_inv K' s'" "K' p = KData" "vm_frame s s'" "vm_frame s u" "pmem s' p = (\<lambda>_. 0)"
    "\<And>pd' va'. K pd' = KPD \<Longrightarrow> pdx va' < 955 \<Longrightarrow> aspace s' pd' va' =
       (if pd' = pd \<and> PGNUM va' = PGNUM va then Some (p, perm OR PTE_P) else aspace s pd' va')"
    "\<And>q. K q = KData \<Longrightarrow> pmem s' q = pmem s q"
    "\<And>q. K q = KFree \<Longrightarrow> q \<noteq> p \<Longrightarrow> K' q = KFree \<or> K' q = KPT pd (pdx va)"
proof -
  note I = kernel_invD [OF K]
  from I(1) show thesis
  proof (cases rule: page_alloc_inv [where fl = ALLOC_ZERO])
    case full
    with no_free_page [OF I(1)] show thesis by (intro that(1))
  next
    case (ok p u)
    let ?K = "K(p := KNew)"
    have as: "aspace u pd' va' = aspace s pd' va'" if "K pd' = KPD" "pdx va' < 955" for pd' va'
      using aspace_leaf [OF I(1) that, of u] ok(2,5) by (metis leaf_simps(1))
    have p: "?K p = KNew \<or> ?K p = KData" "?K pd = KPD" "pp_ref (pages u p) \<noteq> 0xFFFF"
      using ok(2) pd pinfoD [OF ok(3), of p] by auto
    from ok(3) p(2) va p(1,3) perm show thesis
    proof (cases rule: page_insert_spec)
      case nomem
      have "vm_inv K (\<lambda>_. 0) (page_push p u)"
        using page_free_inv(2) [OF ok(3), of p] ok(2) by (simp add: fun_upd_idem)
      then have "kernel_inv K (page_push p u)"
        using ok(8) I(3) by (intro kernel_inv_vm [OF K]) simp_all
      moreover have "q = p" if "K q = KFree" for q
        using no_free_page [OF ok(3) nomem(2), of q] that by (auto split: if_splits)
      ultimately show thesis
        using ok(1,8) nomem(1) page_free_inv(1) [OF ok(3), of p] as aspace_cong [of "page_push p u" u]
        by (intro that(2) [of p u]) simp_all
    next
      case (ok s' K')
      note o = \<open>page_alloc ALLOC_ZERO s = Inr (Some p, u)\<close>
      note o2 = \<open>vm_frame s u\<close> \<open>odd ALLOC_ZERO \<Longrightarrow> pmem u p = (\<lambda>_. 0)\<close> \<open>\<And>q. q \<noteq> p \<Longrightarrow> pmem u q = pmem s q\<close> \<open>K p = KFree\<close>
      have q: "K' q = KPD \<longleftrightarrow> K q = KPD" "K' q \<noteq> KNew" for q
        using ok(4) ok(5) [of q] \<open>K p = KFree\<close> I(3) [of q] by (cases "q = p"; auto)+
      have A: "aspace s' pd' va' = (if pd' = pd \<and> PGNUM va' = PGNUM va then Some (p, perm OR PTE_P) else aspace s pd' va')"
        if "K pd' = KPD" "pdx va' < 955" for pd' va'
      proof -
        have "?K pd' = KPD" using that(1) o2(4) by auto
        from ok(6) [OF this that(2)] as [OF that] show ?thesis by simp
      qed
      have M: "pmem s' q = pmem s q" if "K q = KData" for q
      proof -
        have "q \<noteq> p" using that o2(4) by auto
        with o2(3) [OF this] ok(7) [of q] that show ?thesis by simp
      qed
      have fr: "vm_frame s s'"
        using o2(1) ok(3) by (rule vm_frame_trans)
      have z: "pmem s' p = (\<lambda>_. 0)"
        using ok(7) [of p] o2(2) by simp
      have F: "K' q = KFree \<or> K' q = KPT pd (pdx va)" if "K q = KFree" "q \<noteq> p" for q
        using ok(5) [OF that(2)] that by auto
      show thesis
        by (rule that(3) [OF o ok(1) o2(4) kernel_inv_vm [OF K ok(2) fr q] ok(4) fr o2(1) z A M F])
    qed
  qed
qed

section \<open>Every handler keeps the invariant\<close>

lemma alloc_page_at_spec:
  assumes K: "kernel_inv K s" and e: "e < NENV" "env_pgdir (envs s e) = Some pd" and va: "\<not> bad_va va"
    and perm: "perm AND NOT 0xFFF = 0"
  obtains (nomem) s' where "alloc_page_at e va perm s = Inr (- E_NO_MEM, s')" "kernel_inv K s'" "vm_frame s s'"
    "\<And>pd' va'. K pd' = KPD \<Longrightarrow> pdx va' < 955 \<Longrightarrow> aspace s' pd' va' = aspace s pd' va'"
    "\<exists>p. \<forall>q. K q = KFree \<longrightarrow> q = p"
  | (ok) p s' K' where "alloc_page_at e va perm s = Inr (0, s')" "K p = KFree" "kernel_inv K' s'" "vm_frame s s'"
    "pmem s' p = (\<lambda>_. 0)" "\<And>q. K q = KData \<Longrightarrow> pmem s' q = pmem s q"
    "\<And>pd' va'. K pd' = KPD \<Longrightarrow> pdx va' < 955 \<Longrightarrow> aspace s' pd' va' =
       (if pd' = pd \<and> PGNUM va' = PGNUM va then Some (p, perm OR PTE_P) else aspace s pd' va')"
    "\<And>q. K q = KFree \<Longrightarrow> q \<noteq> p \<Longrightarrow> K' q = KFree \<or> K' q = KPT pd (pdx va)"
  using K kinv_pd(1) [OF K e] good_va [OF va] perm
proof (cases rule: page_alloc_insert_spec)
  case full
  then show thesis
    by (intro nomem [of s]) (auto simp: alloc_page_at_def K)
next
  case (nomem p u)
  have "env_pgdir (envs u e) = Some pd"
    using vm_frame_sel(3) [OF nomem(5)] e(2) by simp
  then have "alloc_page_at e va perm s = Inr (- E_NO_MEM, page_push p u)"
    using nomem(1-3) by (simp add: alloc_page_at_def with_pgdir_def)
  then show thesis
    by (rule that(1) [OF _ nomem(4-6)]) (assumption+, intro exI [of _ p] allI impI nomem(7))
next
  case (ok p u s' K')
  have "env_pgdir (envs u e) = Some pd"
    using vm_frame_sel(3) [OF ok(7)] e(2) by simp
  then have "alloc_page_at e va perm s = Inr (0, s')"
    using ok(1,2) by (simp add: alloc_page_at_def with_pgdir_def)
  then show thesis
    by (rule that(2) [OF _ ok(3,4,6,8,10,9,11)])
qed

lemma alloc_page_at_keeps:
  assumes "kinv s" "e < NENV" "\<not> bad_va va" "perm AND NOT 0xFFF = 0"
  shows "keeps kinv (alloc_page_at e va perm s)"
proof -
  from assms(1) obtain K where K: "kernel_inv K s" by (auto simp: kinv_def)
  show ?thesis
  proof (cases "env_pgdir (envs s e)")
    case None
    from kernel_invD(1) [OF K] show ?thesis
    proof (cases rule: page_alloc_inv [where fl = ALLOC_ZERO])
      case (ok p u)
      then show ?thesis
        using None vm_frame_sel(3) [OF ok(8)] by (simp add: with_pgdir_def alloc_page_at_def)
    qed (use assms in \<open>simp add: alloc_page_at_def\<close>)
  next
    case (Some pd)
    from K assms(2) Some assms(3,4) show ?thesis
      by (cases rule: alloc_page_at_spec) (auto intro: kinv_vm [OF assms(1)])
  qed
qed

lemma sys_page_alloc_keeps:
  assumes "kinv s"
  shows "keeps kinv (sys_page_alloc envid va perm s)"
  unfolding sys_page_alloc_def Let_def
  by (intro with_env_keeps keeps_if alloc_page_at_keeps assms)
    (use assms user_perm_low [of perm] user_perm_or [of perm] in \<open>auto simp: user_perm_def\<close>)

lemma sys_page_unmap_keeps:
  assumes "kinv s"
  shows "keeps kinv (sys_page_unmap envid va s)"
  unfolding sys_page_unmap_def
  by (intro with_env_keeps keeps_if with_pgdir_keeps keeps_bind page_remove_keeps assms)
    (auto simp: assms intro: good_va)

text \<open>No page is mapped so often that its 16-bit reference count would wrap.\<close>

definition refs_ok :: "kstate \<Rightarrow> bool" where
  "refs_ok s \<longleftrightarrow> (\<forall>p. pp_ref (pages s p) \<noteq> 0xFFFF)"

lemma page_lookup_pure: "keeps (\<lambda>t. t = s) (page_lookup pd va s)"
proof -
  have w: "keeps (\<lambda>t. t = s) (pgdir_walk pd va False s)"
    by (simp add: pgdir_walk_def KADDR_def Let_def)
  show ?thesis
    unfolding page_lookup_def
    by (rule keeps_bind [OF w]) (auto simp: load_pte_def pa2page_def intro!: keeps split: option.split)
qed

lemma page_lookup_bind:
  assumes "P s" "\<And>r. page_lookup pd va s = Inr (r, s) \<Longrightarrow> keeps P (f (r, s))"
  shows "keeps P (bindR (page_lookup pd va s) f)"
  using assms page_lookup_pure [of s pd va] by (cases "page_lookup pd va s") auto

lemma sys_page_map_keeps:
  assumes "kinv s" "refs_ok s" "perm AND NOT 0xFFF = 0"
  shows "keeps kinv (sys_page_map srcenvid srcva dstenvid dstva perm s)"
  unfolding sys_page_map_def
proof (intro with_env_keeps keeps_if with_pgdir_keeps assms; (simp add: assms; fail)?)
  fix e e' spd
  assume e: "e < NENV" "e' < NENV" and va: "\<not> (bad_va srcva \<or> bad_va dstva)" and spd: "env_pgdir (envs s e) = Some spd"
  have ins: "keeps kinv (with_pgdir e' (\<lambda>dpd s. bindR (page_insert dpd pp dstva perm s) (\<lambda>(ret, s).
      if ret < 0 then Inr (ret, s) else Inr (0, s))) s)"
    if "page_lookup spd srcva s = Inr (Some (pp, pte), s)" for pp pte
    using va that assms(2,3)
    by (intro with_pgdir_keeps keeps_bind keeps_mono [OF page_insert_keeps [OF assms(1) e(2) _ _ e(1) spd]])
      (auto intro: good_va simp: refs_ok_def)
  show "keeps kinv (bindR (page_lookup spd srcva s) (\<lambda>(r, s).
      case r of None \<Rightarrow> Inr (- E_INVAL, s)
      | Some (pp, pte) \<Rightarrow> with_pgdir e' (\<lambda>dpd s. bindR (page_insert dpd pp dstva perm s) (\<lambda>(ret, s).
          if ret < 0 then Inr (ret, s) else Inr (0, s))) s))"
    using ins by (intro page_lookup_bind) (auto simp: assms(1) split: option.split)
qed

lemma sys_exofork_keeps:
  assumes "kinv s"
  shows "keeps kinv (sys_exofork s)"
  unfolding sys_exofork_def
proof (intro with_curenv_keeps assms)
  fix c
  assume c: "curenv s = Some c"
  from assms obtain K where K: "kernel_inv K s" by (auto simp: kinv_def)
  then show "keeps kinv (bindR (env_alloc (env_id (envs s c)) s) (\<lambda>((ret, e), s).
      if ret < 0 then Inr (ret, s)
      else case e of
        None \<Rightarrow> Inl (Undefined ''null env'')
      | Some e \<Rightarrow>
          let tf = env_tf (envs s c);
              s = upd_env e (\<lambda>v. v\<lparr>env_status := ENV_NOT_RUNNABLE,
                     env_tf := tf\<lparr>tf_regs := (tf_regs tf)\<lparr>reg_eax := 0\<rparr>\<rparr>\<rparr>) s
          in Inr (sint (env_id (envs s e)), s)))"
  proof (cases rule: env_alloc_spec [where parent = "env_id (envs s c)"])
    case (ok e pd s' K')
    have "curenv s' = curenv s" "env_status (envs s' e) = ENV_RUNNABLE"
      using ok(2) by (auto simp: env_created_def curenv_def)
    with ok assms have "kinv (upd_env e (\<lambda>v. v\<lparr>env_status := ENV_NOT_RUNNABLE,
        env_tf := (env_tf (envs s' c))\<lparr>tf_regs := (tf_regs (env_tf (envs s' c)))\<lparr>reg_eax := 0\<rparr>\<rparr>\<rparr>) s')"
      by (intro kinv_upd_env) (auto simp: kinv_def)
    with ok(1) show ?thesis by (simp add: Let_def)
  qed (use assms in simp_all)
qed

lemma user_perm_syscall: "perm AND NOT PTE_SYSCALL = 0 \<Longrightarrow> perm AND NOT 0xFFF = (0 :: u32)"
  using user_perm_low [of perm] by (simp add: user_perm_def bit.conj_disj_distrib2)

lemma kinv_deliver: "kinv s \<Longrightarrow> env_status (envs s d) \<noteq> ENV_FREE \<Longrightarrow> kinv (ipc_deliver c d value srcva perm s)"
  unfolding ipc_deliver_def by (erule kinv_upd_env) simp_all

lemma envid2env_live:
  "envid2env envid p s = Inr ((r, Some d), s') \<Longrightarrow> envid \<noteq> 0 \<Longrightarrow> env_status (envs s d) \<noteq> ENV_FREE"
  by (auto simp: envid2env_def Let_def split: if_splits option.splits)

lemma ipc_send_keeps:
  assumes "kinv s" "refs_ok s" "d < NENV" "env_status (envs s d) \<noteq> ENV_FREE"
    and "c < NENV" "env_pgdir (envs s c) = Some cpd" "page_lookup cpd srcva s = Inr (pp, s)"
  shows "keeps kinv (ipc_send c d value srcva perm pp s)"
proof -
  have ins: "keeps (\<lambda>t. kinv t \<and> envs t = envs s) (ipc_transfer d srcva perm pp s)"
    if ok: "srcva < UTOP \<longrightarrow> ipc_page_ok srcva perm pp s"
  proof (cases "env_ipc_dstva (envs s d) < UTOP \<and> srcva < UTOP")
    case True
    with ok have "perm AND NOT PTE_SYSCALL = 0" "pp \<noteq> None"
      by (auto simp: ipc_page_ok_def split: option.splits)
    then obtain p pte where p: "pp = Some (p, pte)" "perm AND NOT 0xFFF = 0"
      using user_perm_syscall by auto
    have "keeps (\<lambda>t. kinv t \<and> envs t = envs s) (page_insert dpd p (env_ipc_dstva (envs s d)) perm s)"
      if "env_pgdir (envs s d) = Some dpd" for dpd
      using True assms(2,7) p
      by (intro page_insert_keeps [OF assms(1,3) that _ assms(5,6)]) (simp_all add: below_UTOP_iff refs_ok_def del: UTOP_def)
    with True p(1) show ?thesis
      by (auto simp: ipc_transfer_def with_pgdir_def split: option.split)
  qed (use assms(1) in \<open>auto simp: ipc_transfer_def\<close>)
  have "keeps kinv (bindR (ipc_transfer d srcva perm pp s) (\<lambda>(r, s).
      if r < 0 then Inr (- E_NO_MEM, s) else Inr (0, ipc_deliver c d value srcva perm s)))"
    if ok: "srcva < UTOP \<longrightarrow> ipc_page_ok srcva perm pp s"
    using ins [OF ok] assms(4)
    by (cases "ipc_transfer d srcva perm pp s") (auto intro!: kinv_deliver split: prod.splits)
  with assms(1) show ?thesis
    unfolding ipc_send_def by auto
qed

lemma sys_ipc_try_send_keeps:
  assumes "kinv s" "refs_ok s"
  shows "keeps kinv (sys_ipc_try_send envid value srcva perm s)"
  unfolding sys_ipc_try_send_def
proof (intro with_curenv_keeps with_pgdir_keeps page_lookup_bind assms)
  fix c cpd r
  assume c: "c < NENV" "env_pgdir (envs s c) = Some cpd" "curenv s = Some c" and l: "page_lookup cpd srcva s = Inr (r, s)"
  from assms(1) obtain K where K: "kernel_inv K s" by (auto simp: kinv_def)
  have E: "e < NENV \<and> env_status (envs s e) \<noteq> ENV_FREE" if "envid2env envid False s = Inr ((ret, Some e), s')" for ret e s'
    using that envid2env_slot [OF assms(1) that] envid2env_live [OF that] kinv_pd(2) [OF K c(1,2)] c(3)
    by (cases "envid = 0") (auto simp: envid2env_def)
  show "keeps kinv (case (r, s) of (pp, s) \<Rightarrow> bindR (envid2env envid False s) (\<lambda>((ret, d), s).
        if ret < 0 then Inr (- E_BAD_ENV, s)
        else case d of None \<Rightarrow> Inl (Undefined ''null env'')
        | Some d \<Rightarrow> ipc_send c d value srcva perm pp s))"
  proof (cases "envid2env envid False s")
    case (Inl x)
    then show ?thesis by (auto dest: envid2env_err)
  next
    case (Inr y)
    then obtain ret d where y: "y = ((ret, d), s)"
      by (cases y) (auto dest: envid2env_state)
    show ?thesis
      using Inr y E assms(1) ipc_send_keeps [OF assms _ _ c(1,2) l] by (auto split: option.split)
  qed
qed

text \<open>The environment a system call runs for is in use.\<close>

definition cur_live :: "kstate \<Rightarrow> bool" where
  "cur_live s \<longleftrightarrow> (\<forall>c. curenv s = Some c \<longrightarrow> env_status (envs s c) \<noteq> ENV_FREE)"

lemma with_env_live:
  assumes "kinv s" "cur_live s" "\<And>e. e < NENV \<Longrightarrow> env_status (envs s e) \<noteq> ENV_FREE \<Longrightarrow> keeps kinv (f e s)"
  shows "keeps kinv (with_env envid p f s)"
proof (cases "envid2env envid p s")
  case (Inl x)
  then show ?thesis by (auto simp: with_env_def dest: envid2env_err)
next
  case (Inr y)
  then obtain r d where y: "y = ((r, d), s)"
    by (cases y) (auto dest: envid2env_state)
  have "env_status (envs s e) \<noteq> ENV_FREE" if "d = Some e" for e
    using Inr y that assms(2) envid2env_live [of envid p s r e s]
    by (cases "envid = 0") (auto simp: envid2env_def cur_live_def)
  then show ?thesis
    using Inr y assms(1,3) envid2env_slot [OF assms(1), of envid p r _ s] by (auto simp: with_env_def split: option.split)
qed

lemma sys_env_set_keeps:
  assumes "kinv s" "cur_live s"
  shows "keeps kinv (sys_env_set_status envid w s)" "keeps kinv (sys_env_set_pgfault_upcall envid func s)"
proof -
  show "keeps kinv (sys_env_set_status envid w s)"
    unfolding sys_env_set_status_def
    by (intro with_env_live assms) (auto intro!: kinv_upd_env simp: assms status_of_def split: option.split)
  show "keeps kinv (sys_env_set_pgfault_upcall envid func s)"
    unfolding sys_env_set_pgfault_upcall_def
    by (intro with_env_live assms) (auto intro!: kinv_upd_env assms)
qed

lemma sys_cputs_keeps: "kinv s \<Longrightarrow> keeps kinv (sys_cputs va len s)"
  unfolding sys_cputs_def by (intro with_curenv_keeps keeps_bind user_mem_assert_keeps) (auto intro!: keeps)

lemma sys_env_destroy_keeps: "kinv s \<Longrightarrow> keeps kinv (sys_env_destroy envid s)"
  unfolding sys_env_destroy_def
  by (intro with_env_keeps with_curenv_keeps keeps_bind keeps_if cprintf_keeps)
    (auto intro!: keeps env_destroy_keeps)

lemma sys_ipc_recv_keeps: "kinv s \<Longrightarrow> cur_live s \<Longrightarrow> keeps kinv (sys_ipc_recv dstva s)"
  unfolding sys_ipc_recv_def Let_def
  by (intro with_curenv_keeps keeps_if keeps_bind sched_yield_keeps kinv_upd_env) (auto simp: cur_live_def)

lemma sys_send_packet_keeps: "kinv s \<Longrightarrow> keeps kinv (sys_send_packet va len s)"
  unfolding sys_send_packet_def
  by (intro with_curenv_keeps keeps_bind user_mem_check_keeps keeps_if)
    (auto intro!: keeps kload_keeps kinv_nic split: prod.split)

lemmas handlers_keep = sys_cputs_keeps sys_env_destroy_keeps sys_exofork_keeps sys_env_set_keeps sys_page_map_keeps
  sys_page_unmap_keeps sys_page_alloc_keeps sys_ipc_recv_keeps sys_ipc_try_send_keeps sys_send_packet_keeps

section \<open>Sharing a page\<close>

lemma page_lookup_aspace:
  assumes "kernel_inv K s" "K pd = KPD" "pdx va < 955" "aspace s pd va = Some (p, fl)"
  shows "page_lookup pd va s = Inr (Some (p, Some (frame (pmem s pd (pdx va)), ptx va)), s)"
  using page_lookup_eq [OF kernel_invD(1) [OF assms(1)] assms(2,3)] assms(4)
  by (auto simp: aspace_def split: option.splits if_splits)

text \<open>A page mapped in one address space is inserted into another one.\<close>

lemma page_insert_found:
  assumes K: "kernel_inv K s" and pd: "K spd = KPD" "K dpd = KPD" and va: "pdx srcva < 955" "pdx dstva < 955"
    and l: "page_lookup spd srcva s = Inr (Some (p, pte), s)" and refs: "refs_ok s" and perm: "perm AND NOT 0xFFF = 0"
  shows "page_insert dpd p dstva perm s = Inr (- E_NO_MEM, s) \<and> (\<forall>q. K q \<noteq> KFree) \<or>
      (\<exists>s' K'. page_insert dpd p dstva perm s = Inr (0, s') \<and> kernel_inv K' s' \<and> envs s' = envs s \<and>
        (\<forall>pd' va'. K pd' = KPD \<and> va' < UTOP \<longrightarrow> aspace s' pd' va' =
           (if pd' = dpd \<and> PGNUM va' = PGNUM dstva then Some (p, perm OR PTE_P) else aspace s pd' va')))"
proof -
  from page_lookup_kinv(2) [OF K pd(1) va(1) l] have "K p = KData" .
  from K pd(2) va(2) this refs [unfolded refs_ok_def, rule_format] perm show ?thesis
  proof (cases rule: page_insert_kernel_inv)
    case nomem
    with no_free_page [OF kernel_invD(1) [OF K]] show ?thesis by blast
  next
    case (ok s' K')
    with vm_frame_sel(3) [OF ok(3)] show ?thesis
      unfolding below_UTOP_iff by blast
  qed
qed

section \<open>A state to call from\<close>

lemma one_env_refs: "unat (pp_ref (pages one_env p)) \<le> 1"
proof -
  have pb: "pages boot_state = (\<lambda>p. \<lparr>pp_link = if 2 \<le> p \<and> p \<le> 13 then Some (p + 1) else None, pp_ref = 0\<rparr>)"
    "npages boot_state = 16"
    by (simp_all add: boot_state_def env_init_fields)
  show ?thesis
    unfolding one_env_def run_state_def
    by (simp add: env_alloc_def boot_lists env_setup_vm_def page_alloc_def page_pop_def pb Let_def page2kva_def KADDR_def
        PGNUM_page2pa env_pop_def)
qed

lemma one_run_ready: "kinv one_run" "cur_live one_run" "refs_ok one_run"
proof -
  show "kinv one_run"
    using one_run by (auto simp: kinv_def)
  show "cur_live one_run"
    using one_run by (simp add: cur_live_def)
  have "pages one_run = pages one_env"
    by (simp add: one_run_def)
  moreover have "pp_ref (pages one_env p) \<noteq> 0xFFFF" for p
    using one_env_refs [of p] by auto
  ultimately show "refs_ok one_run"
    by (simp add: refs_ok_def)
qed

lemma one_run_self: "envid2env 0 p one_run = Inr ((0, Some 0), one_run)"
  by (simp add: envid2env_def one_run)

lemma one_run_mem: "pmem one_run q j = (if q = 2 \<and> j = pdx UVPT then page2pa 2 OR PTE_P OR PTE_U else 0)" "npages one_run = 16"
proof -
  have pb: "pages boot_state = (\<lambda>p. \<lparr>pp_link = if 2 \<le> p \<and> p \<le> 13 then Some (p + 1) else None, pp_ref = 0\<rparr>)"
    "npages boot_state = 16" "pmem boot_state = (\<lambda>_ _. 0)"
    by (simp_all add: boot_state_def env_init_fields bss_state_def)
  have "pmem one_env q j = (if q = 2 \<and> j = pdx UVPT then page2pa 2 OR PTE_P OR PTE_U else 0)" "npages one_env = 16"
    unfolding one_env_def run_state_def
    by (simp_all add: env_alloc_def boot_lists env_setup_vm_def page_alloc_def page_pop_def pb Let_def page2kva_def KADDR_def
        PGNUM_page2pa env_pop_def pmem_set_word)
  then show "pmem one_run q j = (if q = 2 \<and> j = pdx UVPT then page2pa 2 OR PTE_P OR PTE_U else 0)" "npages one_run = 16"
    by (simp_all add: one_run_def)
qed

lemma one_run_uvpt: "page_lookup 2 UVPT one_run = Inr (None, one_run)"
  using one_run_mem
  by (simp add: page_lookup_def pgdir_walk_def KADDR_def load_pte_def page2pa_def PTE_ADDR_def PGNUM_def PDX_def PTX_def)

lemma one_run_unmapped: "translate one_run d False 0x800000 = None"
  by (simp add: translate_def one_run_mem Let_def PDX_def)

section \<open>The first byte of a string\<close>

lemma aligned_round:
  assumes "va mod PGSIZE = 0"
  shows "ROUNDUP va PGSIZE = va" "ROUNDDOWN va PGSIZE = va"
proof -
  show "ROUNDDOWN va PGSIZE = va"
    using assms by (simp add: ROUNDDOWN_def)
  have m: "unat va mod 4096 = 0"
    using assms by (simp add: unat_mod_distrib word_unat_eq_iff)
  then obtain k where k: "unat va = 4096 * k" by auto
  then have "unat (va + 4095) = unat va + 4095"
    using u32_less [of va] by (simp add: unat_word_ariths(1))
  then have "unat ((va + 4095) mod 4096) = 4095"
    using m by (simp add: unat_mod_distrib mod_add_eq [symmetric])
  then have "(va + 4095) mod 4096 = 4095"
    by (simp add: word_unat_eq_iff)
  then show "ROUNDUP va PGSIZE = va"
    by (simp add: ROUNDUP_def ROUNDDOWN_def add.commute)
qed

lemma print_chars_fault:
  "str_at rd p i s = Inl x \<Longrightarrow> print_chars putch rd p alt 4294967296 i prec w s = Inl x"
  using print_chars.simps(2) [of putch rd p alt 4294967295 i prec w s] by simp

lemma syscall_keeps:
  assumes "kinv s" "cur_live s" "refs_ok s" "no \<noteq> 9" "no \<noteq> 16" "no = 5 \<longrightarrow> a5 AND NOT 0xFFF = 0"
  shows "keeps kinv (syscall no a1 a2 a3 a4 a5 s)"
  unfolding syscall_def
  by (intro keeps_if handlers_keep assms)
    (use assms in \<open>auto simp: sys_cgetc_def sys_getenvid_def sys_yield_def sys_time_msec_def
      intro!: keeps kinv_cons with_curenv_keeps split: prod.split\<close>)

section \<open>Properties\<close>

text \<open>C17. System calls keep the kernel consistent: from a state that satisfies the kernel invariant, whatever
  the number and arguments of the call, the invariant holds again where the call returns, switches to
  another environment or halts. Excluded are \<open>sys_page_map\<close> with permission bits outside the low twelve,
  which that call does not reject, and the two calls that store to user memory through unchecked
  pointers (9 and 16).\<close>

theorem syscall_invariant:
  assumes "kinv s" "cur_live s" "refs_ok s" "no \<noteq> 9" "no \<noteq> 16" "no = 5 \<longrightarrow> a5 AND NOT 0xFFF = 0"
  shows "keeps kinv (syscall no a1 a2 a3 a4 a5 s)"
  using assms by (rule syscall_keeps)

theorem syscall_invariant_witness:
  "kinv one_run \<and> cur_live one_run \<and> refs_ok one_run \<and> keeps kinv (syscall 4 0 0x800000 7 0 0 one_run)"
  using one_run_ready syscall_invariant [of one_run 4 0 0 "0x800000" 7 0] by simp



text \<open>C19. \<open>sys_page_map\<close>, for two environments the caller may change: the page mapped at the source address
  becomes mapped at the destination with the permissions asked for, whatever the permissions of
  the source, and nothing else changes; a bad address or an empty source slot gives \<open>-E_INVAL\<close>, an exhausted
  memory \<open>-E_NO_MEM\<close>; a source address without a page table makes the kernel read through a null pointer.\<close>

theorem sys_page_map_correct:
  assumes K: "kernel_inv K s" and refs: "refs_ok s" and perm: "perm AND NOT 0xFFF = 0"
    and e: "envid2env srcenvid True s = Inr ((0, Some e), s)" "e < NENV" "env_pgdir (envs s e) = Some spd"
    and d: "envid2env dstenvid True s = Inr ((0, Some d), s)" "d < NENV" "env_pgdir (envs s d) = Some dpd"
  shows "sys_page_map srcenvid srcva dstenvid dstva perm s =
      (if bad_va srcva \<or> bad_va dstva \<or> (\<exists>w. pte_of s spd srcva = Some w) \<and> aspace s spd srcva = None
       then Inr (- E_INVAL, s)
       else if pte_of s spd srcva = None then Inl (Undefined ''null pte'')
       else page_insert dpd (fst (the (aspace s spd srcva))) dstva perm s) \<and>
    (\<forall>p fl. \<not> bad_va srcva \<and> \<not> bad_va dstva \<and> aspace s spd srcva = Some (p, fl) \<longrightarrow>
      page_insert dpd p dstva perm s = Inr (- E_NO_MEM, s) \<and> (\<forall>q. K q \<noteq> KFree) \<or>
      (\<exists>s' K'. page_insert dpd p dstva perm s = Inr (0, s') \<and> kernel_inv K' s' \<and> envs s' = envs s \<and>
        (\<forall>pd' va'. K pd' = KPD \<and> va' < UTOP \<longrightarrow> aspace s' pd' va' =
           (if pd' = dpd \<and> PGNUM va' = PGNUM dstva then Some (p, perm OR PTE_P) else aspace s pd' va'))))"
proof -
  note I = kernel_invD [OF K] and spd = kinv_pd(1) [OF K e(2,3)] and dpd = kinv_pd(1) [OF K d(2,3)]
  have ins: "page_insert dpd p dstva perm s = Inr (- E_NO_MEM, s) \<and> (\<forall>q. K q \<noteq> KFree) \<or>
      (\<exists>s' K'. page_insert dpd p dstva perm s = Inr (0, s') \<and> kernel_inv K' s' \<and> envs s' = envs s \<and>
        (\<forall>pd' va'. K pd' = KPD \<and> va' < UTOP \<longrightarrow> aspace s' pd' va' =
           (if pd' = dpd \<and> PGNUM va' = PGNUM dstva then Some (p, perm OR PTE_P) else aspace s pd' va')))"
    if "\<not> bad_va srcva" "\<not> bad_va dstva" "aspace s spd srcva = Some (p, fl)" for p fl
    using page_insert_found [OF K spd dpd good_va good_va page_lookup_aspace [OF K spd good_va] refs perm] that by blast
  have "sys_page_map srcenvid srcva dstenvid dstva perm s =
      (if bad_va srcva \<or> bad_va dstva \<or> (\<exists>w. pte_of s spd srcva = Some w) \<and> aspace s spd srcva = None
       then Inr (- E_INVAL, s)
       else if pte_of s spd srcva = None then Inl (Undefined ''null pte'')
       else page_insert dpd (fst (the (aspace s spd srcva))) dstva perm s)"
  proof (cases "bad_va srcva \<or> bad_va dstva")
    case True
    then show ?thesis using e(1) d(1) by (auto simp: sys_page_map_def with_env_def)
  next
    case False
    then have va: "\<not> bad_va srcva" "\<not> bad_va dstva" by auto
    note L = page_lookup_eq [OF I(1) spd good_va [OF va(1)]]
    show ?thesis
    proof (cases "aspace s spd srcva")
      case None
      then show ?thesis
        using va e d L by (auto simp: sys_page_map_def with_env_def with_pgdir_def aspace_def split: option.splits if_splits)
    next
      case (Some x)
      obtain p fl where x: "x = (p, fl)" by (cases x)
      have "bindR (page_insert dpd p dstva perm s) (\<lambda>(ret, s). if ret < 0 then Inr (ret, s) else Inr (0, s)) =
          page_insert dpd p dstva perm s"
        using ins [OF va Some [unfolded x]] by auto
      then show ?thesis
        using va e d L Some x by (auto simp: sys_page_map_def with_env_def with_pgdir_def aspace_def split: option.splits if_splits)
    qed
  qed
  with ins show ?thesis by blast
qed

theorem sys_page_map_correct_witness:
  "kernel_inv one_env_kinds one_run \<and> refs_ok one_run \<and>
   sys_page_map 0 0x800000 0 0x900000 7 one_run =
      (if bad_va 0x800000 \<or> bad_va 0x900000 \<or> (\<exists>w. pte_of one_run 2 0x800000 = Some w) \<and> aspace one_run 2 0x800000 = None
       then Inr (- E_INVAL, one_run)
       else if pte_of one_run 2 0x800000 = None then Inl (Undefined ''null pte'')
       else page_insert 2 (fst (the (aspace one_run 2 0x800000))) 0x900000 7 one_run)"
  using one_run(1,6) one_run_ready(3)
    sys_page_map_correct [OF one_run(1) one_run_ready(3) _ one_run_self _ one_run(6) one_run_self _ one_run(6), of 7 "0x800000" "0x900000"]
  by simp



text \<open>C21. \<open>sys_exofork\<close>: the child is a fresh environment with an empty address space, not runnable, with the
  registers of the parent except that its call returns 0; the parent gets the positive identifier of the
  child, under which it may address it; or the call fails and nothing changes.\<close>

theorem sys_exofork_correct:
  assumes K: "kernel_inv K s" and c: "curenv s = Some c" "env_status (envs s c) \<noteq> ENV_FREE"
  shows "(\<exists>r \<in> {- E_NO_FREE_ENV, - E_NO_MEM}. sys_exofork s = Inr (r, s)) \<or>
    (\<exists>e pd s' K'. sys_exofork s = Inr (sint (env_id (envs s' e)), s') \<and> kernel_inv K' s' \<and> e \<noteq> c \<and>
      0 < sint (env_id (envs s' e)) \<and> env_status (envs s' e) = ENV_NOT_RUNNABLE \<and>
      env_tf (envs s' e) = (env_tf (envs s c))\<lparr>tf_regs := (tf_regs (env_tf (envs s c)))\<lparr>reg_eax := 0\<rparr>\<rparr> \<and>
      env_pgdir (envs s' e) = Some pd \<and> (\<forall>va. va < UTOP \<longrightarrow> aspace s' pd va = None) \<and>
      envid2env (env_id (envs s' e)) True s' = Inr ((0, Some e), s') \<and>
      (\<forall>q. q \<noteq> e \<longrightarrow> envs s' q = envs s q))"
  using K
proof (cases rule: env_alloc_spec [where parent = "env_id (envs s c)"])
  case (ok e pd u K')
  let ?id = "next_env_id e (env_id (envs s e))"
  note C = ok(2) [unfolded env_created_def]
  have ne: "e \<noteq> c" using C c(2) by auto
  have id: "ENVX ?id = e" "0 < sint ?id"
    using next_env_id [of e] C by auto
  then have nz: "?id \<noteq> 0" by auto
  have ue: "envs u e = (envs s e)\<lparr>env_pgdir := Some pd, env_id := ?id, env_parent_id := env_id (envs s c),
      env_type := ENV_TYPE_USER, env_status := ENV_RUNNABLE, env_runs := 0, env_tf := user_tf,
      env_pgfault_upcall := 0, env_ipc_recving := False\<rparr>" "\<And>q. q \<noteq> e \<Longrightarrow> envs u q = envs s q" "curenv u = Some c"
    using C c(1) by (auto simp: curenv_def)
  define tf where "tf = (env_tf (envs s c))\<lparr>tf_regs := (tf_regs (env_tf (envs s c)))\<lparr>reg_eax := 0\<rparr>\<rparr>"
  define s' where "s' = upd_env e (\<lambda>v. v\<lparr>env_status := ENV_NOT_RUNNABLE, env_tf := tf\<rparr>) u"
  have r: "sys_exofork s = Inr (sint (env_id (envs s' e)), s')"
    using ok(1) c(1) ue(2) [of c] ne by (simp add: sys_exofork_def with_curenv_def Let_def s'_def tf_def)
  have inv: "kernel_inv K' s'"
    unfolding s'_def by (rule kernel_inv_upd_env [OF ok(3)]) (simp_all add: ue(1))
  have E: "envid2env ?id True s' = Inr ((0, Some e), s')"
    using nz id(1) ue ne by (simp add: envid2env_def s'_def curenv_def)
  have "\<forall>va. va < UTOP \<longrightarrow> aspace s' pd va = None"
    using C aspace_cong [of s' u] by (simp add: s'_def)
  with r inv E ne id(2) ue show ?thesis
    by (intro disjI2 exI [of _ e] exI [of _ pd] exI [of _ s'] exI [of _ K']) (simp add: s'_def tf_def)
qed (use c(1) in \<open>simp_all add: sys_exofork_def with_curenv_def\<close>)

theorem sys_exofork_correct_witness:
  "kernel_inv one_env_kinds one_run \<and> curenv one_run = Some 0 \<and>
   ((\<exists>r \<in> {- E_NO_FREE_ENV, - E_NO_MEM}. sys_exofork one_run = Inr (r, one_run)) \<or>
    (\<exists>e pd s' K'. sys_exofork one_run = Inr (sint (env_id (envs s' e)), s') \<and> kernel_inv K' s' \<and> e \<noteq> 0 \<and>
      0 < sint (env_id (envs s' e)) \<and> env_status (envs s' e) = ENV_NOT_RUNNABLE \<and>
      env_tf (envs s' e) = (env_tf (envs one_run 0))\<lparr>tf_regs := (tf_regs (env_tf (envs one_run 0)))\<lparr>reg_eax := 0\<rparr>\<rparr> \<and>
      env_pgdir (envs s' e) = Some pd \<and> (\<forall>va. va < UTOP \<longrightarrow> aspace s' pd va = None) \<and>
      envid2env (env_id (envs s' e)) True s' = Inr ((0, Some e), s') \<and>
      (\<forall>q. q \<noteq> e \<longrightarrow> envs s' q = envs one_run q)))"
  using one_run(1,2,5) sys_exofork_correct [OF one_run(1,2)] by simp



text \<open>C23. \<open>sys_cputs\<close> lets a program stop the kernel: for an empty string at a page aligned address that is
  not mapped the check of the pointer looks at no page, and printing still reads the first byte, which
  faults in kernel mode.\<close>

theorem sys_cputs_empty_string_faults:
  assumes "curenv s = Some c" "env_pgdir (envs s c) = Some pd" "va mod PGSIZE = 0" "va \<noteq> 0"
    and "translate s (cr3 (cpus s (cpunum s))) False va = None"
  shows "sys_cputs va 0 s = Inl (Panic ''page fault in kernel mode'')"
proof -
  have a: "user_mem_assert c va 0 (PTE_U OR PTE_P) s = Inr ((), s)"
    using assms(2) aligned_round [OF assms(3)] unfolding user_mem_assert_def user_mem_check_def
    by (simp add: pages_between_def Let_def del: PGSIZE_def)
  have f: "kload8 va s = Inl (Panic ''page fault in kernel mode'')"
    using assms(5) by (simp add: kload8_def)
  have "cprintf ''%.*s'' [VInt 0, VPtr va] s = Inl (Panic ''page fault in kernel mode'')"
    using f assms(4) by (simp add: cprintf_def vprintfmt_Cons reswitch.simps set_flag_def is_digit_def spec0_def
        convert_def process_precision_def print_str_def Let_def print_chars_fault)
  with a assms(1) show ?thesis by (simp add: sys_cputs_def with_curenv_def)
qed

theorem sys_cputs_empty_string_faults_witness:
  "env_pgdir (envs one_run 0) = Some 2 \<and> translate one_run (cr3 (cpus one_run (cpunum one_run))) False 0x800000 = None \<and>
   sys_cputs 0x800000 0 one_run = Inl (Panic ''page fault in kernel mode'')"
proof -
  show ?thesis
    using one_run(2,6) one_run_unmapped sys_cputs_empty_string_faults [of one_run 0 2 "0x800000"] by simp
qed

text \<open>The clock does not wrap unnoticed: \<open>time_msec\<close> is ten times the number of ticks as long as that fits a
  word, and the tick that would exceed it makes \<open>time_tick\<close> panic.\<close>

lemma time_tick_correct:
  assumes "unat (ticks s) \<le> 429496729"
  shows "unat (time_msec s) = 10 * unat (ticks s) \<and>
    time_tick s = (if unat (ticks s) < 429496729 then Inr ((), s\<lparr>ticks := ticks s + 1\<rparr>)
      else Inl (Panic ''time_tick: time overflowed''))"
proof -
  let ?t = "unat (ticks s)"
  have inc: "unat (ticks s + 1) = ?t + 1"
    using assms by (simp add: unat_word_ariths(1))
  have m: "unat (w * 10) = unat w * 10 mod 2 ^ 32" for w :: u32
    by (simp add: unat_word_ariths(2))
  have "(ticks s + 1) * 10 < ticks s + 1 \<longleftrightarrow> (?t + 1) * 10 mod 2 ^ 32 < ?t + 1"
    unfolding word_less_nat_alt m inc ..
  also have "\<dots> \<longleftrightarrow> \<not> ?t < 429496729"
  proof (cases "?t < 429496729")
    case True
    then have "(?t + 1) * 10 mod 2 ^ 32 = (?t + 1) * 10" by (intro mod_less) simp
    with True show ?thesis by simp
  next
    case False
    with assms have "?t = 429496729" by simp
    then show ?thesis by simp
  qed
  finally show ?thesis
    using assms by (auto simp: time_tick_def time_msec_def m Let_def)
qed

end
