(* ===== verification/Uaccess.thy ===== *)
theory Uaccess
  imports Sched
begin

text \<open>
  Loads and stores of the kernel at user addresses: bytes and words read back what was written, a
  store to a user page keeps the kernel invariant, and user pages that passed \<open>user_mem_check\<close> can be
  accessed without a fault.
\<close>

unbundle bit_operations_syntax

section \<open>Bytes of a word\<close>

lemma bit_byte:
  fixes w :: u32 and b :: u8
  assumes "k < 4" "j < 4"
  shows "(ucast (drop_bit (8 * j) ((w AND NOT (push_bit (8 * k) 0xFF)) OR push_bit (8 * k) (ucast b))) :: u8) =
    (if j = k then b else ucast (drop_bit (8 * j) w))"
proof -
  have m: "(0xFF :: u32) = mask 8" by (simp add: mask_eq_exp_minus_1)
  show ?thesis
  proof (rule bit_word_eqI)
    fix n
    assume n: "n < LENGTH(8)"
    have "8 * k \<le> 8 * j + n \<and> 8 * j + n - 8 * k < 8 \<longleftrightarrow> j = k"
      using n assms by auto
    then show "bit (ucast (drop_bit (8 * j) ((w AND NOT (push_bit (8 * k) 0xFF)) OR push_bit (8 * k) (ucast b))) :: u8) n =
      bit (if j = k then b else ucast (drop_bit (8 * j) w)) n"
      using n assms unfolding m by (auto simp: bit_simps dest: bit_imp_le_length)
  qed
qed

lemma get_put_byte:
  "get_byte (put_byte f i b s) f' j = (if f' = f \<and> j = i then b else get_byte s f' j)"
proof (cases "f' = f \<and> j div 4 = i div 4")
  case True
  then have "j = i \<longleftrightarrow> j mod 4 = i mod 4"
    by (metis div_mult_mod_eq)
  with True show ?thesis
    using bit_byte [of "i mod 4" "j mod 4" "pmem s f (i div 4)" b]
    by (simp add: get_byte_def put_byte_def Let_def pmem_set_word)
next
  case False
  then show ?thesis
    by (auto simp: get_byte_def put_byte_def Let_def pmem_set_word)
qed

lemma le_word_bytes: "le_word (word_bytes w) = w"
proof (rule bit_word_eqI)
  fix n
  assume n: "n < LENGTH(32)"
  show "bit (le_word (word_bytes w)) n = bit w n"
    using n by (cases "24 \<le> n"; cases "16 \<le> n") (auto simp: word_bytes_def bit_simps dest: bit_imp_le_length)
qed

section \<open>Stores to user pages\<close>

lemma translate_user:
  assumes inv: "vm_inv K x s" and pd: "K pd = KPD" and va: "pdx va < 955" and t: "translate s pd wr va = Some f"
  shows "K f = KData"
proof -
  have p: "present (pmem s pd (pdx va))" "present (pmem s (frame (pmem s pd (pdx va))) (ptx va))"
    "f = frame (pmem s (frame (pmem s pd (pdx va))) (ptx va))"
    using t by (auto simp: translate_def Let_def split: if_splits)
  from inv pd va have "K (frame (pmem s pd (pdx va))) = KPT pd (pdx va)"
    by (cases rule: user_pde_cases) (use p(1) in auto)
  then show ?thesis
    using table_okD(5) [OF inv _ ptx_less p(2)] p(3) by simp
qed

lemma put_byte_vm:
  assumes "vm_inv K x s" "K f = KData"
  shows "vm_inv K x (put_byte f i b s)"
proof -
  let ?g = "(pmem s f)(i div 4 := (pmem s f (i div 4) AND NOT (push_bit (8 * (i mod 4)) 0xFF)) OR push_bit (8 * (i mod 4)) (ucast b))"
  have "put_byte f i b s = s\<lparr>pmem := (pmem s)(f := ?g)\<rparr>"
    by (simp add: put_byte_def set_word_def Let_def)
  then show ?thesis
    using vm_inv_write_page [OF assms(1), of f ?g] assms(2) by simp
qed

lemma put_byte_fields [simp]:
  "npages (put_byte f i b s) = npages s" "pages (put_byte f i b s) = pages s"
  "page_free_list (put_byte f i b s) = page_free_list s" "kern_pgdir (put_byte f i b s) = kern_pgdir s"
  "envs (put_byte f i b s) = envs s" "env_free_list (put_byte f i b s) = env_free_list s"
  "cpus (put_byte f i b s) = cpus s" "cpunum (put_byte f i b s) = cpunum s"
  "kernel_lock (put_byte f i b s) = kernel_lock s"
  by (simp_all add: put_byte_def Let_def)

lemma put_byte_mem: "q \<noteq> f \<Longrightarrow> pmem (put_byte f i b s) q = pmem s q"
  by (auto simp: put_byte_def set_word_def Let_def)

lemma translate_put_byte:
  assumes inv: "vm_inv K x s" and pd: "K pd = KPD" and va: "pdx va < 955" and f: "K f = KData"
  shows "translate (put_byte f i b s) pd wr va = translate s pd wr va"
proof -
  have a: "pmem (put_byte f i b s) pd = pmem s pd"
    using pd f by (intro put_byte_mem) auto
  have t: "pmem (put_byte f i b s) (frame (pmem s pd (pdx va))) = pmem s (frame (pmem s pd (pdx va)))"
    if "present (pmem s pd (pdx va))"
  proof -
    from inv pd va have "K (frame (pmem s pd (pdx va))) = KPT pd (pdx va)"
      by (cases rule: user_pde_cases) (use that in auto)
    with f show ?thesis by (intro put_byte_mem) auto
  qed
  show ?thesis
    using t by (cases "present (pmem s pd (pdx va))") (auto simp: translate_def Let_def a)
qed

text \<open>
  The state of kernel code that runs for an environment: the invariant holds, and \<open>cr3\<close> is the page
  directory of the current environment.
\<close>

definition kcur :: "(nat \<Rightarrow> kind) \<Rightarrow> nat \<Rightarrow> nat \<Rightarrow> kstate \<Rightarrow> bool" where
  "kcur K c pd s \<longleftrightarrow> kernel_inv K s \<and> curenv s = Some c \<and> c < NENV \<and> env_pgdir (envs s c) = Some pd \<and>
    K pd = KPD \<and> cr3 (cpus s (cpunum s)) = pd"

lemma kcur_kinv: "kcur K c pd s \<Longrightarrow> kinv s"
  by (auto simp: kcur_def kinv_def)

lemma put_byte_kcur:
  assumes "kcur K c pd s" "K f = KData"
  shows "kcur K c pd (put_byte f i b s)"
proof -
  have K: "kernel_inv K s" using assms(1) by (simp add: kcur_def)
  have "kernel_inv K (put_byte f i b s)"
    using put_byte_vm [OF kernel_invD(1) [OF K] assms(2)] kernel_invD(2,3) [OF K]
      env_inv_cong [of "put_byte f i b s" s K K] by (simp add: kernel_inv_def)
  with assms(1) show ?thesis
    by (simp add: kcur_def curenv_def)
qed

lemma kstore8_user:
  assumes "kcur K c pd s" "pdx va < 955" "translate s pd True va = Some f"
  shows "kstore8 va b s = Inr ((), put_byte f (unat (PGOFF va)) b s)" "K f = KData"
  using assms translate_user [OF kernel_invD(1), of K s pd va True f]
  by (auto simp: kstore8_def kcur_def)

lemma kstore8_keeps:
  assumes "kcur K c pd s" "pdx va < 955"
  shows "keeps (kcur K c pd) (kstore8 va b s)"
proof (cases "translate s pd True va")
  case None
  then show ?thesis using assms(1) by (simp add: kstore8_def kcur_def)
next
  case (Some f)
  then show ?thesis
    using kstore8_user [OF assms Some] put_byte_kcur [OF assms(1)] by simp
qed

lemma kstore_keeps:
  assumes "kcur K c pd s" "\<And>i. i < length bs \<Longrightarrow> pdx (va + of_nat i) < 955"
  shows "keeps (kcur K c pd) (kstore va bs s)"
  using assms
proof (induction bs arbitrary: va s)
  case (Cons b bs)
  have "pdx (va + 1 + of_nat i) < 955" if "i < length bs" for i
    using Cons.prems(2) [of "Suc i"] that by (simp add: add.assoc)
  then show ?case
    using Cons.prems(2) [of 0] by (auto intro!: keeps_bind kstore8_keeps Cons)
qed simp

section \<open>Reading back\<close>

lemma PGOFF_add: "unat (PGOFF (va + of_nat k)) = (unat va + k) mod 4096"
proof -
  have "unat (va + of_nat k) = (unat va + k) mod 2 ^ 32"
    by (simp add: unat_word_ariths(1) unat_of_nat mod_add_right_eq)
  moreover have "(4096 :: nat) dvd 2 ^ 32" by simp
  ultimately show ?thesis by (simp only: unat_PGOFF mod_mod_cancel)
qed

lemma PGOFF_distinct:
  assumes "unat (PGOFF (va + of_nat i)) = unat (PGOFF (va + of_nat j))" "i < 4096" "j < 4096"
  shows "i = j"
proof -
  have le: "i = j" if "(unat va + i) mod 4096 = (unat va + j) mod 4096" "i \<le> j" "j < 4096" for i j
  proof -
    have "4096 dvd unat va + j - (unat va + i)"
      using that by (intro mod_eq_dvd_iff_nat [THEN iffD1]) simp_all
    then have "4096 dvd j - i" by simp
    with that(2,3) show ?thesis
      using dvd_imp_le [of 4096 "j - i"] by (cases "j = i") auto
  qed
  show ?thesis
    using assms le [of i j] le [of j i] unfolding PGOFF_add by (cases "i \<le> j") auto
qed

text \<open>The bytes at user address \<open>va\<close>.\<close>

definition ubyte :: "kstate \<Rightarrow> nat \<Rightarrow> u32 \<Rightarrow> u8 option" where
  "ubyte s pd va = map_option (\<lambda>f. get_byte s f (unat (PGOFF va))) (translate s pd False va)"

definition writable :: "kstate \<Rightarrow> nat \<Rightarrow> u32 \<Rightarrow> nat \<Rightarrow> bool" where
  "writable s pd va n \<longleftrightarrow> (\<forall>i<n. pdx (va + of_nat i) < 955 \<and> translate s pd True (va + of_nat i) \<noteq> None)"

lemma writableD:
  "writable s pd va n \<Longrightarrow> i < n \<Longrightarrow> pdx (va + of_nat i) < 955"
  "writable s pd va n \<Longrightarrow> i < n \<Longrightarrow> translate s pd True (va + of_nat i) \<noteq> None"
  unfolding writable_def by blast+

lemma translate_read: "translate s pd True va = Some f \<Longrightarrow> translate s pd False va = Some f"
  by (auto simp: translate_def Let_def split: if_splits)

text \<open>What a store leaves alone: the translations and all bytes at other page offsets.\<close>

definition stored :: "(nat \<Rightarrow> kind) \<Rightarrow> nat \<Rightarrow> nat \<Rightarrow> nat set \<Rightarrow> kstate \<Rightarrow> kstate \<Rightarrow> bool" where
  "stored K c pd offs s s' \<longleftrightarrow> kcur K c pd s' \<and> envs s' = envs s \<and> cpus s' = cpus s \<and> cpunum s' = cpunum s \<and>
    kernel_lock s' = kernel_lock s \<and>
    (\<forall>va wr. pdx va < 955 \<longrightarrow> translate s' pd wr va = translate s pd wr va) \<and>
    (\<forall>f k. k \<notin> offs \<longrightarrow> get_byte s' f k = get_byte s f k)"

lemma stored_refl: "kcur K c pd s \<Longrightarrow> stored K c pd {} s s"
  by (simp add: stored_def)

lemma stored_trans:
  "stored K c pd A s s' \<Longrightarrow> stored K c pd B s' s'' \<Longrightarrow> stored K c pd (A \<union> B) s s''"
  by (simp add: stored_def)

lemma stored_ubyte:
  "stored K c pd offs s s' \<Longrightarrow> pdx va < 955 \<Longrightarrow> unat (PGOFF va) \<notin> offs \<Longrightarrow> ubyte s' pd va = ubyte s pd va"
  by (cases "translate s pd False va") (simp_all add: stored_def ubyte_def)

lemma stored_writable: "stored K c pd offs s s' \<Longrightarrow> writable s' pd va n = writable s pd va n"
  by (auto simp: stored_def writable_def)

lemma kstore8_stored:
  assumes "kcur K c pd s" "pdx va < 955" "translate s pd True va \<noteq> None"
  obtains s' where "kstore8 va b s = Inr ((), s')" "stored K c pd {unat (PGOFF va)} s s'" "ubyte s' pd va = Some b"
proof -
  from assms(3) obtain f where f: "translate s pd True va = Some f" by auto
  note st = kstore8_user [OF assms(1,2) f]
  have inv: "vm_inv K (\<lambda>_. 0) s" "K pd = KPD"
    using assms(1) kernel_invD(1) by (auto simp: kcur_def)
  have s: "stored K c pd {unat (PGOFF va)} s (put_byte f (unat (PGOFF va)) b s)"
    using put_byte_kcur [OF assms(1) st(2)] translate_put_byte [OF inv _ st(2)]
    by (simp add: stored_def get_put_byte)
  then have "translate (put_byte f (unat (PGOFF va)) b s) pd False va = Some f"
    using translate_read [OF f] assms(2) by (simp add: stored_def)
  then have "ubyte (put_byte f (unat (PGOFF va)) b s) pd va = Some b"
    by (simp add: ubyte_def get_put_byte)
  with st(1) s show thesis by (rule that)
qed

lemma kstore_stored:
  assumes "kcur K c pd s" "writable s pd va (length bs)" "length bs \<le> 4096"
  obtains s' where "kstore va bs s = Inr ((), s')" "stored K c pd ((\<lambda>i. unat (PGOFF (va + of_nat i))) ` {..<length bs}) s s'"
    "\<And>i. i < length bs \<Longrightarrow> ubyte s' pd (va + of_nat i) = Some (bs ! i)"
  using assms
proof (induction bs arbitrary: va s thesis)
  case Nil
  then show ?case using stored_refl by simp
next
  case (Cons b bs)
  have sh: "va + 1 + of_nat i = va + of_nat (Suc i)" for i
    by (simp add: add.assoc)
  have w: "pdx va < 955" "translate s pd True va \<noteq> None" "writable s pd (va + 1) (length bs)"
    using Cons.prems(3) unfolding writable_def sh by force+
  obtain s1 where s1: "kstore8 va b s = Inr ((), s1)" "stored K c pd {unat (PGOFF va)} s s1" "ubyte s1 pd va = Some b"
    using Cons.prems(2) w(1,2) by (rule kstore8_stored)
  have k1: "kcur K c pd s1" "writable s1 pd (va + 1) (length bs)"
    using s1(2) w(3) stored_writable [OF s1(2)] by (auto simp: stored_def)
  obtain s2 where s2: "kstore (va + 1) bs s1 = Inr ((), s2)"
    "stored K c pd ((\<lambda>i. unat (PGOFF (va + 1 + of_nat i))) ` {..<length bs}) s1 s2"
    "\<And>i. i < length bs \<Longrightarrow> ubyte s2 pd (va + 1 + of_nat i) = Some (bs ! i)"
    using Cons.IH [OF _ k1] Cons.prems(4) by auto
  have offs: "{unat (PGOFF va)} \<union> (\<lambda>i. unat (PGOFF (va + 1 + of_nat i))) ` {..<length bs} =
      (\<lambda>i. unat (PGOFF (va + of_nat i))) ` {..<length (b # bs)}"
    unfolding sh by (auto simp: lessThan_Suc_eq_insert_0 image_image)
  have b: "ubyte s2 pd va = Some b"
  proof -
    have "unat (PGOFF va) \<noteq> unat (PGOFF (va + of_nat (Suc i)))" if "i < length bs" for i
      using PGOFF_distinct [of va 0 "Suc i"] that Cons.prems(4) by auto
    then have "unat (PGOFF va) \<notin> (\<lambda>i. unat (PGOFF (va + 1 + of_nat i))) ` {..<length bs}"
      unfolding sh by auto
    with stored_ubyte [OF s2(2) w(1)] s1(3) show ?thesis by simp
  qed
  show ?case
  proof (rule Cons.prems(1))
    show "kstore va (b # bs) s = Inr ((), s2)" using s1(1) s2(1) by simp
    show "stored K c pd ((\<lambda>i. unat (PGOFF (va + of_nat i))) ` {..<length (b # bs)}) s s2"
      using stored_trans [OF s1(2) s2(2)] unfolding offs .
    show "ubyte s2 pd (va + of_nat i) = Some ((b # bs) ! i)" if "i < length (b # bs)" for i
      using that b s2(3) sh by (cases i) auto
  qed
qed

section \<open>Words\<close>

lemma kload_ubytes:
  assumes "cr3 (cpus s (cpunum s)) = pd" "\<And>i. i < length bs \<Longrightarrow> ubyte s pd (va + of_nat i) = Some (bs ! i)"
  shows "kload (length bs) va s = Inr (bs, s)"
  using assms(2)
proof (induction bs arbitrary: va)
  case (Cons b bs)
  have "ubyte s pd (va + 1 + of_nat i) = Some (bs ! i)" if "i < length bs" for i
    using Cons.prems [of "Suc i"] that by (simp add: add.assoc)
  from Cons.IH [OF this] Cons.prems [of 0] assms(1) show ?case
    by (auto simp: kload8_def ubyte_def split: option.splits)
qed simp

definition uword :: "kstate \<Rightarrow> nat \<Rightarrow> u32 \<Rightarrow> u32 \<Rightarrow> bool" where
  "uword s pd va w \<longleftrightarrow> (\<forall>k<4. ubyte s pd (va + of_nat k) = Some (word_bytes w ! k))"

lemma length_word_bytes [simp]: "length (word_bytes w) = 4"
  by (simp add: word_bytes_def)

lemma kload32_uword: "cr3 (cpus s (cpunum s)) = pd \<Longrightarrow> uword s pd va w \<Longrightarrow> kload32 va s = Inr (w, s)"
  using kload_ubytes [of s pd "word_bytes w" va] by (simp add: kload32_def uword_def le_word_bytes)

abbreviation word_offs :: "u32 \<Rightarrow> nat \<Rightarrow> nat set" where
  "word_offs base i \<equiv> (\<lambda>k. unat (PGOFF (base + of_nat (4 * i + k)))) ` {..<4}"

lemma kstore32_stored:
  assumes "kcur K c pd s" "writable s pd base (4 * n)" "i < n"
  obtains s' where "kstore32 (base + of_nat (4 * i)) w s = Inr ((), s')" "stored K c pd (word_offs base i) s s'"
    "uword s' pd (base + of_nat (4 * i)) w"
proof -
  have sh: "base + of_nat (4 * i) + of_nat k = base + of_nat (4 * i + k)" for k
    by (simp add: add.assoc)
  have "writable s pd (base + of_nat (4 * i)) (length (word_bytes w))"
    unfolding writable_def sh length_word_bytes
  proof (intro allI impI)
    fix k :: nat
    assume "k < 4"
    with assms(3) have "4 * i + k < 4 * n" by simp
    from writableD [OF assms(2) this]
    show "pdx (base + of_nat (4 * i + k)) < 955 \<and> translate s pd True (base + of_nat (4 * i + k)) \<noteq> None" by blast
  qed
  then obtain s' where "kstore (base + of_nat (4 * i)) (word_bytes w) s = Inr ((), s')"
    "stored K c pd ((\<lambda>k. unat (PGOFF (base + of_nat (4 * i) + of_nat k))) ` {..<length (word_bytes w)}) s s'"
    "\<And>k. k < length (word_bytes w) \<Longrightarrow> ubyte s' pd (base + of_nat (4 * i) + of_nat k) = Some (word_bytes w ! k)"
    by (rule kstore_stored [OF assms(1)]) (simp, blast)
  then show thesis
    unfolding sh length_word_bytes by (intro that [of s']) (auto simp: kstore32_def uword_def sh simp del: of_nat_add of_nat_mult)
qed

lemma word_offs_disjoint:
  assumes "i < n" "j < n" "i \<noteq> j" "4 * n \<le> 4096"
  shows "word_offs base i \<inter> word_offs base j = {}"
proof -
  have False if "k < 4" "l < 4" "unat (PGOFF (base + of_nat (4 * i + k))) = unat (PGOFF (base + of_nat (4 * j + l)))" for k l
  proof -
    have "4 * i + k = 4 * j + l"
      using that assms by (intro PGOFF_distinct [OF that(3)]) auto
    with that(1,2) assms(3) show False by presburger
  qed
  then show ?thesis by blast
qed

text \<open>A sequence of word stores at distinct indices behind \<open>base\<close>.\<close>

lemma store_words_stored:
  assumes "kcur K c pd s" "writable s pd base (4 * n)" "4 * n \<le> 4096" "distinct (map fst ws)"
    "\<And>i w. (i, w) \<in> set ws \<Longrightarrow> i < n"
  obtains s' where "forR (\<lambda>(i, w) s. kstore32 (base + of_nat (4 * i)) w s) ws s = Inr ((), s')"
    "stored K c pd (\<Union>i \<in> fst ` set ws. word_offs base i) s s'"
    "\<And>i w. (i, w) \<in> set ws \<Longrightarrow> uword s' pd (base + of_nat (4 * i)) w"
  using assms
proof (induction ws arbitrary: s thesis)
  case Nil
  then show ?case using stored_refl by simp
next
  case (Cons x ws)
  obtain i w where x: "x = (i, w)" by (cases x)
  have i: "i < n" using Cons.prems(6) [of i w] x by simp
  obtain s1 where s1: "kstore32 (base + of_nat (4 * i)) w s = Inr ((), s1)" "stored K c pd (word_offs base i) s s1"
    "uword s1 pd (base + of_nat (4 * i)) w"
    using Cons.prems(2,3) i by (rule kstore32_stored)
  have k1: "kcur K c pd s1" "writable s1 pd base (4 * n)"
    using s1(2) Cons.prems(3) stored_writable [OF s1(2)] by (auto simp: stored_def)
  obtain s2 where s2: "forR (\<lambda>(i, w) s. kstore32 (base + of_nat (4 * i)) w s) ws s1 = Inr ((), s2)"
    "stored K c pd (\<Union>i \<in> fst ` set ws. word_offs base i) s1 s2"
    "\<And>i w. (i, w) \<in> set ws \<Longrightarrow> uword s2 pd (base + of_nat (4 * i)) w"
    using Cons.IH [OF _ k1] Cons.prems(4-6) by auto
  have "uword s2 pd (base + of_nat (4 * i)) w"
  proof -
    have "word_offs base i \<inter> word_offs base j = {}" if j: "j \<in> fst ` set ws" for j
    proof (rule word_offs_disjoint [OF i _ _ Cons.prems(4)])
      from j obtain v where "(j, v) \<in> set ws" by auto
      then show "j < n" using Cons.prems(6) [of j v] by simp
      show "i \<noteq> j" using Cons.prems(5) x j by auto
    qed
    then have "unat (PGOFF (base + of_nat (4 * i + k))) \<notin> (\<Union>j \<in> fst ` set ws. word_offs base j)" if "k < 4" for k
      using that by blast
    moreover have "pdx (base + of_nat (4 * i + k)) < 955" if "k < 4" for k
      using i that by (intro writableD(1) [OF Cons.prems(3)]) simp
    ultimately have "ubyte s2 pd (base + of_nat (4 * i + k)) = ubyte s1 pd (base + of_nat (4 * i + k))" if "k < 4" for k
      using that by (intro stored_ubyte [OF s2(2)])
    with s1(3) show ?thesis
      by (simp add: uword_def add.assoc)
  qed
  moreover have "forR (\<lambda>(i, w) s. kstore32 (base + of_nat (4 * i)) w s) (x # ws) s = Inr ((), s2)"
    using s1(1) s2(1) x by simp
  moreover have "stored K c pd (\<Union>i \<in> fst ` set (x # ws). word_offs base i) s s2"
    using stored_trans [OF s1(2) s2(2)] x by simp
  ultimately show ?case
    using s2(3) x by (intro Cons.prems(1) [of s2]) auto
qed

end
