(* ===== verification/Trap.thy ===== *)
theory Trap
  imports Syscall Uaccess
begin

text \<open>
  Traps: the entry points of kern/trapentry.S and the interrupt descriptor table of kern/trap.c, \<open>trap\<close>,
  \<open>trap_dispatch\<close> and \<open>page_fault_handler\<close>. Whatever the trap, the kernel is left through \<open>env_run\<close> or \<open>sched_yield\<close>,
  never by a return of \<open>trap\<close>.

  A \<open>struct Trapframe *\<close> points to the kernel stack, where the entry code pushed it, or to the saved
  registers of an environment. \<open>kva\<close> is the address of such a frame, which only \<open>print_trapframe\<close>
  shows, and \<open>cr2\<close> the register with the address of a page fault. The kernel monitor, which a breakpoint
  enters, talks to the operator and ends the run of the model (\<open>Monitor\<close>); the acknowledgement of the
  interrupt controller has no state here.
\<close>

unbundle bit_operations_syntax

section \<open>Gates\<close>

definition T_BRKPT :: u32 where [simp]: "T_BRKPT = 3"
definition T_PGFLT :: u32 where [simp]: "T_PGFLT = 14"
definition T_SYSCALL :: u32 where [simp]: "T_SYSCALL = 48"
definition IRQ_OFFSET :: u32 where [simp]: "IRQ_OFFSET = 32"
definition IRQ_TIMER :: u32 where [simp]: "IRQ_TIMER = 0"
definition IRQ_KBD :: u32 where [simp]: "IRQ_KBD = 1"
definition IRQ_SERIAL :: u32 where [simp]: "IRQ_SERIAL = 4"
definition IRQ_SPURIOUS :: u32 where [simp]: "IRQ_SPURIOUS = 7"

text \<open>An entry of the interrupt descriptor table; the handler is named by the number in \<open>int0\<close>, \<open>int1\<close>, ...\<close>

record Gatedesc =
  gd_istrap :: bool
  gd_sel :: u16
  gd_handler :: nat
  gd_dpl :: nat

type_synonym idt = "nat \<Rightarrow> Gatedesc option"

definition SETGATE :: "nat \<Rightarrow> bool \<Rightarrow> u16 \<Rightarrow> nat \<Rightarrow> nat \<Rightarrow> idt \<Rightarrow> idt" where
  "SETGATE n istrap sel h dpl idt = idt(n \<mapsto> \<lparr>gd_istrap = istrap, gd_sel = sel, gd_handler = h, gd_dpl = dpl\<rparr>)"

definition trap_init :: "idt \<Rightarrow> idt" where
  "trap_init idt = fold (\<lambda>n. SETGATE n False GD_KT n (if n = 3 \<or> n = 48 then 3 else 0))
     ([0..<9] @ [10..<15] @ [16..<20] @ [48] @ [32..<44]) idt"

text \<open>
  The entry point \<open>int<n>\<close> pushes its trap number, and a zero in place of the error code where the
  processor pushes none (\<open>TRAPHANDLER_NOEC\<close>).
\<close>

definition entry_frame :: "nat \<Rightarrow> u32 \<Rightarrow> u32 \<times> u32" where
  "entry_frame n err = (of_nat n, if n \<in> {8, 10, 11, 12, 13, 14, 17} then err else 0)"

definition trap_init_percpu :: "kstate \<Rightarrow> kstate" where
  "trap_init_percpu s =
    upd_cpu (\<lambda>c. c\<lparr>ts_esp0 := KSTACKTOP - of_nat (cpunum s) * (KSTKSIZE + KSTKGAP), ts_ss0 := GD_KD\<rparr>) s"

section \<open>Trap frames\<close>

datatype tfptr = TfStack Trapframe | TfEnv nat

fun get_tf :: "tfptr \<Rightarrow> kstate \<Rightarrow> Trapframe" where
  "get_tf (TfStack tf) s = tf"
| "get_tf (TfEnv e) s = env_tf (envs s e)"

text \<open>A store to the frame on the kernel stack is never read again.\<close>

fun upd_tf :: "tfptr \<Rightarrow> (Trapframe \<Rightarrow> Trapframe) \<Rightarrow> kstate \<Rightarrow> kstate" where
  "upd_tf (TfStack tf) f s = s"
| "upd_tf (TfEnv e) f s = upd_env e (\<lambda>v. v\<lparr>env_tf := f (env_tf v)\<rparr>) s"

definition excnames :: "string list" where
  "excnames =
    [''Divide error'', ''Debug'', ''Non-Maskable Interrupt'', ''Breakpoint'', ''Overflow'', ''BOUND Range Exceeded'',
     ''Invalid Opcode'', ''Device Not Available'', ''Double Fault'', ''Coprocessor Segment Overrun'',
     ''Invalid TSS'', ''Segment Not Present'', ''Stack Fault'', ''General Protection'', ''Page Fault'',
     ''(unknown trap)'', ''x87 FPU Floating-Point Error'', ''Alignment Check'', ''Machine-Check'',
     ''SIMD Floating-Point Exception'']"

definition trapname :: "u32 \<Rightarrow> string" where
  "trapname trapno =
    (if unat trapno < length excnames then excnames ! unat trapno
     else if trapno = T_SYSCALL then ''System call''
     else if sint trapno \<ge> sint IRQ_OFFSET \<and> sint trapno < sint (IRQ_OFFSET + 16) then ''Hardware Interrupt''
     else ''(unknown trap)'')"

text \<open>The calls of \<open>cprintf\<close> in sequence.\<close>

definition print_all :: "(string \<times> va list) list \<Rightarrow> kstate \<Rightarrow> unit kres" where
  "print_all = forR (\<lambda>(fmt, ap) s. bindR (cprintf fmt ap s) (\<lambda>(_, s). Inr ((), s)))"

definition print_regs :: "PushRegs \<Rightarrow> kstate \<Rightarrow> unit kres" where
  "print_regs r = print_all
    [(''  edi  0x%08x\<newline>'', [VInt (reg_edi r)]), (''  esi  0x%08x\<newline>'', [VInt (reg_esi r)]),
     (''  ebp  0x%08x\<newline>'', [VInt (reg_ebp r)]), (''  oesp 0x%08x\<newline>'', [VInt (reg_oesp r)]),
     (''  ebx  0x%08x\<newline>'', [VInt (reg_ebx r)]), (''  edx  0x%08x\<newline>'', [VInt (reg_edx r)]),
     (''  ecx  0x%08x\<newline>'', [VInt (reg_ecx r)]), (''  eax  0x%08x\<newline>'', [VInt (reg_eax r)])]"

definition print_trapframe :: "u32 \<Rightarrow> u32 \<Rightarrow> bool \<Rightarrow> Trapframe \<Rightarrow> kstate \<Rightarrow> unit kres" where
  "print_trapframe addr cr2 is_last tf s =
    bindR (print_all [(''TRAP frame at %p from CPU %d\<newline>'', [VPtr addr, VInt (of_nat (cpunum s))])] s) (\<lambda>(_, s).
      bindR (print_regs (tf_regs tf) s) (\<lambda>(_, s).
        print_all
          ([(''  es   0x----%04x\<newline>'', [VInt (ucast (tf_es tf))]), (''  ds   0x----%04x\<newline>'', [VInt (ucast (tf_ds tf))]),
            (''  trap 0x%08x %s\<newline>'', [VInt (tf_trapno tf), VStr (trapname (tf_trapno tf))])]
           @ (if is_last \<and> tf_trapno tf = T_PGFLT then [(''  cr2  0x%08x\<newline>'', [VInt cr2])] else [])
           @ [(''  err  0x%08x'', [VInt (tf_err tf)])]
           @ (if tf_trapno tf = T_PGFLT then
                [('' [%s, %s, %s]\<newline>'', [VStr (if tf_err tf AND 4 \<noteq> 0 then ''user'' else ''kernel''),
                   VStr (if tf_err tf AND 2 \<noteq> 0 then ''write'' else ''read''),
                   VStr (if tf_err tf AND 1 \<noteq> 0 then ''protection'' else ''not-present'')])]
              else [(''\<newline>'', [])])
           @ [(''  eip  0x%08x\<newline>'', [VInt (tf_eip tf)]), (''  cs   0x----%04x\<newline>'', [VInt (ucast (tf_cs tf))]),
              (''  flag 0x%08x\<newline>'', [VInt (tf_eflags tf)])]
           @ (if tf_cs tf AND 3 \<noteq> 0 then
                [(''  esp  0x%08x\<newline>'', [VInt (tf_esp tf)]), (''  ss   0x----%04x\<newline>'', [VInt (ucast (tf_ss tf))])]
              else [])) s))"

section \<open>Page faults\<close>

definition UTF_SIZE :: u32 where [simp]: "UTF_SIZE = 52"

text \<open>The words of a \<open>struct UTrapframe\<close>, in memory order.\<close>

definition utrapframe :: "u32 \<Rightarrow> Trapframe \<Rightarrow> u32 list" where
  "utrapframe fault_va tf =
    (let r = tf_regs tf
     in [fault_va, tf_err tf, reg_edi r, reg_esi r, reg_ebp r, reg_oesp r, reg_ebx r, reg_edx r, reg_ecx r,
         reg_eax r, tf_eip tf, tf_eflags tf, tf_esp tf])"

definition utf_addr :: "u32 \<Rightarrow> u32" where
  "utf_addr esp =
    (if esp < UXSTACKTOP \<and> esp \<ge> UXSTACKTOP - PGSIZE then esp - UTF_SIZE - 4 else UXSTACKTOP - UTF_SIZE)"

definition store_at :: "u32 \<Rightarrow> (nat \<times> u32) list \<Rightarrow> kstate \<Rightarrow> unit kres" where
  "store_at base = forR (\<lambda>(i, w) s. kstore32 (base + of_nat (4 * i)) w s)"

text \<open>The first branch of the handler ends the environment.\<close>

definition fault_kill :: "u32 \<Rightarrow> u32 \<Rightarrow> tfptr \<Rightarrow> nat \<Rightarrow> kstate \<Rightarrow> unit kres" where
  "fault_kill addr cr2 p c s =
    bindR (cprintf ''[%08x] user fault va %08x ip %08x\<newline>''
      [VInt (env_id (envs s c)), VInt cr2, VInt (tf_eip (get_tf p s))] s) (\<lambda>(_, s).
    bindR (print_trapframe addr cr2 True (get_tf p s) s) (\<lambda>(_, s).
    bindR (cprintf '' the env wil be destroyed in page_fault_handler() \<newline>'' [] s) (\<lambda>(_, s).
      env_destroy c s)))"

text \<open>
  The rest hands the fault to the handler of the user program. The stores to the frame are in the order of
  the source: registers, \<open>eip\<close>, error, \<open>esp\<close>, address, flags.
\<close>

definition fault_upcall :: "u32 \<Rightarrow> tfptr \<Rightarrow> nat \<Rightarrow> kstate \<Rightarrow> unit kres" where
  "fault_upcall cr2 p c s =
    (let u = utf_addr (tf_esp (get_tf p s))
     in bindR (user_mem_assert c u UTF_SIZE (PTE_W OR PTE_U OR PTE_P) s) (\<lambda>(_, s).
          let ws = utrapframe cr2 (get_tf p s)
          in bindR (store_at u (map (\<lambda>i. (i, ws ! i)) ([2..<10] @ [10, 1, 12, 0, 11])) s) (\<lambda>(_, s).
               env_run c (upd_tf p (\<lambda>tf. tf\<lparr>tf_eip := env_pgfault_upcall (envs s c), tf_esp := u\<rparr>) s))))"

definition page_fault_handler :: "(tfptr \<Rightarrow> u32) \<Rightarrow> u32 \<Rightarrow> tfptr \<Rightarrow> kstate \<Rightarrow> unit kres" where
  "page_fault_handler kva cr2 p s =
    (if tf_cs (get_tf p s) AND 3 = 0 then
       bindR (print_trapframe (kva p) cr2 True (get_tf p s) s) (\<lambda>_. Inl (Panic '' a page fault in the kernel''))
     else with_curenv (\<lambda>c s.
       bindR
         (if env_pgfault_upcall (envs s c) = 0 \<or>
             USTACKTOP < tf_esp (get_tf p s) \<and> tf_esp (get_tf p s) < UXSTACKTOP - PGSIZE
          then fault_kill (kva p) cr2 p c s else Inr ((), s))
         (\<lambda>(_, s). with_curenv (fault_upcall cr2 p) s)) s)"

section \<open>Dispatch\<close>

definition trap_dispatch :: "(tfptr \<Rightarrow> u32) \<Rightarrow> u32 \<Rightarrow> tfptr \<Rightarrow> kstate \<Rightarrow> unit kres" where
  "trap_dispatch kva cr2 p s =
    (let tf = get_tf p s; no = tf_trapno tf; r = tf_regs tf
     in if no = T_PGFLT then page_fault_handler kva cr2 p s
        else if no = T_BRKPT then Inl (Monitor s)
        else if no = T_SYSCALL then
          bindR (syscall (reg_eax r) (reg_edx r) (reg_ecx r) (reg_ebx r) (reg_edi r) (reg_esi r) s) (\<lambda>(ret, s).
            Inr ((), upd_tf p (\<lambda>tf. tf\<lparr>tf_regs := (tf_regs tf)\<lparr>reg_eax := word_of_int ret\<rparr>\<rparr>) s))
        else if no = IRQ_OFFSET + IRQ_SPURIOUS then
          bindR (cprintf ''Spurious interrupt on irq 7\<newline>'' [] s) (\<lambda>(_, s).
            print_trapframe (kva p) cr2 True (get_tf p s) s)
        else if no = IRQ_OFFSET + IRQ_TIMER then bindR (time_tick s) (\<lambda>(_, s). sched_yield s)
        else if no = IRQ_OFFSET + IRQ_KBD then Inr ((), s\<lparr>cons := kbd_intr (cons s)\<rparr>)
        else if no = IRQ_OFFSET + IRQ_SERIAL then Inr ((), s\<lparr>cons := serial_intr (cons s)\<rparr>)
        else
          bindR (print_trapframe (kva p) cr2 True (get_tf p s) s) (\<lambda>(_, s).
            if tf_cs (get_tf p s) = GD_KT then Inl (Panic ''unhandled trap in kernel'')
            else bindR (cprintf ''the env will be destroyed by trap_dispatch bcz it asked for an invalid interrupt \<newline>'' [] s)
              (\<lambda>(_, s). with_curenv env_destroy s)))"

text \<open>
  The branch of \<open>trap\<close> for traps from user mode: an environment that another processor marked as dying is
  freed here, otherwise the frame moves to the environment.
\<close>

definition env_reap :: "nat \<Rightarrow> kstate \<Rightarrow> unit kres" where
  "env_reap c s = bindR (env_free c s) (\<lambda>(_, s). sched_yield (upd_cpu (\<lambda>c. c\<lparr>cpu_env := None\<rparr>) s))"

definition trap_user :: "Trapframe \<Rightarrow> kstate \<Rightarrow> tfptr kres" where
  "trap_user tf s =
    bindR (lock_kernel s) (\<lambda>(_, s).
      case curenv s of
        None \<Rightarrow> Inl (Panic ''assertion failed: curenv'')
      | Some c \<Rightarrow>
          bindR
            (if env_status (envs s c) = ENV_DYING then env_reap c s else Inr ((), s))
            (\<lambda>(_, s). Inr (TfEnv c, upd_env c (\<lambda>v. v\<lparr>env_tf := tf\<rparr>) s)))"

text \<open>The end of \<open>trap\<close>: back to the current environment or to the scheduler.\<close>

definition trap_resume :: "kstate \<Rightarrow> unit kres" where
  "trap_resume s =
    (case curenv s of
       Some c \<Rightarrow> if env_status (envs s c) = ENV_RUNNING then env_run c s else sched_yield s
     | None \<Rightarrow> sched_yield s)"

definition trap :: "(tfptr \<Rightarrow> u32) \<Rightarrow> u32 \<Rightarrow> Trapframe \<Rightarrow> kstate \<Rightarrow> unit kres" where
  "trap kva cr2 tf s =
    (let old = cpu_status (cpus s (cpunum s));
         s = upd_cpu (\<lambda>c. c\<lparr>cpu_status := CPU_STARTED\<rparr>) s
     in bindR (if old = CPU_HALTED then lock_kernel s else Inr ((), s)) (\<lambda>(_, s).
        bindR (if tf_cs tf AND 3 = 3 then trap_user tf s else Inr (TfStack tf, s)) (\<lambda>(p, s).
        bindR (trap_dispatch kva cr2 p s) (\<lambda>(_, s). trap_resume s))))"

section \<open>Leaving the kernel\<close>

lemma env_run_noreturn: "env_run e s \<noteq> Inr x"
  by (auto simp: env_run_def env_pop_tf_def Let_def bindR_eq_Inr split: option.splits)

lemma sched_halt_noreturn: "sched_halt s \<noteq> Inr x"
  by (auto simp: sched_halt_def Let_def bindR_eq_Inr simp del: upt_rec_numeral)

lemma sched_yield_noreturn: "sched_yield s \<noteq> Inr x"
  by (auto simp: sched_yield_def bindR_eq_Inr env_run_noreturn sched_halt_noreturn split: option.splits if_splits)

lemma env_destroy_noreturn:
  assumes "kinv s" "curenv s = Some c"
  shows "env_destroy c s \<noteq> Inr x"
proof
  assume "env_destroy c s = Inr x"
  with assms(2) obtain t where t: "env_free c s = Inr ((), t)"
    "(if curenv t = Some c then sched_yield (upd_cpu (\<lambda>c. c\<lparr>cpu_env := None\<rparr>) t) else Inr ((), t)) = Inr x"
    by (auto simp: env_destroy_def bindR_eq_Inr)
  from assms(1) obtain K where K: "kernel_inv K s" by (auto simp: kinv_def)
  have c: "c < NENV" using kinv_cur [OF assms] .
  obtain pd where pd: "env_pgdir (envs s c) = Some pd"
    using t(1) by (cases "env_pgdir (envs s c)") (auto simp: env_free_def Let_def split: if_splits)
  have "curenv t = curenv s"
    using K c kinv_pd(2) [OF K c pd] by (rule env_free_spec [OF _ _ _ pd]) (use t(1) in \<open>auto simp: curenv_def\<close>)
  with t(2) assms(2) show False
    by (simp add: sched_yield_noreturn)
qed

section \<open>Printing\<close>

lemma print_all_keeps: "P s \<Longrightarrow> (\<And>s cn. P s \<Longrightarrow> P (s\<lparr>cons := cn\<rparr>)) \<Longrightarrow> (\<And>s fmt ap. P s \<Longrightarrow> keeps P (cprintf fmt ap s)) \<Longrightarrow>
    keeps P (print_all l s)"
  unfolding print_all_def by (rule keeps_forR) (auto intro!: keeps_bind)

lemma print_trapframe_keeps:
  assumes "P s" "\<And>s cn. P s \<Longrightarrow> P (s\<lparr>cons := cn\<rparr>)" "\<And>s fmt ap. P s \<Longrightarrow> keeps P (cprintf fmt ap s)"
  shows "keeps P (print_trapframe addr cr2 l tf s)"
  unfolding print_trapframe_def print_regs_def
  by (intro keeps_bind_case keeps_if print_all_keeps assms; (rule assms | simp add: assms)?)

lemma cprintf_only_cons: "keeps (\<lambda>t. \<exists>cn. t = s\<lparr>cons := cn\<rparr>) (cprintf fmt ap (s\<lparr>cons := c\<rparr>))"
  unfolding cprintf_def by (intro keeps_bind kpr.vprintfmt_keeps) auto

section \<open>The invariant in traps\<close>

text \<open>
  What holds when kernel code starts to serve a trap: the kernel invariant, the current environment is in
  use and its page directory is loaded, no reference count is at its limit.
\<close>

definition tinv :: "kstate \<Rightarrow> bool" where
  "tinv s \<longleftrightarrow> kinv s \<and> cur_live s \<and> refs_ok s \<and>
    (\<forall>c. curenv s = Some c \<longrightarrow> env_pgdir (envs s c) = Some (cr3 (cpus s (cpunum s))))"

lemma tinv_cons: "tinv s \<Longrightarrow> tinv (s\<lparr>cons := cn\<rparr>)"
  by (simp add: tinv_def kinv_cons cur_live_def refs_ok_def curenv_def)

lemma tinv_kcur:
  assumes "tinv s" "curenv s = Some c"
  obtains K pd where "kcur K c pd s"
proof -
  from assms obtain K where K: "kernel_inv K s" "c < NENV" "env_pgdir (envs s c) = Some (cr3 (cpus s (cpunum s)))"
    by (auto simp: tinv_def kinv_def)
  with kinv_pd(1) [OF K] assms(2) show thesis
    by (intro that [of K "cr3 (cpus s (cpunum s))"]) (simp add: kcur_def)
qed

lemma kinv_upd_tf: "kinv s \<Longrightarrow> kinv (upd_tf p f s)"
  by (cases p) (auto intro!: kinv_upd_env)

text \<open>The frame for the user's handler lies below \<open>UTOP\<close>.\<close>

lemma utf_addr_bound: "unat (utf_addr esp) + 52 \<le> 0xEEC00000"
proof (cases "esp < UXSTACKTOP \<and> esp \<ge> UXSTACKTOP - PGSIZE")
  case True
  then have e: "0xEEBFF000 \<le> unat esp" "unat esp < 0xEEC00000"
    by (simp_all add: word_le_nat_alt word_less_nat_alt)
  then have "unat (esp - 56) = unat esp - 56"
    by (simp add: unat_sub word_le_nat_alt)
  with True e show ?thesis by (simp add: utf_addr_def)
qed (auto simp: utf_addr_def)

lemma utf_addr_add: "i < 52 \<Longrightarrow> unat (utf_addr esp + of_nat i) = unat (utf_addr esp) + i"
  using utf_addr_bound [of esp] by (simp add: unat_word_ariths(1) unat_of_nat)

lemma utf_addr_below: "i < 52 \<Longrightarrow> pdx (utf_addr esp + of_nat i) < 955"
  using utf_addr_bound [of esp] utf_addr_add [of i esp] by (simp add: word_less_nat_alt flip: below_UTOP_iff)

lemma store_at_keeps:
  assumes "kcur K c pd s" "\<And>x. x \<in> set ws \<Longrightarrow> fst x < 13"
  shows "keeps (kcur K c pd) (store_at (utf_addr esp) ws s)"
  using assms
proof (induction ws arbitrary: s)
  case (Cons x ws)
  obtain i w where x: "x = (i, w)" by (cases x)
  have "pdx (utf_addr esp + of_nat (4 * i) + of_nat k) < 955" if "k < 4" for k
    using utf_addr_below [of "4 * i + k" esp] Cons.prems(2) [of x] that x by (simp add: add.assoc)
  then have "keeps (kcur K c pd) (kstore32 (utf_addr esp + of_nat (4 * i)) w s)"
    unfolding kstore32_def by (intro kstore_keeps Cons.prems(1)) simp
  with Cons x show ?case
    unfolding store_at_def by (auto intro!: keeps_bind)
qed (simp add: store_at_def)

lemma user_mem_assert_ok:
  assumes "kinv s" "curenv s = Some c" "user_mem_assert c va n perm s = Inr (x, t)"
  shows "t = s"
proof -
  from assms(1) obtain K where K: "kernel_inv K s" by (auto simp: kinv_def)
  have c: "c < NENV" using kinv_cur [OF assms(1,2)] .
  from assms(3) obtain r u where u: "user_mem_check c va n (perm OR PTE_U) s = Inr (r, u)"
    "(if r < 0 then env_destroy c u else Inr ((), u)) = Inr (x, t)"
    by (auto simp: user_mem_assert_def bindR_eq_Inr)
  obtain a where a: "u = s\<lparr>user_mem_check_addr := a\<rparr>" "r = 0 \<and> u = s \<or> r = - E_FAULT"
    using K c u(1) by (rule user_mem_check_state)
  have "kinv u" "curenv u = Some c"
    using assms(1,2) a(1) by (auto intro: kinv_cong [OF assms(1)] simp: curenv_def)
  with u(2) a(2) env_destroy_noreturn [of u c "(x, t)"] show ?thesis
    by (auto split: if_splits)
qed

lemma fault_kill_keeps:
  assumes "kinv s" "curenv s = Some c"
  shows "keeps kinv (fault_kill addr cr2 p c s)" "fault_kill addr cr2 p c s \<noteq> Inr x"
proof -
  let ?P = "\<lambda>t. \<exists>cn. t = s\<lparr>cons := cn\<rparr>"
  have c: "c < NENV" using kinv_cur [OF assms] .
  have P: "kinv t" "curenv t = Some c" if "?P t" for t
    using that assms by (auto intro: kinv_cons simp: curenv_def)
  have P0: "?P s" by (rule exI [of _ "cons s"]) simp
  have pr: "keeps ?P (cprintf fmt ap t)" if "?P t" for fmt ap t
    using that cprintf_only_cons by auto
  have pt: "keeps ?P (print_trapframe addr cr2 True tf t)" if "?P t" for tf t
    using that by (rule print_trapframe_keeps) (auto intro!: pr)
  have d: "keeps kinv (env_destroy c t) \<and> env_destroy c t \<noteq> Inr x" if "?P t" for t
    using env_destroy_keeps [OF P(1) [OF that] c] env_destroy_noreturn [OF P [OF that]] by blast
  have "keeps kinv (fault_kill addr cr2 p c s) \<and> fault_kill addr cr2 p c s \<noteq> Inr x"
    unfolding fault_kill_def
    by (intro bind_leaves [of ?P] pr pt d P0 P(1))
  then show "keeps kinv (fault_kill addr cr2 p c s)" "fault_kill addr cr2 p c s \<noteq> Inr x" by auto
qed

lemma fault_upcall_keeps:
  assumes t: "tinv s" and c: "curenv s = Some c"
  shows "keeps kinv (fault_upcall cr2 p c s)"
proof -
  let ?u = "utf_addr (tf_esp (get_tf p s))" and ?ws = "map (\<lambda>i. (i, utrapframe cr2 (get_tf p s) ! i)) ([2..<10] @ [10, 1, 12, 0, 11])"
  have inv: "kinv s" using t by (simp add: tinv_def)
  have n: "c < NENV" using kinv_cur [OF inv c] .
  obtain K pd where K: "kcur K c pd s" using t c by (rule tinv_kcur)
  have st: "keeps (kcur K c pd) (store_at ?u ?ws s)"
    by (rule store_at_keeps [OF K]) auto
  have run: "keeps kinv (env_run c (upd_tf p f v))" if k: "kcur K c pd v" for f v
  proof -
    have "env_status (envs v c) \<noteq> ENV_FREE"
      using k by (auto simp: kcur_def kernel_inv_def env_slot_ok_def dest!: env_slotD)
    then show ?thesis
      by (intro env_run_keeps kinv_upd_tf kcur_kinv [OF k] n) (cases p, auto)
  qed
  have "keeps kinv (bindR (store_at ?u ?ws s) (\<lambda>(_, s).
      env_run c (upd_tf p (\<lambda>tf. tf\<lparr>tf_eip := env_pgfault_upcall (envs s c), tf_esp := ?u\<rparr>) s)))"
    using st by (cases "store_at ?u ?ws s") (auto intro: run kcur_kinv)
  then show ?thesis
    unfolding fault_upcall_def Let_def
    by (intro keeps_bind_strong user_mem_assert_keeps inv n)
      (auto dest!: user_mem_assert_ok [OF inv c])
qed

lemma page_fault_handler_keeps:
  assumes t: "tinv s"
  shows "keeps kinv (page_fault_handler kva cr2 p s)"
proof -
  have inv: "kinv s" using t by (simp add: tinv_def)
  have pr: "keeps kinv (print_trapframe addr cr2 l tf s)" for addr l tf
    by (rule print_trapframe_keeps [of kinv, OF inv]) (auto intro: kinv_cons cprintf_keeps)
  have u: "keeps kinv (with_curenv (fault_upcall cr2 p) s)"
    using fault_upcall_keeps [OF t] inv by (intro with_curenv_keeps)
  show ?thesis
    unfolding page_fault_handler_def
    using fault_kill_keeps [OF inv] u inv pr
    by (intro keeps_if keeps_bind_strong [OF pr] with_curenv_keeps keeps_bind_strong) (auto split: if_splits)
qed


lemma time_tick_keeps: "kinv s \<Longrightarrow> keeps kinv (time_tick s)"
  by (auto simp: time_tick_def Let_def curenv_def intro: kinv_cong)

lemma trap_dispatch_keeps:
  assumes t: "tinv s"
    and sys: "tf_trapno (get_tf p s) = T_SYSCALL \<longrightarrow> reg_eax (tf_regs (get_tf p s)) \<notin> {9, 16} \<and>
      (reg_eax (tf_regs (get_tf p s)) = 5 \<longrightarrow> reg_esi (tf_regs (get_tf p s)) AND NOT 0xFFF = 0)"
  shows "keeps kinv (trap_dispatch kva cr2 p s)"
proof -
  have inv: "kinv s" "cur_live s" "refs_ok s" using t by (simp_all add: tinv_def)
  have pr: "keeps kinv (print_trapframe addr cr2 l tf v)" if "kinv v" for addr l tf v
    by (rule print_trapframe_keeps [of kinv, OF that]) (auto intro: kinv_cons cprintf_keeps)
  have "keeps kinv (syscall (reg_eax r) (reg_edx r) (reg_ecx r) (reg_ebx r) (reg_edi r) (reg_esi r) s)"
    if "tf_trapno (get_tf p s) = T_SYSCALL" "r = tf_regs (get_tf p s)" for r
    using sys that inv by (intro syscall_keeps) auto
  then show ?thesis
    unfolding trap_dispatch_def Let_def
    by (intro keeps_if keeps_bind_case page_fault_handler_keeps pr cprintf_keeps with_curenv_keeps env_destroy_keeps
        sched_yield_keeps time_tick_keeps t inv) (auto intro!: kinv_upd_tf kinv_cons inv)
qed

lemma tinv_cong:
  "tinv s \<Longrightarrow> kinv s' \<Longrightarrow> curenv s' = curenv s \<Longrightarrow> (\<And>c. env_status (envs s' c) = env_status (envs s c)) \<Longrightarrow>
    (\<And>c. env_pgdir (envs s' c) = env_pgdir (envs s c)) \<Longrightarrow> pages s' = pages s \<Longrightarrow>
    cr3 (cpus s' (cpunum s')) = cr3 (cpus s (cpunum s)) \<Longrightarrow> tinv s'"
  by (simp add: tinv_def cur_live_def refs_ok_def)

lemma tinv_status:
  assumes "tinv s"
  shows "tinv (upd_cpu (\<lambda>c. c\<lparr>cpu_status := v\<rparr>) s)"
proof (rule tinv_cong [OF assms])
  show "kinv (upd_cpu (\<lambda>c. c\<lparr>cpu_status := v\<rparr>) s)"
    using assms by (intro kinv_upd_cpu) (auto simp: tinv_def)
qed (auto simp: curenv_def)

lemma tinv_lock:
  assumes "tinv s"
  shows "keeps tinv (lock_kernel s)"
proof -
  have "tinv (s\<lparr>kernel_lock := l\<rparr>)" for l
    using assms by (rule tinv_cong) (use assms in \<open>auto simp: tinv_def curenv_def intro!: kinv_lock\<close>)
  with assms show ?thesis by (auto simp: lock_kernel_def split: prod.split)
qed

lemma tinv_env_tf: "tinv s \<Longrightarrow> tinv (upd_env c (\<lambda>v. v\<lparr>env_tf := tf\<rparr>) s)"
  by (auto simp: tinv_def curenv_def cur_live_def refs_ok_def intro!: kinv_upd_env)


lemma env_reap_leaves:
  assumes "kinv s" "curenv s = Some c"
  shows "keeps kinv (env_reap c s)" "env_reap c s \<noteq> Inr x"
  using assms kinv_cur [OF assms]
  by (auto simp: env_reap_def bindR_eq_Inr sched_yield_noreturn
      intro!: keeps_bind_case env_free_keeps sched_yield_keeps kinv_upd_cpu)

lemma trap_user_tinv:
  assumes "tinv s"
  shows "keeps kinv (trap_user tf s)" "trap_user tf s = Inr (p, t) \<Longrightarrow> tinv t \<and> get_tf p t = tf"
proof -
  have tk: "kinv v" if "tinv v" for v using that by (simp add: tinv_def)
  have l: "keeps tinv (lock_kernel s)" using assms by (rule tinv_lock)
  then show "keeps kinv (trap_user tf s)"
    unfolding trap_user_def
    by (cases "lock_kernel s")
      (auto simp: tk keeps_def [of _ "Inl _"] intro!: keeps_bind_case [of kinv] env_reap_leaves kinv_upd_env
        split: option.split)
  show "tinv t \<and> get_tf p t = tf" if r: "trap_user tf s = Inr (p, t)"
  proof -
    from r obtain v c where v: "lock_kernel s = Inr ((), v)" "curenv v = Some c"
      by (auto simp: trap_user_def bindR_eq_Inr split: option.splits)
    then have "tinv v" using l by simp
    moreover have "env_reap c v \<noteq> Inr x" for x
      using v(2) tk [OF \<open>tinv v\<close>] by (intro env_reap_leaves)
    ultimately show ?thesis
      using r v by (auto simp: trap_user_def bindR_eq_Inr intro: tinv_env_tf split: if_splits)
  qed
qed

lemma trap_resume_noreturn: "trap_resume s \<noteq> Inr x"
  by (simp add: trap_resume_def env_run_noreturn sched_yield_noreturn split: option.split)

lemma trap_resume_keeps: "kinv s \<Longrightarrow> keeps kinv (trap_resume s)"
  unfolding trap_resume_def
  by (auto intro!: env_run_keeps sched_yield_keeps kinv_cur split: option.split)

lemma trap_keeps:
  assumes t: "tinv s"
    and sys: "tf_trapno tf = T_SYSCALL \<longrightarrow> reg_eax (tf_regs tf) \<notin> {9, 16} \<and>
      (reg_eax (tf_regs tf) = 5 \<longrightarrow> reg_esi (tf_regs tf) AND NOT 0xFFF = 0)"
  shows "keeps kinv (trap kva cr2 tf s)"
proof -
  let ?l = "\<lambda>v. if cpu_status (cpus s (cpunum s)) = CPU_HALTED then lock_kernel v else Inr ((), v)"
  let ?v = "upd_cpu (\<lambda>c. c\<lparr>cpu_status := CPU_STARTED\<rparr>) s"
  have tk: "kinv v" if "tinv v" for v using that by (simp add: tinv_def)
  have v: "keeps tinv (?l ?v)"
    using tinv_status [OF t] by (auto intro: tinv_lock)
  have "keeps kinv (bindR (if tf_cs tf AND 3 = 3 then trap_user tf v else Inr (TfStack tf, v)) (\<lambda>(p, s).
        bindR (trap_dispatch kva cr2 p s) (\<lambda>(_, s). trap_resume s)))" if "tinv v" for v
    using trap_user_tinv [OF that, of tf] that sys
    by (intro keeps_bind_strong)
      (auto intro!: keeps_bind_case trap_dispatch_keeps trap_resume_keeps tk split: if_splits)
  then show ?thesis
    unfolding trap_def Let_def using v
    by (intro keeps_bind_strong keeps_weaken [OF v tk]) (auto split: if_splits)
qed


section \<open>The frame of a page fault\<close>

lemma utf_writable:
  assumes K: "kcur K c pd s"
    and ok: "\<forall>a. utf_addr esp \<le> a \<and> unat a < unat (utf_addr esp) + 52 \<longrightarrow> user_ok s pd (PTE_W OR PTE_U OR PTE_P) a"
  shows "writable s pd (utf_addr esp) 52"
  unfolding writable_def
proof (intro allI impI conjI)
  fix i :: nat
  assume i: "i < 52"
  show b: "pdx (utf_addr esp + of_nat i) < 955" using i by (rule utf_addr_below)
  have inv: "vm_inv K (\<lambda>_. 0) s" "K pd = KPD"
    using K kernel_invD(1) by (auto simp: kcur_def)
  have "user_ok s pd (PTE_W OR PTE_U OR PTE_P) (utf_addr esp + of_nat i)"
    using ok utf_addr_add [OF i, of esp] i by (simp add: word_le_nat_alt)
  then show "translate s pd True (utf_addr esp + of_nat i) \<noteq> None"
    by (rule user_ok_translate [OF inv b]) simp_all
qed

lemma store_utf:
  assumes K: "kcur K c pd s" and w: "writable s pd u 52"
  obtains s' where
    "store_at u (map (\<lambda>i. (i, utrapframe va tf ! i)) ([2..<10] @ [10, 1, 12, 0, 11])) s = Inr ((), s')"
    "kcur K c pd s'" "envs s' = envs s" "cpus s' = cpus s" "cpunum s' = cpunum s" "kernel_lock s' = kernel_lock s"
    "\<And>i. i < 13 \<Longrightarrow> uword s' pd (u + of_nat (4 * i)) (utrapframe va tf ! i)"
proof -
  define ord where "ord = [2..<10] @ [10, 1, 12, 0, 11]"
  define ws where "ws = map (\<lambda>i. (i, utrapframe va tf ! i)) ord"
  have o: "set ord = {..<13}"
    unfolding ord_def by (auto; presburger)
  have d: "distinct ord"
    by (simp add: ord_def)
  have ws: "set ws = (\<lambda>i. (i, utrapframe va tf ! i)) ` {..<13}" "map fst ws = ord"
    by (simp_all add: ws_def o comp_def)
  have w': "writable s pd u (4 * 13)" using w by simp
  obtain s' where "forR (\<lambda>(i, w) s. kstore32 (u + of_nat (4 * i)) w s) ws s = Inr ((), s')"
    "stored K c pd (\<Union>i \<in> fst ` set ws. word_offs u i) s s'"
    "\<And>i w. (i, w) \<in> set ws \<Longrightarrow> uword s' pd (u + of_nat (4 * i)) w"
  proof (rule store_words_stored [OF K w', of ws])
    show "i < 13" if "(i, w) \<in> set ws" for i w
      using that ws(1) by auto
  qed (use ws(2) d in simp_all)
  then show thesis
    using ws(1) by (intro that [of s', folded ord_def, folded ws_def]) (simp_all add: stored_def store_at_def)
qed

lemma fault_upcall_ok:
  assumes K: "kcur K c pd s" and h: "holding (kernel_lock s) (cpunum s)" and tf: "tf = env_tf (envs s c)"
    and uu: "u = utf_addr (tf_esp tf)"
    and chk: "user_mem_check c u UTF_SIZE (PTE_W OR PTE_U OR PTE_P) s = Inr (0, s)"
    and ok: "\<forall>a. u \<le> a \<and> unat a < unat u + unat UTF_SIZE \<longrightarrow> user_ok s pd (PTE_W OR PTE_U OR PTE_P) a"
  shows "\<exists>s'. fault_upcall cr2 (TfEnv c) c s = Inl (ToUser s') \<and> running c s' \<and>
     env_tf (envs s' c) = tf\<lparr>tf_eip := env_pgfault_upcall (envs s c), tf_esp := u\<rparr> \<and>
     (\<forall>i<13. kload32 (u + of_nat (4 * i)) s' = Inr (utrapframe cr2 tf ! i, s'))"
proof -
  have w: "writable s pd u 52"
    unfolding uu by (rule utf_writable [OF K]) (use ok uu in simp)
  obtain s' where s': "store_at u (map (\<lambda>i. (i, utrapframe cr2 tf ! i)) ([2..<10] @ [10, 1, 12, 0, 11])) s = Inr ((), s')"
    "kcur K c pd s'" "envs s' = envs s" "cpus s' = cpus s" "cpunum s' = cpunum s" "kernel_lock s' = kernel_lock s"
    "\<And>i. i < 13 \<Longrightarrow> uword s' pd (u + of_nat (4 * i)) (utrapframe cr2 tf ! i)"
    using K w by (rule store_utf) blast
  let ?v = "upd_tf (TfEnv c) (\<lambda>tf. tf\<lparr>tf_eip := env_pgfault_upcall (envs s c), tf_esp := u\<rparr>) s'"
  have run: "fault_upcall cr2 (TfEnv c) c s = env_run c ?v"
    using chk s'(1,3) tf uu by (simp add: fault_upcall_def user_mem_assert_def)
  have v: "curenv ?v = Some c" "holding (kernel_lock ?v) (cpunum ?v)"
    using K h s' by (simp_all add: curenv_def kcur_def)
  let ?w = "upd_env c (\<lambda>v. v\<lparr>env_cpunum := cpunum ?v\<rparr>) (?v\<lparr>kernel_lock := \<lparr>locked = 0, lock_cpu = None\<rparr>\<rparr>)"
  have ub: "ubyte ?w = ubyte s'"
    by (simp add: fun_eq_iff ubyte_def translate_def get_byte_def Let_def)
  have "kload32 (u + of_nat (4 * i)) ?w = Inr (utrapframe cr2 tf ! i, ?w)" if "i < 13" for i
  proof (rule kload32_uword)
    show "uword ?w pd (u + of_nat (4 * i)) (utrapframe cr2 tf ! i)"
      using s'(7) [OF that] unfolding uword_def ub .
    show "cr3 (cpus ?w (cpunum ?w)) = pd" using K s' by (simp add: kcur_def)
  qed
  with env_run_again [OF v] run v(1) s' tf show ?thesis
    by (intro exI [of _ ?w]) (simp add: running_def curenv_def)
qed


text \<open>The sample environment with its page directory loaded, at a fault of its program.\<close>

definition fault_state :: kstate where
  "fault_state = upd_cpu (\<lambda>c. c\<lparr>cr3 := 2\<rparr>) (upd_env 0 (\<lambda>v. v\<lparr>env_pgfault_upcall := 0x800020,
     env_tf := (env_tf v)\<lparr>tf_cs := GD_UT OR 3, tf_esp := 0xEEBFDF00, tf_trapno := T_PGFLT\<rparr>\<rparr>) one_run)"

lemma fault_state:
  "tinv fault_state" "curenv fault_state = Some 0" "env_pgdir (envs fault_state 0) = Some 2"
  "holding (kernel_lock fault_state) (cpunum fault_state)" "env_pgfault_upcall (envs fault_state 0) = 0x800020"
  "tf_cs (env_tf (envs fault_state 0)) = GD_UT OR 3" "tf_esp (env_tf (envs fault_state 0)) = 0xEEBFDF00"
proof -
  have k: "kinv fault_state"
    unfolding fault_state_def using one_run_ready(1) by (intro kinv_upd_cpu kinv_upd_env) simp_all
  show "tinv fault_state"
    unfolding tinv_def
  proof (intro conjI k)
    show "cur_live fault_state"
      using one_run_ready(2) one_run(2) by (simp add: fault_state_def cur_live_def curenv_def)
    show "refs_ok fault_state"
      using one_run_ready(3) by (simp add: fault_state_def refs_ok_def)
    show "\<forall>c. curenv fault_state = Some c \<longrightarrow> env_pgdir (envs fault_state c) = Some (cr3 (cpus fault_state (cpunum fault_state)))"
      using one_run(2,6) by (simp add: fault_state_def curenv_def)
  qed
qed (use one_run in \<open>simp_all add: fault_state_def curenv_def\<close>)


text \<open>C25. Serving a trap keeps the kernel consistent and never returns to the code that pushed the frame:
  whatever the frame, if the invariant holds and the address space of the current environment is
  loaded, the invariant holds where the kernel leaves for user mode, halts, enters the monitor or waits
  for the lock. Excluded are the system calls excluded in the invariant of \<open>syscall\<close>.\<close>

theorem trap_invariant:
  assumes "tinv s" "tf_trapno tf = T_SYSCALL \<longrightarrow> reg_eax (tf_regs tf) \<notin> {9, 16} \<and>
      (reg_eax (tf_regs tf) = 5 \<longrightarrow> reg_esi (tf_regs tf) AND NOT 0xFFF = 0)"
  shows "keeps kinv (trap kva cr2 tf s) \<and> trap kva cr2 tf s \<noteq> Inr x"
proof (rule conjI [OF trap_keeps [OF assms]])
  show "trap kva cr2 tf s \<noteq> Inr x"
    by (auto simp: trap_def Let_def bindR_eq_Inr trap_resume_noreturn)
qed

theorem trap_invariant_witness:
  "tinv fault_state \<and> keeps kinv (trap (\<lambda>_. 0) 0 (env_tf (envs fault_state 0)) fault_state) \<and>
   trap (\<lambda>_. 0) 0 (env_tf (envs fault_state 0)) fault_state \<noteq> Inr ((), fault_state)"
proof -
  have no: "tf_trapno (env_tf (envs fault_state 0)) = T_PGFLT" by (simp add: fault_state_def)
  show ?thesis
    using trap_invariant [OF fault_state(1), of "env_tf (envs fault_state 0)" "\<lambda>_. 0" 0 "((), fault_state)"]
      no fault_state(1) by simp
qed

text \<open>After \<open>trap_init\<close> every gate of the table that it sets is an interrupt gate into the kernel's code
  segment for the entry point of its own number, and user code can raise exactly the breakpoint (3) and
  the system call (48) itself; other entries of the table stay as they were.\<close>

lemma trap_init_gates:
  "trap_init idt n =
    (if n \<in> {0..<9} \<union> {10..<15} \<union> {16..<20} \<union> {32..<44} \<union> {48}
     then Some \<lparr>gd_istrap = False, gd_sel = GD_KT, gd_handler = n, gd_dpl = (if n \<in> {3, 48} then 3 else 0)\<rparr>
     else idt n)"
proof -
  have "fold (\<lambda>n. SETGATE n False GD_KT n (if n = 3 \<or> n = 48 then 3 else 0)) ns idt n =
    (if n \<in> set ns then Some \<lparr>gd_istrap = False, gd_sel = GD_KT, gd_handler = n, gd_dpl = (if n \<in> {3, 48} then 3 else 0)\<rparr>
     else idt n)" for ns
    by (induction ns arbitrary: idt) (auto simp: SETGATE_def)
  moreover have "set ([0..<9] @ [10..<15] @ [16..<20] @ [48] @ [32..<44]) =
      {0..<9} \<union> {10..<15} \<union> {16..<20} \<union> {32..<44} \<union> {48::nat}"
    unfolding set_append set_upt by auto
  ultimately show ?thesis
    unfolding trap_init_def by presburger
qed

end
