(* ===== verification/Ulib.thy ===== *)
theory Ulib
  imports Trap CString
begin

text \<open>
  The ground of the user library: loads and stores of user code through its page directory, the view of the
  page tables at \<open>uvpt\<close> and \<open>uvpd\<close> (lib/entry.S), and the stubs of the system calls (lib/syscall.c,
  inc/lib.h). A stub runs the kernel's \<open>syscall\<close>; that the trap into the kernel and the way back
  do just that is proved as well. An access that faults leaves the modelled code.

  Proved: \<open>uvpt\<close> and \<open>uvpd\<close> show the entries that the kernel's page table walk finds; what the calls on pages do to
  the address spaces, with the frames they take; user memory obeys the contract \<open>ram\<close> of the string library.
\<close>

unbundle bit_operations_syntax

section \<open>Memory accesses of user code\<close>

definition utranslate :: "kstate \<Rightarrow> nat \<Rightarrow> bool \<Rightarrow> u32 \<Rightarrow> nat option" where
  "utranslate s pgdir wr va =
    (let pde = pmem s pgdir (pdx va); pte = pmem s (frame pde) (ptx va)
     in if present pde \<and> present pte \<and> pde AND PTE_U \<noteq> 0 \<and> pte AND PTE_U \<noteq> 0 \<and>
           (wr \<longrightarrow> pde AND PTE_W \<noteq> 0 \<and> pte AND PTE_W \<noteq> 0)
        then Some (frame pte) else None)"

definition uload8 :: "kstate loader" where
  "uload8 va s =
    (case utranslate s (cr3 (cpus s (cpunum s))) False va of
       None \<Rightarrow> Inl (Undefined ''page fault'')
     | Some f \<Rightarrow> Inr (get_byte s f (unat (PGOFF va)), s))"

definition ustore8 :: "kstate storer" where
  "ustore8 va b s =
    (case utranslate s (cr3 (cpus s (cpunum s))) True va of
       None \<Rightarrow> Inl (Undefined ''page fault'')
     | Some f \<Rightarrow> Inr ((), put_byte f (unat (PGOFF va)) b s))"

text \<open>Words at addresses that are multiples of four.\<close>

definition uload32 :: "u32 \<Rightarrow> kstate \<Rightarrow> u32 kres" where
  "uload32 va s =
    (case utranslate s (cr3 (cpus s (cpunum s))) False va of
       None \<Rightarrow> Inl (Undefined ''page fault'')
     | Some f \<Rightarrow> Inr (pmem s f (unat (PGOFF va) div 4), s))"

definition ustore32 :: "u32 \<Rightarrow> u32 \<Rightarrow> kstate \<Rightarrow> unit kres" where
  "ustore32 va w s =
    (case utranslate s (cr3 (cpus s (cpunum s))) True va of
       None \<Rightarrow> Inl (Undefined ''page fault'')
     | Some f \<Rightarrow> Inr ((), set_word f (unat (PGOFF va) div 4) w s))"

definition uvpt :: "u32 \<Rightarrow> kstate \<Rightarrow> u32 kres" where
  "uvpt n s = uload32 (UVPT + 4 * n) s"

definition uvpd :: "u32 \<Rightarrow> kstate \<Rightarrow> u32 kres" where
  "uvpd n s = uload32 (UVPT + drop_bit 12 UVPT * 4 + 4 * n) s"

text \<open>The test \<open>(uvpd[PDX(va)] & PTE_P) && (uvpt[PGNUM(va)] & PTE_P)\<close>.\<close>

definition upresent :: "u32 \<Rightarrow> kstate \<Rightarrow> bool kres" where
  "upresent va s =
    bindR (uvpd (PDX va) s) (\<lambda>(pde, s).
      if pde AND PTE_P = 0 then Inr (False, s)
      else bindR (uvpt (PGNUM va) s) (\<lambda>(pte, s). Inr (pte AND PTE_P \<noteq> 0, s)))"

section \<open>System call stubs\<close>

definition usyscall :: "u32 \<Rightarrow> bool \<Rightarrow> u32 \<Rightarrow> u32 \<Rightarrow> u32 \<Rightarrow> u32 \<Rightarrow> u32 \<Rightarrow> kstate \<Rightarrow> int kres" where
  "usyscall num check a1 a2 a3 a4 a5 s =
    bindR (syscall num a1 a2 a3 a4 a5 s) (\<lambda>(ret, s).
      if check \<and> ret > 0 then Inl (Panic ''syscall returned > 0'') else Inr (ret, s))"

definition usys_cputs :: "u32 \<Rightarrow> u32 \<Rightarrow> kstate \<Rightarrow> unit kres" where
  "usys_cputs va len s = bindR (usyscall 0 False va len 0 0 0 s) (\<lambda>(_, s). Inr ((), s))"

definition usys_cgetc :: "kstate \<Rightarrow> int kres" where
  "usys_cgetc = usyscall 1 False 0 0 0 0 0"

definition usys_env_destroy :: "u32 \<Rightarrow> kstate \<Rightarrow> int kres" where
  "usys_env_destroy envid = usyscall 3 True envid 0 0 0 0"

definition usys_getenvid :: "kstate \<Rightarrow> int kres" where
  "usys_getenvid = usyscall 2 False 0 0 0 0 0"

definition usys_yield :: "kstate \<Rightarrow> unit kres" where
  "usys_yield s = bindR (usyscall 11 False 0 0 0 0 0 s) (\<lambda>(_, s). Inr ((), s))"

definition usys_page_alloc :: "u32 \<Rightarrow> u32 \<Rightarrow> u32 \<Rightarrow> kstate \<Rightarrow> int kres" where
  "usys_page_alloc envid va perm = usyscall 4 True envid va perm 0 0"

definition usys_page_map :: "u32 \<Rightarrow> u32 \<Rightarrow> u32 \<Rightarrow> u32 \<Rightarrow> u32 \<Rightarrow> kstate \<Rightarrow> int kres" where
  "usys_page_map srcenv srcva dstenv dstva perm = usyscall 5 True srcenv srcva dstenv dstva perm"

definition usys_page_unmap :: "u32 \<Rightarrow> u32 \<Rightarrow> kstate \<Rightarrow> int kres" where
  "usys_page_unmap envid va = usyscall 6 True envid va 0 0 0"

definition usys_exofork :: "kstate \<Rightarrow> int kres" where
  "usys_exofork = syscall 7 0 0 0 0 0"

definition usys_env_set_status :: "u32 \<Rightarrow> u32 \<Rightarrow> kstate \<Rightarrow> int kres" where
  "usys_env_set_status envid status = usyscall 8 True envid status 0 0 0"

definition usys_env_set_trapframe :: "u32 \<Rightarrow> u32 \<Rightarrow> kstate \<Rightarrow> int kres" where
  "usys_env_set_trapframe envid tf = usyscall 9 True envid tf 0 0 0"

definition usys_env_set_pgfault_upcall :: "u32 \<Rightarrow> u32 \<Rightarrow> kstate \<Rightarrow> int kres" where
  "usys_env_set_pgfault_upcall envid upcall = usyscall 10 True envid upcall 0 0 0"

definition usys_ipc_try_send :: "u32 \<Rightarrow> u32 \<Rightarrow> u32 \<Rightarrow> u32 \<Rightarrow> kstate \<Rightarrow> int kres" where
  "usys_ipc_try_send envid value srcva perm = usyscall 12 False envid value srcva perm 0"

definition usys_ipc_recv :: "u32 \<Rightarrow> kstate \<Rightarrow> int kres" where
  "usys_ipc_recv dstva = usyscall 13 True dstva 0 0 0 0"

definition usys_time_msec :: "kstate \<Rightarrow> u32 kres" where
  "usys_time_msec s = bindR (usyscall 14 False 0 0 0 0 0 s) (\<lambda>(r, s). Inr (word_of_int r, s))"

definition usys_send_packet :: "u32 \<Rightarrow> u32 \<Rightarrow> kstate \<Rightarrow> int kres" where
  "usys_send_packet va len = usyscall 15 True va len 0 0 0"

definition usys_rcv_packet :: "u32 \<Rightarrow> u32 \<Rightarrow> kstate \<Rightarrow> int kres" where
  "usys_rcv_packet va len = usyscall 16 True va len 0 0 0"

text \<open>\<open>pageref\<close> (lib/pageref.c) reads the kernel's \<open>pages\<close> array, which is mapped read-only for user code.\<close>

definition pageref :: "u32 \<Rightarrow> kstate \<Rightarrow> nat kres" where
  "pageref v s =
    bindR (uvpd (PDX v) s) (\<lambda>(pde, s).
      if pde AND PTE_P = 0 then Inr (0, s)
      else bindR (uvpt (PGNUM v) s) (\<lambda>(pte, s).
        if pte AND PTE_P = 0 then Inr (0, s) else Inr (unat (pp_ref (pages s (unat (PGNUM pte)))), s)))"

section \<open>The window on the page tables\<close>

lemma self_entry:
  assumes "pd < 1048576"
  shows "frame (page2pa pd OR PTE_P OR PTE_U) = pd" "present (page2pa pd OR PTE_P OR PTE_U)"
    "(page2pa pd OR PTE_P OR PTE_U) AND PTE_U \<noteq> 0"
proof -
  show "frame (page2pa pd OR PTE_P OR PTE_U) = pd"
    using frame_or_flags [OF assms, of 5] by (simp add: or.assoc)
  show "present (page2pa pd OR PTE_P OR PTE_U)"
    by (simp add: even_or_iff)
  have "bit (page2pa pd OR PTE_P OR PTE_U) 2"
    by (simp add: bit_or_iff bit_numeral_rec numeral_2_eq_2)
  then show "(page2pa pd OR PTE_P OR PTE_U) AND PTE_U \<noteq> 0"
    using and_exp_eq_0_iff_not_bit [of "page2pa pd OR PTE_P OR PTE_U" 2] by simp
qed

lemma window_addr:
  fixes va :: u32
  shows "pdx (UVPT + 4 * PGNUM va) = 957" "ptx (UVPT + 4 * PGNUM va) = pdx va"
    "unat (PGOFF (UVPT + 4 * PGNUM va)) div 4 = ptx va"
proof -
  define n where "n = unat va div 4096"
  have n: "n < 1048576" "unat (PGNUM va) = n"
    using u32_less [of va] by (auto simp: n_def unat_PGNUM)
  have a: "unat (UVPT + 4 * PGNUM va) = 4013948928 + 4 * n"
    using n by (simp add: unat_word_ariths)
  show "pdx (UVPT + 4 * PGNUM va) = 957"
    using n unfolding unat_PDX a by simp
  have "n div 1024 < 1024" using n(1) by simp
  then have "(979968 + n div 1024) mod 1024 = n div 1024"
    using mod_mult_self3 [of 957 1024 "n div 1024"] by simp
  moreover have "(4013948928 + 4 * n) div 4096 = 979968 + n div 1024" by simp
  ultimately show "ptx (UVPT + 4 * PGNUM va) = pdx va"
    unfolding unat_PTX a by (simp add: unat_PDX n_def div_mult2_eq [symmetric])
  have "(4013948928 + 4 * n) mod 4096 div 4 = n mod 1024"
    using mult_mod_right [of 4 "1003487232 + n" 1024] mod_mult_self3 [of 979968 1024 n] by simp
  then show "unat (PGOFF (UVPT + 4 * PGNUM va)) div 4 = ptx va"
    unfolding unat_PGOFF a by (simp add: unat_PTX n_def)
qed

lemma directory_addr:
  assumes "i < 1024"
  shows "pdx (UVPT + drop_bit 12 UVPT * 4 + 4 * of_nat i) = 957" "ptx (UVPT + drop_bit 12 UVPT * 4 + 4 * of_nat i) = 957"
    "unat (PGOFF (UVPT + drop_bit 12 UVPT * 4 + 4 * of_nat i)) div 4 = i"
proof -
  have a: "unat (UVPT + drop_bit 12 UVPT * 4 + 4 * of_nat i) = 4017868800 + 4 * i"
    using assms by (simp add: unat_word_ariths unat_of_nat drop_bit_eq_div)
  have "(4017868800 + 4 * i) mod 4096 div 4 = i"
    using assms mult_mod_right [of 4 "1004467200 + i" 1024] mod_mult_self3 [of 980925 1024 i] by simp
  moreover have "(4017868800 + 4 * i) div 4096 = 980925" using assms by (intro div_nat_eqI) simp_all
  ultimately show "pdx (UVPT + drop_bit 12 UVPT * 4 + 4 * of_nat i) = 957" "ptx (UVPT + drop_bit 12 UVPT * 4 + 4 * of_nat i) = 957"
    "unat (PGOFF (UVPT + drop_bit 12 UVPT * 4 + 4 * of_nat i)) div 4 = i"
    using assms unfolding unat_PDX unat_PTX unat_PGOFF a by simp_all
qed

lemma kcurD:
  assumes "kcur K c pd s"
  shows "kernel_inv K s" "vm_inv K (\<lambda>_. 0) s" "K pd = KPD" "cr3 (cpus s (cpunum s)) = pd" "curenv s = Some c" "c < NENV"
    "env_pgdir (envs s c) = Some pd" "pd < 1048576"
  using assms kernel_invD(1) vm_inv_bound [of K "\<lambda>_. 0" s pd] by (auto simp: kcur_def)

lemma uvpt_eq:
  assumes "kcur K c pd s" "pdx va < 955" "pte_of s pd va = Some w"
  shows "uvpt (PGNUM va) s = Inr (w, s)"
proof -
  note D = kcurD [OF assms(1)]
  have p: "present (pmem s pd (pdx va))" and w: "w = pmem s (frame (pmem s pd (pdx va))) (ptx va)"
    using assms(3) by (auto simp: pte_of_def Let_def split: if_splits)
  from D(2,3) assms(2) have "pmem s pd (pdx va) AND PTE_U \<noteq> 0"
    by (cases rule: user_pde_cases) (use p in \<open>auto simp: pde_ok_def\<close>)
  then show ?thesis
    using p w self_entry [OF D(8)] self_map [OF D(2,3)] D(4)
    by (simp add: uvpt_def uload32_def utranslate_def window_addr del: UVPT_def PTE_P_def PTE_U_def)
qed

lemma uvpd_eq:
  assumes "kcur K c pd s"
  shows "uvpd (PDX va) s = Inr (pmem s pd (pdx va), s)"
proof -
  note D = kcurD [OF assms(1)]
  have "PDX va = of_nat (pdx va)" by simp
  then show ?thesis
    using self_entry [OF D(8)] self_map [OF D(2,3)] D(4) directory_addr [of "pdx va"]
    by (simp add: uvpd_def uload32_def utranslate_def del: UVPT_def PTE_P_def PTE_U_def)
qed

lemma upresent_eq:
  assumes "kcur K c pd s" "pdx va < 955"
  shows "upresent va s = Inr (aspace s pd va \<noteq> None, s)"
proof (cases "pte_of s pd va")
  case None
  then have "\<not> present (pmem s pd (pdx va))" by (auto simp: pte_of_def Let_def split: if_splits)
  then show ?thesis using None by (simp add: upresent_def uvpd_eq [OF assms(1)] aspace_def)
next
  case (Some w)
  then have "present (pmem s pd (pdx va))" by (auto simp: pte_of_def Let_def split: if_splits)
  then show ?thesis
    using Some by (simp add: upresent_def uvpd_eq [OF assms(1)] uvpt_eq [OF assms Some] aspace_def)
qed

lemma aspace_pte:
  assumes "aspace s pd va = Some (p, fl)"
  obtains w where "pte_of s pd va = Some w" "present w" "frame w = p" "w AND 0xFFF = fl"
  using assms by (auto simp: aspace_def split: option.splits if_splits)

section \<open>Calls on pages\<close>

text \<open>
  One slot of one address space becomes \<open>m\<close>: all other slots of all address spaces, the contents of the data
  pages and the rest of the kernel state are as before.
\<close>

definition vm_step :: "(nat \<Rightarrow> kind) \<Rightarrow> kstate \<Rightarrow> nat \<Rightarrow> u32 \<Rightarrow> (nat \<times> u32) option \<Rightarrow> (nat \<Rightarrow> kind) \<Rightarrow> kstate \<Rightarrow> bool" where
  "vm_step K s dpd va m K' s' \<longleftrightarrow> kernel_inv K' s' \<and> vm_frame s s' \<and>
    (\<forall>pd va'. K pd = KPD \<and> pdx va' < 955 \<longrightarrow>
      aspace s' pd va' = (if pd = dpd \<and> PGNUM va' = PGNUM va then m else aspace s pd va')) \<and>
    (\<forall>q. K q = KData \<longrightarrow> pmem s' q = pmem s q)"

lemma vm_stepD:
  assumes "vm_step K s dpd va m K' s'"
  shows "kernel_inv K' s'" "vm_frame s s'"
    "\<And>pd va'. K pd = KPD \<Longrightarrow> pdx va' < 955 \<Longrightarrow>
      aspace s' pd va' = (if pd = dpd \<and> PGNUM va' = PGNUM va then m else aspace s pd va')"
    "\<And>q. K q = KData \<Longrightarrow> pmem s' q = pmem s q"
  using assms by (auto simp: vm_step_def)

lemma kcur_step:
  assumes "kcur K c pd s" "vm_step K s dpd va m K' s'"
  shows "kcur K' c pd s'"
proof -
  note D = kcurD [OF assms(1)] and V = vm_stepD(1,2) [OF assms(2)]
  have "env_pgdir (envs s' c) = Some pd" using D(7) vm_frame_sel(3) [OF V(2)] by simp
  with D V kinv_pd(1) [OF V(1) D(6) this] show ?thesis
    by (simp add: kcur_def vm_frame_sel [OF V(2)])
qed

lemma kinds_pgdir:
  assumes "kernel_inv K s" "kernel_inv K' s'" "envs s' = envs s"
  shows "K' q = KPD \<longleftrightarrow> K q = KPD"
proof -
  have "K q = KPD \<longleftrightarrow> (\<exists>e<NENV. env_pgdir (envs s e) = Some q)" if "kernel_inv K s" for K s
    using kernel_invD(2) [OF that] kinv_pd(1) [OF that] by (auto simp: env_inv_def simp del: NENV_def)
  from this [OF assms(1)] this [OF assms(2)] assms(3) show ?thesis by simp
qed

lemma page_map_ok:
  assumes k: "kcur K c pd s"
    and e: "envid2env src True s = Inr ((0, Some e), s)" "e < NENV" "env_pgdir (envs s e) = Some spd"
    and d: "envid2env dst True s = Inr ((0, Some d), s)" "d < NENV" "env_pgdir (envs s d) = Some dpd"
    and va: "\<not> bad_va srcva" "\<not> bad_va dstva" and a: "aspace s spd srcva = Some (p, fl)"
    and r: "pp_ref (pages s p) \<noteq> 0xFFFF" and perm: "perm AND NOT 0xFFF = 0"
  obtains (nomem) "usys_page_map src srcva dst dstva perm s = Inr (- E_NO_MEM, s)" "\<And>q. K q \<noteq> KFree"
    "aspace s dpd dstva = None"
  | (ok) s' K' where "usys_page_map src srcva dst dstva perm s = Inr (0, s')"
    "vm_step K s dpd dstva (Some (p, perm OR PTE_P)) K' s'"
    "\<And>q. K' q = K q \<or> K q = KData \<and> K' q = KFree \<or> K q = KFree \<and> K' q = KPT dpd (pdx dstva)"
proof -
  note D = kcurD [OF k]
  have spd: "K spd = KPD" "K dpd = KPD"
    using kinv_pd(1) [OF D(1) e(2,3)] kinv_pd(1) [OF D(1) d(2,3)] by auto
  have l: "page_lookup spd srcva s = Inr (Some (p, Some (frame (pmem s spd (pdx srcva)), ptx srcva)), s)"
    using page_lookup_eq [OF D(2) spd(1) good_va [OF va(1)]] a by (auto elim: aspace_pte)
  have p: "K p = KData" using page_lookup_kinv(2) [OF D(1) spd(1) good_va [OF va(1)] l] .
  have eq: "usys_page_map src srcva dst dstva perm s =
      bindR (bindR (page_insert dpd p dstva perm s) (\<lambda>(ret, s). if ret < 0 then Inr (ret, s) else Inr (0, s)))
        (\<lambda>(ret, s). if 0 < ret then Inl (Panic ''syscall returned > 0'') else Inr (ret, s))"
    using va e d l
    by (simp add: usys_page_map_def usyscall_def syscall_def sys_page_map_def with_env_def with_pgdir_def)
  from D(1) spd(2) good_va [OF va(2)] p r perm show thesis
  proof (cases rule: page_insert_kernel_inv)
    case nomem
    then show thesis
      using eq no_free_page [OF D(2) nomem(2)] by (intro that(1)) simp_all
  next
    case (ok s' K')
    have "vm_step K s dpd dstva (Some (p, perm OR PTE_P)) K' s'"
      using ok(2-5) by (simp add: vm_step_def)
    then show thesis
      using eq ok(1,6) by (intro that(2) [of s' K']) simp_all
  qed
qed

lemma page_alloc_ok:
  assumes k: "kcur K c pd s"
    and e: "envid2env envid True s = Inr ((0, Some e), s)" "e < NENV" "env_pgdir (envs s e) = Some dpd"
    and va: "\<not> bad_va va" and perm: "user_perm perm"
  obtains (nomem) s' where "usys_page_alloc envid va perm s = Inr (- E_NO_MEM, s')" "\<exists>p. \<forall>q. K q = KFree \<longrightarrow> q = p"
  | (ok) p s' K' where "usys_page_alloc envid va perm s = Inr (0, s')" "K p = KFree"
    "vm_step K s dpd va (Some (p, PTE_U OR PTE_P OR perm OR PTE_P)) K' s'" "pmem s' p = (\<lambda>_. 0)"
    "\<And>q. K q = KFree \<Longrightarrow> q \<noteq> p \<Longrightarrow> K' q = KFree \<or> K' q = KPT dpd (pdx va)"
proof -
  note D = kcurD [OF k]
  let ?perm = "PTE_U OR PTE_P OR perm"
  have low: "?perm AND NOT 0xFFF = 0" using perm user_perm_low [of perm] by auto
  have eq: "usys_page_alloc envid va perm s =
      bindR (alloc_page_at e va ?perm s) (\<lambda>(ret, s). if 0 < ret then Inl (Panic ''syscall returned > 0'') else Inr (ret, s))"
    using va perm e(1) user_perm_or [of perm]
    by (simp add: usys_page_alloc_def usyscall_def syscall_def sys_page_alloc_def with_env_def Let_def user_perm_def)
  from D(1) e(2,3) va low show thesis
  proof (cases rule: alloc_page_at_spec)
    case (nomem s')
    then show thesis using eq by (intro that(1)) simp_all
  next
    case (ok p s' K')
    have "vm_step K s dpd va (Some (p, ?perm OR PTE_P)) K' s'"
      using ok(3,4,6,7) by (simp add: vm_step_def)
    then show thesis
      using eq ok(1,2,5,8) by (intro that(2) [of s' p K']) (simp_all add: or.assoc)
  qed
qed

lemma page_unmap_ok:
  assumes k: "kcur K c pd s"
    and e: "envid2env envid True s = Inr ((0, Some e), s)" "e < NENV" "env_pgdir (envs s e) = Some dpd"
    and va: "\<not> bad_va va" and a: "pte_of s dpd va \<noteq> None"
  obtains s' K' where "usys_page_unmap envid va s = Inr (0, s')" "vm_step K s dpd va None K' s'"
    "\<And>q. K' q = K q \<or> K q = KData \<and> K' q = KFree"
proof -
  note D = kcurD [OF k] and d = kinv_pd(1) [OF kcurD(1) [OF k] e(2,3)]
  have t: "present (pmem s dpd (pdx va))" using a by (auto simp: pte_of_def Let_def split: if_splits)
  show thesis
  proof (rule page_remove_spec [OF D(2) d good_va [OF va] t])
    fix s' K'
    assume r: "page_remove dpd va s = Inr ((), s')" "vm_inv K' (\<lambda>_. 0) s'" "vm_frame s s'"
      "\<And>q. K' q = K q \<or> K q = KData \<and> 0 = (0 :: nat) \<and> K' q = KFree"
      "\<And>pd' va'. K pd' = KPD \<Longrightarrow> pdx va' < 955 \<Longrightarrow>
         aspace s' pd' va' = (if pd' = dpd \<and> PGNUM va' = PGNUM va then None else aspace s pd' va')"
      "\<And>q j. q \<noteq> frame (pmem s dpd (pdx va)) \<or> j \<noteq> ptx va \<Longrightarrow> pmem s' q j = pmem s q j"
    have ki: "kernel_inv K' s'"
      using r(4) kernel_invD(3) [OF D(1)] by (intro kernel_inv_vm [OF D(1) r(2,3)]) (metis kind.distinct)+
    from D(2) d good_va [OF va] have "K (frame (pmem s dpd (pdx va))) = KPT dpd (pdx va)"
      by (cases rule: user_pde_cases) (use t in auto)
    then have "pmem s' q = pmem s q" if "K q = KData" for q
      using r(6) [of q] that by (cases "q = frame (pmem s dpd (pdx va))") auto
    then have "vm_step K s dpd va None K' s'"
      using ki r(3,5) by (simp add: vm_step_def)
    then show thesis
      using r(1,4) va e by (intro that [of s' K'])
        (auto simp: usys_page_unmap_def usyscall_def syscall_def sys_page_unmap_def with_env_def with_pgdir_def)
  qed
qed

lemma self_env:
  assumes "kcur K c pd s"
  shows "envid2env 0 True s = Inr ((0, Some c), s)" "envid2env (env_id (envs s c)) True s = Inr ((0, Some c), s)"
proof -
  note D = kcurD [OF assms]
  show "envid2env 0 True s = Inr ((0, Some c), s)" using D(5) by (simp add: envid2env_def)
  have "ENVX (env_id (envs s c)) = c" "0 < sint (env_id (envs s c))" "env_status (envs s c) \<noteq> ENV_FREE"
    using env_slotD [OF kernel_invD(2) [OF D(1)] D(6)] kinv_pd(2) [OF D(1,6,7)] by (auto simp: env_slot_ok_def split: if_splits)
  then show "envid2env (env_id (envs s c)) True s = Inr ((0, Some c), s)"
    using D(5) by (auto simp: envid2env_def Let_def)
qed

section \<open>Counting references\<close>

text \<open>The places where a frame is mapped, as directories and page numbers.\<close>

definition maps_to :: "(nat \<Rightarrow> kind) \<Rightarrow> kstate \<Rightarrow> nat \<Rightarrow> (nat \<times> nat) set" where
  "maps_to K s q = {(pd, n). K pd = KPD \<and> n < 977920 \<and> (\<exists>fl. aspace s pd (of_nat n * PGSIZE) = Some (q, fl))}"

lemma page_addr:
  assumes "n < 1048576"
  shows "unat (of_nat n * PGSIZE) = n * 4096" "pdx (of_nat n * PGSIZE) = n div 1024" "ptx (of_nat n * PGSIZE) = n mod 1024"
    "unat (PGNUM (of_nat n * PGSIZE)) = n"
proof -
  show a: "unat (of_nat n * PGSIZE) = n * 4096" using assms by (simp add: unat_word_ariths unat_of_nat)
  have "n * 4096 div 4194304 = n div 1024" using div_mult2_eq [of "n * 4096" 4096 1024] by simp
  then show "pdx (of_nat n * PGSIZE) = n div 1024" "ptx (of_nat n * PGSIZE) = n mod 1024" "unat (PGNUM (of_nat n * PGSIZE)) = n"
    unfolding unat_PDX unat_PTX unat_PGNUM a by simp_all
qed

lemma page_of: "pdx va = unat (PGNUM va) div 1024" "ptx va = unat (PGNUM va) mod 1024"
  using PGNUM_split [of va] by simp_all

lemma maps_to_slot:
  assumes "vm_inv K x s" "(pd, n) \<in> maps_to K s q"
  shows "K (frame (pmem s pd (n div 1024))) = KPT pd (n div 1024)"
    "present (pmem s (frame (pmem s pd (n div 1024))) (n mod 1024))"
    "frame (pmem s (frame (pmem s pd (n div 1024))) (n mod 1024)) = q"
proof -
  have n: "n < 977920" "K pd = KPD" using assms(2) by (auto simp: maps_to_def)
  from assms(2) obtain fl where "aspace s pd (of_nat n * PGSIZE) = Some (q, fl)" by (auto simp: maps_to_def)
  then have p: "present (pmem s pd (n div 1024))" "present (pmem s (frame (pmem s pd (n div 1024))) (n mod 1024))"
    "frame (pmem s (frame (pmem s pd (n div 1024))) (n mod 1024)) = q"
    using n(1) page_addr [of n] by (auto simp: aspace_def pte_of_def Let_def simp del: PGSIZE_def split: option.splits if_splits)
  have "n div 1024 < 955" using n(1) by (simp add: less_mult_imp_div_less)
  from assms(1) n(2) this show "K (frame (pmem s pd (n div 1024))) = KPT pd (n div 1024)"
    by (cases rule: user_pde_cases) (use p(1) in auto)
  from p(2,3) show "present (pmem s (frame (pmem s pd (n div 1024))) (n mod 1024))"
    "frame (pmem s (frame (pmem s pd (n div 1024))) (n mod 1024)) = q" .
qed

lemma maps_to_bij:
  assumes inv: "vm_inv K x s"
  shows "bij_betw (\<lambda>(pd, n). (frame (pmem s pd (n div 1024)), n mod 1024)) (maps_to K s q) (mappings K s q)"
proof (rule bij_betw_imageI)
  show "inj_on (\<lambda>(pd, n). (frame (pmem s pd (n div 1024)), n mod 1024)) (maps_to K s q)"
  proof (rule inj_onI)
    fix a b
    assume ab: "a \<in> maps_to K s q" "b \<in> maps_to K s q"
      "(case a of (pd, n) \<Rightarrow> (frame (pmem s pd (n div 1024)), n mod 1024)) = (case b of (pd, n) \<Rightarrow> (frame (pmem s pd (n div 1024)), n mod 1024))"
    obtain pd n pd' n' where x: "a = (pd, n)" "b = (pd', n')" by (cases a; cases b)
    have m: "(pd, n) \<in> maps_to K s q" "(pd', n') \<in> maps_to K s q"
      and e: "frame (pmem s pd (n div 1024)) = frame (pmem s pd' (n' div 1024))" "n mod 1024 = n' mod 1024"
      using ab unfolding x by (simp_all only: prod.case prod.inject)
    have "KPT pd (n div 1024) = KPT pd' (n' div 1024)"
      using maps_to_slot(1) [OF inv m(1), unfolded e(1)] maps_to_slot(1) [OF inv m(2)] by (rule trans [OF sym])
    then have "pd = pd'" "n div 1024 = n' div 1024" by simp_all
    with e(2) show "a = b"
      unfolding x by (metis div_mult_mod_eq)
  qed
  have "(t, i) \<in> (\<lambda>(pd, n). (frame (pmem s pd (n div 1024)), n mod 1024)) ` maps_to K s q" if m: "(t, i) \<in> mappings K s q" for t i
  proof -
    from m obtain pd d where t: "K t = KPT pd d" "i < 1024" "present (pmem s t i)" "frame (pmem s t i) = q"
      by (auto simp: mappings_def elim: is_ptE)
    note T = table_okD [OF inv t(1)]
    let ?n = "d * 1024 + i"
    have n: "?n < 977920" "?n div 1024 = d" "?n mod 1024 = i" using T(2) t(2) by auto
    have "aspace s pd (of_nat ?n * PGSIZE) = Some (q, pmem s t i AND 0xFFF)"
      using n page_addr [of ?n] T t by (simp add: aspace_def pte_of_def del: PGSIZE_def of_nat_add of_nat_mult)
    then have "(pd, ?n) \<in> maps_to K s q"
      using T(1) n(1) unfolding maps_to_def by blast
    then show ?thesis
      by (rule rev_image_eqI) (use n T(4) in simp)
  qed
  moreover have "(frame (pmem s pd (n div 1024)), n mod 1024) \<in> mappings K s q" if m: "(pd, n) \<in> maps_to K s q" for pd n
  proof -
    have "is_pt K (frame (pmem s pd (n div 1024)))" "n mod 1024 < 1024"
      using maps_to_slot(1) [OF inv m] by (rule is_ptI) simp
    with maps_to_slot(2,3) [OF inv m] show ?thesis
      by (simp only: prod.case mappings_def mem_Collect_eq simp_thms)
  qed
  ultimately show "(\<lambda>(pd, n). (frame (pmem s pd (n div 1024)), n mod 1024)) ` maps_to K s q = mappings K s q"
    by fast
qed

lemma refs_maps_to:
  assumes "kernel_inv K s" "K q = KData"
  shows "unat (pp_ref (pages s q)) = card (maps_to K s q)" "finite (maps_to K s q)"
proof -
  note I = kernel_invD(1) [OF assms(1)]
  note b = maps_to_bij [OF I, of q]
  have "finite (mappings K s q)" using I by (simp add: vm_inv_def finite_mappings)
  then show "finite (maps_to K s q)" using bij_betw_finite [OF b] by simp
  show "unat (pp_ref (pages s q)) = card (maps_to K s q)"
    using ref_okD [OF I] assms(2) bij_betw_same_card [OF b] by (simp add: nrefs_def)
qed

section \<open>User memory as memory\<close>

lemma utranslate_aspace:
  assumes "vm_inv K x s" "K pd = KPD" "pdx va < 955"
  shows "utranslate s pd wr va =
    (case aspace s pd va of
       None \<Rightarrow> None
     | Some (p, fl) \<Rightarrow> if fl AND PTE_U \<noteq> 0 \<and> (wr \<longrightarrow> fl AND PTE_W \<noteq> 0) then Some p else None)"
  using assms
proof (cases rule: user_pde_cases)
  case absent
  then show ?thesis by (simp add: utranslate_def aspace_def pte_of_def)
next
  case table
  let ?w = "pmem s (frame (pmem s pd (pdx va))) (ptx va)"
  have "(?w AND 0xFFF) AND PTE_U = ?w AND PTE_U" "(?w AND 0xFFF) AND PTE_W = ?w AND PTE_W"
    by (simp_all add: and.assoc)
  with table show ?thesis
    by (auto simp: utranslate_def aspace_def pte_of_def pde_ok_def Let_def simp del: PTE_U_def PTE_W_def)
qed

text \<open>The states that code reaches by writing to the private frame \<open>f\<close> only, from state \<open>s0\<close>.\<close>

definition umem_ok :: "(nat \<Rightarrow> kind) \<Rightarrow> nat \<Rightarrow> nat \<Rightarrow> kstate \<Rightarrow> nat \<Rightarrow> kstate \<Rightarrow> bool" where
  "umem_ok K c pd s0 f s \<longleftrightarrow> kcur K c pd s0 \<and> K f = KData \<and> (\<exists>g. s = s0\<lparr>pmem := (pmem s0)(f := g)\<rparr>)"

definition umem_view :: "nat \<Rightarrow> kstate \<Rightarrow> u32 \<Rightarrow> u8" where
  "umem_view pd s va =
    (if pdx va < 955 then case utranslate s pd False va of None \<Rightarrow> 0 | Some f \<Rightarrow> get_byte s f (unat (PGOFF va)) else 0)"

definition umem_acc :: "nat \<Rightarrow> kstate \<Rightarrow> u32 \<Rightarrow> bool" where
  "umem_acc pd s va \<longleftrightarrow> pdx va < 955 \<and> utranslate s pd False va \<noteq> None"

definition umem_plain :: "nat \<Rightarrow> nat \<Rightarrow> kstate \<Rightarrow> u32 \<Rightarrow> bool" where
  "umem_plain pd f s va \<longleftrightarrow> pdx va < 955 \<and> utranslate s pd True va = Some f \<and>
    (\<forall>va'. pdx va' < 955 \<and> utranslate s pd False va' = Some f \<longrightarrow> PGNUM va' = PGNUM va)"

lemma umem_tables:
  assumes "kcur K c pd s" "K f = KData" "pdx va < 955"
  shows "utranslate (s\<lparr>pmem := (pmem s)(f := g)\<rparr>) pd wr va = utranslate s pd wr va"
    "aspace (s\<lparr>pmem := (pmem s)(f := g)\<rparr>) pd va = aspace s pd va"
proof -
  note D = kcurD [OF assms(1)]
  have ne: "pd \<noteq> f" using D(3) assms(2) by auto
  have "frame (pmem s pd (pdx va)) \<noteq> f" if "present (pmem s pd (pdx va))"
    using D(2,3) assms(3) by (cases rule: user_pde_cases) (use that assms(2) in auto)
  with ne show "utranslate (s\<lparr>pmem := (pmem s)(f := g)\<rparr>) pd wr va = utranslate s pd wr va"
    "aspace (s\<lparr>pmem := (pmem s)(f := g)\<rparr>) pd va = aspace s pd va"
    by (auto simp: utranslate_def aspace_def pte_of_def Let_def)
qed

lemma umem_same:
  assumes "umem_ok K c pd s0 f s" "pdx va < 955"
  shows "utranslate s pd wr va = utranslate s0 pd wr va"
  using assms umem_tables(1) by (auto simp: umem_ok_def)

lemma page_offset: "PGNUM a = PGNUM b \<Longrightarrow> unat (PGOFF a) = unat (PGOFF b) \<Longrightarrow> a = b"
proof -
  assume "PGNUM a = PGNUM b" "unat (PGOFF a) = unat (PGOFF b)"
  then have "unat a div 4096 = unat b div 4096" "unat a mod 4096 = unat b mod 4096"
    by (simp_all flip: unat_PGNUM unat_PGOFF)
  then have "unat a = unat b" by (metis div_mult_mod_eq)
  then show "a = b" by (simp only: word_unat_eq_iff)
qed

interpretation um: ram uload8 ustore8 "umem_view pd" "umem_ok K c pd s0 f" "umem_acc pd" "umem_plain pd f" for K c pd s0 f
proof
  fix s p
  assume s: "umem_ok K c pd s0 f s" "umem_acc pd s p"
  then have "cr3 (cpus s (cpunum s)) = pd" using kcurD(4) by (auto simp: umem_ok_def)
  with s show "\<exists>s'. uload8 p s = Inr (umem_view pd s p, s') \<and> umem_ok K c pd s0 f s' \<and> umem_view pd s' = umem_view pd s \<and>
      umem_acc pd s' = umem_acc pd s \<and> umem_plain pd f s' = umem_plain pd f s"
    by (auto simp: uload8_def umem_acc_def umem_view_def)
next
  fix s p b
  assume s: "umem_ok K c pd s0 f s" "umem_acc pd s p" "umem_plain pd f s p"
  then have cr: "cr3 (cpus s (cpunum s)) = pd" and p: "utranslate s pd True p = Some f" "pdx p < 955"
    and f: "K f = KData" and u: "\<And>a. pdx a < 955 \<Longrightarrow> utranslate s pd False a = Some f \<Longrightarrow> PGNUM a = PGNUM p"
    using kcurD(4) by (auto simp: umem_ok_def umem_acc_def umem_plain_def)
  let ?t = "put_byte f (unat (PGOFF p)) b s"
  obtain g where g: "?t = s\<lparr>pmem := (pmem s)(f := g)\<rparr>"
    by (simp add: put_byte_def set_word_def Let_def)
  have ok: "umem_ok K c pd s0 f ?t" using s(1) unfolding g by (auto simp: umem_ok_def)
  have same: "utranslate ?t pd wr a = utranslate s pd wr a" if "pdx a < 955" for wr a
    using umem_same [OF ok that] umem_same [OF s(1) that] by simp
  have "utranslate s pd False p = Some f"
    using p(1) by (auto simp: utranslate_def Let_def split: if_splits)
  then have "umem_view pd ?t a = ((umem_view pd s)(p := b)) a" for a
    using p(2) same [of a] u [of a] page_offset [of a p]
    by (auto simp: umem_view_def get_put_byte split: option.split)
  then have "umem_view pd ?t = (umem_view pd s)(p := b)" ..
  moreover have "umem_acc pd ?t = umem_acc pd s" "umem_plain pd f ?t = umem_plain pd f s"
    using same by (auto simp: umem_acc_def umem_plain_def fun_eq_iff)
  ultimately show "\<exists>s'. ustore8 p b s = Inr ((), s') \<and> umem_ok K c pd s0 f s' \<and> umem_view pd s' = (umem_view pd s)(p := b) \<and>
      umem_acc pd s' = umem_acc pd s \<and> umem_plain pd f s' = umem_plain pd f s"
    using ok p(1) cr by (intro exI [of _ ?t]) (simp add: ustore8_def)
qed

text \<open>Copying a page into a private one.\<close>

lemma page_bytes:
  assumes "va mod PGSIZE = 0" "i < 4096"
  shows "PGNUM (va + of_nat i) = PGNUM va" "unat (PGOFF (va + of_nat i)) = i" "unat va + 4096 \<le> 4294967296"
    "pdx (va + of_nat i) = pdx va" "ptx (va + of_nat i) = ptx va"
proof -
  have m: "unat va mod 4096 = 0" using assms(1) unat_mod_distrib [of va PGSIZE] by simp
  then obtain k where "unat va = 4096 * k" by (auto simp: mod_eq_0_iff_dvd elim: dvdE)
  moreover from this u32_less [of va] have "k < 1048576" by simp
  ultimately show le: "unat va + 4096 \<le> 4294967296" by simp
  then have a: "unat (va + of_nat i) = unat va + i" using assms(2) by (intro unat_add_lt) simp
  have "(unat va + i) div 4096 = unat va div 4096" "(unat va + i) mod 4096 = i" using m assms(2) by (auto simp: mod_eq_0_iff_dvd elim!: dvdE)
  then show p: "PGNUM (va + of_nat i) = PGNUM va" and "unat (PGOFF (va + of_nat i)) = i"
    by (simp_all only: word_unat_eq_iff unat_PGNUM unat_PGOFF a)
  show "pdx (va + of_nat i) = pdx va" "ptx (va + of_nat i) = ptx va" by (simp_all only: page_of p)
qed

lemma aspace_page: "PGNUM a = PGNUM b \<Longrightarrow> aspace s pd a = aspace s pd b"
  by (simp only: page_of aspace_def pte_of_def)

lemma aspace_data:
  assumes "kcur K c pd s" "K dpd = KPD" "pdx va < 955" "aspace s dpd va = Some (p, fl)"
  shows "K p = KData"
proof -
  note D = kcurD [OF assms(1)]
  have "page_lookup dpd va s = Inr (Some (p, Some (frame (pmem s dpd (pdx va)), ptx va)), s)"
    using page_lookup_eq [OF D(2) assms(2,3)] assms(4) by (auto elim: aspace_pte)
  from page_lookup_kinv(2) [OF D(1) assms(2,3) this] show ?thesis .
qed

lemma aspace_write:
  assumes "vm_inv K x s" "K pd = KPD" "K f = KData" "pdx va < 955"
  shows "aspace (s\<lparr>pmem := (pmem s)(f := g)\<rparr>) pd va = aspace s pd va"
proof (rule aspace_leaf [OF assms(1,2,4)])
  fix q
  assume "\<not> leaf (K q)"
  then show "pmem (s\<lparr>pmem := (pmem s)(f := g)\<rparr>) q = pmem s q" using assms(3) by auto
qed

lemma kcur_write:
  assumes "kcur K c pd s" "K f = KData"
  shows "kcur K c pd (s\<lparr>pmem := (pmem s)(f := g)\<rparr>)"
proof -
  note D = kcurD [OF assms(1)]
  have "kernel_inv K (s\<lparr>pmem := (pmem s)(f := g)\<rparr>)"
    using vm_inv_write_page [OF D(2), of f g] assms(2) kernel_invD(2,3) [OF D(1)]
      env_inv_cong [of "s\<lparr>pmem := (pmem s)(f := g)\<rparr>" s K K] by (simp add: kernel_inv_def)
  with D show ?thesis by (simp add: kcur_def curenv_def)
qed

text \<open>A frame that was not mapped is mapped once after a step that maps it.\<close>

lemma fresh_unmapped:
  assumes "kcur K c pd s" "K f \<noteq> KData" "K dpd = KPD" "pdx va < 955"
  shows "aspace s dpd va \<noteq> Some (f, fl)"
  using aspace_data [OF assms(1,3,4)] assms(2) by blast

lemma fresh_ref:
  assumes "kcur K c pd s" "K f \<noteq> KData" "vm_step K s dpd va (Some (f, fl)) K' s'" "K' f = KData"
  shows "unat (pp_ref (pages s' f)) \<le> 1"
proof -
  note V = vm_stepD [OF assms(3)]
  have "maps_to K' s' f \<subseteq> {(dpd, unat (PGNUM va))}"
  proof
    fix x
    assume "x \<in> maps_to K' s' f"
    then obtain pd' n fl' where x: "x = (pd', n)" "K' pd' = KPD" "n < 977920" "aspace s' pd' (of_nat n * PGSIZE) = Some (f, fl')"
      by (auto simp: maps_to_def)
    have n: "pdx (of_nat n * PGSIZE) < 955" "unat (PGNUM (of_nat n * PGSIZE)) = n"
      using x(3) page_addr(2,4) [of n] by (simp_all add: less_mult_imp_div_less del: PGSIZE_def)
    have pd': "K pd' = KPD"
      using kinds_pgdir [OF kcurD(1) [OF assms(1)] V(1) vm_frame_sel(3) [OF V(2)]] x(2) by blast
    from V(3) [OF pd' n(1)] x(4) fresh_unmapped [OF assms(1,2) pd' n(1), of fl']
    have "pd' = dpd" "PGNUM (of_nat n * PGSIZE) = PGNUM va" by (auto split: if_splits simp del: PGSIZE_def)
    with n(2) x(1) show "x \<in> {(dpd, unat (PGNUM va))}" by simp
  qed
  from card_mono [OF _ this] show ?thesis
    using refs_maps_to(1) [OF V(1) assms(4)] by simp
qed

lemma copy_page:
  assumes k: "kcur K c pd s"
    and dst: "\<not> bad_va dst" "aspace s pd dst = Some (f, fl)" "fl AND PTE_U \<noteq> 0" "fl AND PTE_W \<noteq> 0"
    and own: "\<And>va fl. pdx va < 955 \<Longrightarrow> aspace s pd va = Some (f, fl) \<Longrightarrow> PGNUM va = PGNUM dst"
    and src: "\<not> bad_va src" "aspace s pd src = Some (p, fl')" "fl' AND PTE_U \<noteq> 0"
  obtains g where "memmove uload8 ustore8 dst src PGSIZE s = Inr (dst, s\<lparr>pmem := (pmem s)(f := g)\<rparr>)"
    "\<And>i. i < 4096 \<Longrightarrow> get_byte (s\<lparr>pmem := (pmem s)(f := g)\<rparr>) f i = get_byte s p i"
proof -
  note D = kcurD [OF k]
  have K: "K f = KData" using aspace_data [OF k D(3) good_va [OF dst(1)] dst(2)] .
  have ok: "umem_ok K c pd s f s"
    using k K by (auto simp: umem_ok_def intro!: exI [of _ "pmem s f"])
  have al: "dst mod PGSIZE = 0" "src mod PGSIZE = 0" using dst(1) src(1) by (auto simp: bad_va_def)
  note B = page_bytes [OF al(1)] and C = page_bytes [OF al(2)]
  have T: "utranslate s pd wr (dst + of_nat i) = Some f" "pdx (dst + of_nat i) < 955"
    "utranslate s pd False (src + of_nat i) = Some p" "pdx (src + of_nat i) < 955" if "i < 4096" for i wr
  proof -
    show d: "pdx (dst + of_nat i) < 955" and e: "pdx (src + of_nat i) < 955"
      unfolding B(4) [OF that] C(4) [OF that] by (rule good_va [OF dst(1)], rule good_va [OF src(1)])
    show "utranslate s pd wr (dst + of_nat i) = Some f"
      using utranslate_aspace [OF D(2,3) d] dst(2-4) aspace_page [OF B(1) [OF that]] by simp
    show "utranslate s pd False (src + of_nat i) = Some p"
      using utranslate_aspace [OF D(2,3) e] src(2,3) aspace_page [OF C(1) [OF that]] by simp
  qed
  have "PGNUM va = PGNUM dst" if "pdx va < 955" "utranslate s pd False va = Some f" for va
    using own [OF that(1)] utranslate_aspace [OF D(2,3) that(1), of False] that(2)
    by (auto split: option.splits if_splits)
  then have "um.storable pd f s dst 4096"
    using T B(1) by (simp add: um.storable_def umem_acc_def umem_plain_def)
  moreover have "um.readable pd s src 4096"
    using T by (simp add: um.readable_def umem_acc_def)
  moreover have "unat src + 4096 < 4294967296" "unat dst + 4096 \<le> 4294967296"
    using src(1) dst(1) by (auto simp: bad_va_def word_le_nat_alt not_le)
  ultimately obtain t where t: "memmove uload8 ustore8 dst src PGSIZE s = Inr (dst, t)"
    "um.wrote pd K c s f (moved 4096 dst src) s t"
    using um.memmove_ok [OF ok, of src PGSIZE dst] by auto
  then have t': "umem_ok K c pd s f t" "umem_view pd t = moved 4096 dst src (umem_view pd s)"
    by (auto simp: um.wrote_def)
  then obtain g where g: "t = s\<lparr>pmem := (pmem s)(f := g)\<rparr>" by (auto simp: umem_ok_def)
  have "get_byte t f i = get_byte s p i" if i: "i < 4096" for i
  proof -
    have "unat (dst + of_nat i) = unat dst + i" using i B(3) [OF i] by (intro unat_add_lt) simp
    then have "umem_view pd t (dst + of_nat i) = umem_view pd s (src + of_nat i)"
      using i by (simp add: t'(2) moved_def)
    then show ?thesis
      using T(1-4) [OF i] umem_same [OF t'(1) T(2) [OF i], of False] B(2) [OF i] C(2) [OF i]
      by (simp add: umem_view_def)
  qed
  with t(1) show thesis unfolding g by (rule that)
qed

lemma pageref_eq:
  assumes "kcur K c pd s" "pdx va < 955"
  shows "pageref va s = Inr (case aspace s pd va of None \<Rightarrow> 0 | Some (p, fl) \<Rightarrow> card (maps_to K s p), s)"
proof (cases "pte_of s pd va")
  case None
  then have "\<not> present (pmem s pd (pdx va))" by (auto simp: pte_of_def Let_def split: if_splits)
  then show ?thesis using None by (simp add: pageref_def uvpd_eq [OF assms(1)] aspace_def)
next
  case (Some w)
  then have p: "present (pmem s pd (pdx va))" by (auto simp: pte_of_def Let_def split: if_splits)
  have "unat (pp_ref (pages s (frame w))) = card (maps_to K s (frame w))" if "present w"
  proof (rule refs_maps_to(1) [OF kcurD(1) [OF assms(1)]])
    show "K (frame w) = KData"
      using aspace_data [OF assms(1) kcurD(3) [OF assms(1)] assms(2)] Some that by (simp add: aspace_def)
  qed
  moreover have "PGNUM w = PGNUM (PTE_ADDR w)" by (simp only: PGNUM_PTE_ADDR) (simp add: PGNUM_def)
  ultimately show ?thesis
    using p Some by (simp add: pageref_def uvpd_eq [OF assms(1)] uvpt_eq [OF assms Some] aspace_def)
qed

section \<open>The way into the kernel and back\<close>

text \<open>The state in which \<open>trap\<close> serves a system call of environment \<open>c\<close>: the lock is taken and the registers are saved.\<close>

definition entered :: "Trapframe \<Rightarrow> nat \<Rightarrow> kstate \<Rightarrow> kstate" where
  "entered tf c s = upd_env c (\<lambda>v. v\<lparr>env_tf := tf\<rparr>)
    ((upd_cpu (\<lambda>p. p\<lparr>cpu_status := CPU_STARTED\<rparr>) s)\<lparr>kernel_lock := \<lparr>locked = 1, lock_cpu = Some (cpunum s)\<rparr>\<rparr>)"

lemma trap_syscall:
  assumes s: "running c s" "env_status (envs s c) = ENV_RUNNING" "cpu_status (cpus s (cpunum s)) \<noteq> CPU_HALTED"
    and tf: "tf_cs tf AND 3 = 3" "tf_trapno tf = T_SYSCALL" "r = tf_regs tf"
    and call: "syscall (reg_eax r) (reg_edx r) (reg_ecx r) (reg_ebx r) (reg_edi r) (reg_esi r) (entered tf c s) = Inr (ret, u)"
    and u: "curenv u = Some c" "env_status (envs u c) = ENV_RUNNING" "holding (kernel_lock u) (cpunum u)"
  shows "trap kva cr2 tf s = Inl (ToUser (upd_env c (\<lambda>v. v\<lparr>
      env_tf := (env_tf v)\<lparr>tf_regs := (tf_regs (env_tf v))\<lparr>reg_eax := word_of_int ret\<rparr>\<rparr>, env_cpunum := cpunum u\<rparr>)
      (u\<lparr>kernel_lock := \<lparr>locked = 0, lock_cpu = None\<rparr>\<rparr>)))"
proof -
  let ?s = "upd_cpu (\<lambda>p. p\<lparr>cpu_status := CPU_STARTED\<rparr>) s"
  let ?v = "upd_env c (\<lambda>v. v\<lparr>env_tf := (env_tf v)\<lparr>tf_regs := (tf_regs (env_tf v))\<lparr>reg_eax := word_of_int ret\<rparr>\<rparr>\<rparr>) u"
  have "lock_kernel ?s = Inr ((), ?s\<lparr>kernel_lock := \<lparr>locked = 1, lock_cpu = Some (cpunum s)\<rparr>\<rparr>)"
    using s(1) by (simp add: lock_kernel_def holding_def xchg_locked_def running_def)
  then have "trap_user tf ?s = Inr (TfEnv c, entered tf c s)"
    using s by (simp add: trap_user_def entered_def running_def curenv_def)
  then have "trap kva cr2 tf s = bindR (trap_dispatch kva cr2 (TfEnv c) (entered tf c s)) (\<lambda>(_, s). trap_resume s)"
    using s(3) tf(1) by (simp add: trap_def)
  also have "trap_dispatch kva cr2 (TfEnv c) (entered tf c s) = Inr ((), ?v)"
    using tf call by (simp add: trap_dispatch_def entered_def Let_def)
  also have "bindR (Inr ((), ?v)) (\<lambda>(_, s). trap_resume s) = env_run c ?v"
    using u(1,2) by (simp add: trap_resume_def curenv_def)
  also have "\<dots> = Inl (ToUser (upd_env c (\<lambda>v. v\<lparr>env_cpunum := cpunum ?v\<rparr>) (?v\<lparr>kernel_lock := \<lparr>locked = 0, lock_cpu = None\<rparr>\<rparr>)))"
    using u by (intro env_run_again) (simp_all add: curenv_def)
  finally show ?thesis by (simp add: upd_env_def)
qed

section \<open>A sample state\<close>

text \<open>The machine with one environment, running on processor 0 in its own address space.\<close>

definition user_state :: kstate where
  "user_state = lcr3 2 one_run"

lemma user_state: "kcur one_env_kinds 0 2 user_state" "env_free_list user_state \<noteq> None" "{q. one_env_kinds q = KFree} = {3..<15}"
  "aspace user_state pd va = aspace one_run pd va"
proof -
  have "kernel_inv one_env_kinds user_state"
    using one_run(1) unfolding user_state_def lcr3_def by (subst kernel_inv_cong) simp_all
  then show "kcur one_env_kinds 0 2 user_state"
    using one_run(2,6) by (simp add: kcur_def user_state_def lcr3_def curenv_def one_env_kinds_def)
  have "env_status (envs boot_state 1) = ENV_FREE" unfolding boot_state_def using env_init_state(2) by simp
  then have "env_status (envs user_state 1) = ENV_FREE"
    using one_env_created(2) by (simp add: env_created_def user_state_def lcr3_def one_run_def)
  moreover obtain fl where "env_chain user_state fl" "set fl = {e. e < NENV \<and> env_status (envs user_state e) = ENV_FREE}"
    using kernel_invD(2) [OF \<open>kernel_inv one_env_kinds user_state\<close>] unfolding env_inv_def by blast
  ultimately show "env_free_list user_state \<noteq> None"
    by (cases fl) (auto simp: env_chain_def)
  show "{q. one_env_kinds q = KFree} = {3..<15}"
    by (auto simp: one_env_kinds_def boot_kinds_def)
  show "aspace user_state pd va = aspace one_run pd va"
    by (rule aspace_cong) (simp add: user_state_def lcr3_def)
qed

end
