(* ===== verification/Fork.thy ===== *)
theory Fork
  imports Ulib
begin

text \<open>
  Fork in user space with copy-on-write (lib/fork.c) and the installation of the page fault handler
  (lib/pgfault.c), on top of the kernel: the code runs as the current environment and its system calls are those of
  the kernel model. Variables of the compiled code are values of the model, so its stack is not part
  of the memory it copies.

  Proved: with enough free frames, \<open>fork\<close> gives the child the pages of its parent, with nothing but shared pages writable on
  either side; \<open>pgfault\<close> replaces a page by a private, writable copy, and no other address space notices.
\<close>

unbundle bit_operations_syntax

section \<open>The code\<close>

definition PTE_COW :: u32 where [simp]: "PTE_COW = 0x800"
definition UTEMP :: u32 where [simp]: "UTEMP = PTSIZE"
definition PFTEMP :: u32 where [simp]: "PFTEMP = UTEMP + PTSIZE - PGSIZE"

text \<open>The global variables of a user program; function pointers are addresses.\<close>

record uvars =
  pgfault_handler :: u32
  thisenv :: nat

text \<open>\<open>upcall\<close> is the address of \<open>_pgfault_upcall\<close>. The result of the second call is not looked at.\<close>

definition set_pgfault_handler :: "u32 \<Rightarrow> u32 \<Rightarrow> uvars \<Rightarrow> kstate \<Rightarrow> uvars kres" where
  "set_pgfault_handler upcall handler v s =
    bindR
      (if pgfault_handler v = 0 then
         bindR (usys_page_alloc (env_id (envs s (thisenv v))) (UXSTACKTOP - PGSIZE) (PTE_U OR PTE_P OR PTE_W) s) (\<lambda>(r, s).
           if r < 0 then Inl (Panic ''set_pgfault_handler : sys_page_alloc failed'')
           else bindR (usys_env_set_pgfault_upcall (env_id (envs s (thisenv v))) upcall s) (\<lambda>(_, s). Inr ((), s)))
       else Inr ((), s))
      (\<lambda>(_, s). Inr (v\<lparr>pgfault_handler := handler\<rparr>, s))"

text \<open>The entry at \<open>uvpt\<close> is read, but the check on it is commented out in the source.\<close>

definition pgfault :: "u32 \<Rightarrow> kstate \<Rightarrow> unit kres" where
  "pgfault fault_va s =
    bindR (uvpt (PGNUM fault_va) s) (\<lambda>(pte, s).
      let addr = ROUNDDOWN fault_va PGSIZE
      in bindR (usys_page_alloc 0 PFTEMP (PTE_U OR PTE_P OR PTE_W) s) (\<lambda>(r, s).
           if r < 0 then Inl (Panic ''error in pgfault after returning from sys_page_alloc'')
           else bindR (memmove uload8 ustore8 PFTEMP addr PGSIZE s) (\<lambda>(_, s).
             bindR (usys_page_map 0 PFTEMP 0 addr (PTE_U OR PTE_P OR PTE_W) s) (\<lambda>(r, s).
               if r < 0 then Inl (Panic ''error in pgfault after returning from sys_page_map'')
               else bindR (usys_page_unmap 0 PFTEMP s) (\<lambda>(r, s).
                 if r < 0 then Inl (Panic ''error in pgfault after returning from sys_page_unmap'') else Inr ((), s))))))"

definition duppage :: "u32 \<Rightarrow> u32 \<Rightarrow> kstate \<Rightarrow> int kres" where
  "duppage envid pn s =
    (let va = pn * PGSIZE
     in bindR (uvpt pn s) (\<lambda>(pte, s).
          if pte AND PTE_SHARE \<noteq> 0 then
            bindR (usys_page_map 0 va envid va (pte AND PTE_SYSCALL) s) (\<lambda>(r, s).
              if r < 0 then Inl (Panic ''duppage : sys_page_map error'') else Inr (0, s))
          else if pte AND PTE_W \<noteq> 0 \<or> pte AND PTE_COW \<noteq> 0 then
            let perm_w = PTE_P OR PTE_COW
            in bindR (usys_page_map 0 va envid va (perm_w OR PTE_U OR PTE_P) s) (\<lambda>(r, s).
                 if r < 0 then Inl (Panic ''duppage error'')
                 else bindR (usys_page_map 0 va 0 va (perm_w OR PTE_U OR PTE_P) s) (\<lambda>(r, s).
                   if r < 0 then Inl (Panic ''duppage error'') else Inr (0, s)))
          else
            bindR (usys_page_map 0 va envid va (PTE_U OR PTE_P) s) (\<lambda>(r, s).
              if r < 0 then Inl (Panic ''duppage error'') else Inr (0, s))))"

text \<open>One round of the loop of \<open>fork\<close>, for page number \<open>n\<close>.\<close>

definition fork_page :: "u32 \<Rightarrow> nat \<Rightarrow> kstate \<Rightarrow> unit kres" where
  "fork_page envid n s =
    (let va = of_nat n * PGSIZE
     in bindR (upresent va s) (\<lambda>(b, s).
          if \<not> b then Inr ((), s)
          else bindR (uvpt (PGNUM va) s) (\<lambda>(pte, s).
            if pte AND PTE_U = 0 then Inr ((), s)
            else bindR (duppage envid (PGNUM va) s) (\<lambda>(_, s). Inr ((), s)))))"

definition fork_parent :: "u32 \<Rightarrow> uvars \<Rightarrow> kstate \<Rightarrow> unit kres" where
  "fork_parent envid v s =
    bindR (forR (fork_page envid) [0..<unat USTACKTOP div 4096] s) (\<lambda>(_, s).
      bindR (usys_page_alloc envid (UXSTACKTOP - PGSIZE) (PTE_U OR PTE_P OR PTE_W) s) (\<lambda>(r, s).
        if r < 0 then Inl (Panic ''fork : sys_page_alloc failed'')
        else bindR (usys_env_set_pgfault_upcall envid (env_pgfault_upcall (envs s (thisenv v))) s) (\<lambda>(r, s).
          if r < 0 then Inl (Panic ''sys_env_set_pgfault_upcall in fork error'')
          else bindR (usys_env_set_status envid 2 s) (\<lambda>(r, s).
            if r < 0 then Inl (Panic ''sys_env_set_status in fork error'') else Inr ((), s)))))"

definition fork :: "u32 \<Rightarrow> u32 \<Rightarrow> uvars \<Rightarrow> kstate \<Rightarrow> (int \<times> uvars) kres" where
  "fork upcall handler v s =
    bindR (set_pgfault_handler upcall handler v s) (\<lambda>(v, s).
      bindR (usys_exofork s) (\<lambda>(envid_ch, s).
        if envid_ch < 0 then Inl (Panic ''fork : sys_exofork error'')
        else if envid_ch = 0 then
          bindR (usys_getenvid s) (\<lambda>(id, s). Inr ((0, v\<lparr>thisenv := ENVX (word_of_int id)\<rparr>), s))
        else bindR (fork_parent (word_of_int envid_ch) v s) (\<lambda>(_, s). Inr ((envid_ch, v), s))))"

section \<open>The page fault handler\<close>

lemma user_rw: "user_perm (PTE_U OR PTE_P OR PTE_W)"
  by (simp add: user_perm_def)

lemma round_page_va:
  assumes "pdx va < 955"
  shows "\<not> bad_va (ROUNDDOWN va PGSIZE)" "PGNUM (ROUNDDOWN va PGSIZE) = PGNUM va"
proof -
  have u: "unat (ROUNDDOWN va PGSIZE) = unat va - unat va mod 4096" by (simp add: unat_ROUNDDOWN)
  show "PGNUM (ROUNDDOWN va PGSIZE) = PGNUM va"
    by (simp only: word_unat_eq_iff unat_PGNUM u) (simp add: minus_mod_eq_mult_div)
  have "ROUNDDOWN va PGSIZE < UTOP"
    using assms ROUNDDOWN_le [of va PGSIZE] unfolding below_UTOP_iff [symmetric] by (rule le_less_trans [rotated])
  moreover have "unat (ROUNDDOWN va PGSIZE mod PGSIZE) = 0"
    using unat_ROUNDDOWN_dvd [of PGSIZE va] by (simp add: unat_mod_distrib dvd_imp_mod_0)
  then have "ROUNDDOWN va PGSIZE mod PGSIZE = 0" by (simp only: unat_eq_zero)
  ultimately show "\<not> bad_va (ROUNDDOWN va PGSIZE)" by (simp add: bad_va_def not_le del: PGSIZE_def UTOP_def)
qed

abbreviation rw :: u32 where
  "rw \<equiv> PTE_U OR PTE_P OR PTE_W"

lemma tmp_page: "\<not> bad_va PFTEMP" "pdx PFTEMP < 955"
  by (simp_all add: bad_va_def unat_PDX)

text \<open>The first half of \<open>pgfault\<close>: a new page at \<open>PFTEMP\<close> that holds a copy of the page at \<open>addr\<close>.\<close>

lemma private_copy:
  assumes k: "kcur K c pd s" and ad: "\<not> bad_va addr" "PGNUM addr \<noteq> PGNUM PFTEMP"
    and a: "aspace s pd addr = Some (p, fl)" "fl AND PTE_U \<noteq> 0" and free: "K x = KFree" "K y = KFree" "x \<noteq> y"
  obtains f s1 s2 K1 where "usys_page_alloc 0 PFTEMP rw s = Inr (0, s1)"
    "memmove uload8 ustore8 PFTEMP addr PGSIZE s1 = Inr (PFTEMP, s2)" "kcur K1 c pd s2" "envs s2 = envs s"
    "K f = KFree" "K1 f = KData" "pp_ref (pages s2 f) \<noteq> 0xFFFF"
    "\<And>pd' va. K pd' = KPD \<Longrightarrow> pdx va < 955 \<Longrightarrow>
      aspace s2 pd' va = (if pd' = pd \<and> PGNUM va = PGNUM PFTEMP then Some (f, rw) else aspace s pd' va)"
    "\<And>i. i < 4096 \<Longrightarrow> get_byte s2 f i = get_byte s p i" "\<And>q. K q = KData \<Longrightarrow> pmem s2 q = pmem s q"
proof -
  note D = kcurD [OF k] and tmp = tmp_page
  from k self_env(1) [OF k] D(6,7) tmp(1) user_rw obtain f s1 K1 where
    s1: "usys_page_alloc 0 PFTEMP rw s = Inr (0, s1)" "K f = KFree" "vm_step K s pd PFTEMP (Some (f, PTE_U OR PTE_P OR rw OR PTE_P)) K1 s1"
  proof (cases rule: page_alloc_ok)
    case (nomem s')
    with free show thesis by blast
  qed
  note V1 = vm_stepD [OF s1(3)] and k1 = kcur_step [OF k s1(3)]
  note D1 = kcurD [OF k1]
  have pds: "K pd' = KPD \<Longrightarrow> K1 pd' = KPD" for pd'
    using kinds_pgdir [OF D(1) V1(1) vm_frame_sel(3) [OF V1(2)]] by simp
  have a1: "aspace s1 pd PFTEMP = Some (f, rw)" "aspace s1 pd addr = Some (p, fl)"
    using V1(3) [OF D(3) tmp(2)] V1(3) [OF D(3) good_va [OF ad(1)]] ad(2) a(1) by simp_all
  have Kf: "K1 f = KData" using aspace_data [OF k1 D1(3) tmp(2) a1(1)] .
  have fr: "aspace s pd' va \<noteq> Some (f, fl)" if "K pd' = KPD" "pdx va < 955" for pd' va fl
    using fresh_unmapped [OF k _ that] s1(2) by simp
  obtain g where g: "memmove uload8 ustore8 PFTEMP addr PGSIZE s1 = Inr (PFTEMP, s1\<lparr>pmem := (pmem s1)(f := g)\<rparr>)"
      "\<And>i. i < 4096 \<Longrightarrow> get_byte (s1\<lparr>pmem := (pmem s1)(f := g)\<rparr>) f i = get_byte s1 p i"
  proof (rule copy_page [OF k1 tmp(1) a1(1) _ _ _ ad(1) a1(2) a(2)])
    show "PGNUM va = PGNUM PFTEMP" if "pdx va < 955" "aspace s1 pd va = Some (f, fl)" for va fl
      using V1(3) [OF D(3) that(1)] that(2) fr [OF D(3) that(1), of fl] by (auto split: if_splits)
  qed simp_all
  define s2 where "s2 = s1\<lparr>pmem := (pmem s1)(f := g)\<rparr>"
  have k2: "kcur K1 c pd s2" unfolding s2_def using k1 Kf by (rule kcur_write)
  have p: "K p = KData" using aspace_data [OF k D(3) good_va [OF ad(1)] a(1)] .
  show thesis
  proof (rule that [OF s1(1) g(1) [folded s2_def] k2 _ s1(2) Kf])
    show "envs s2 = envs s" using vm_frame_sel(3) [OF V1(2)] by (simp add: s2_def)
    show "pp_ref (pages s2 f) \<noteq> 0xFFFF"
      using fresh_ref [OF k _ s1(3) Kf] s1(2) by (auto simp: s2_def)
    show "aspace s2 pd' va = (if pd' = pd \<and> PGNUM va = PGNUM PFTEMP then Some (f, rw) else aspace s pd' va)"
      if "K pd' = KPD" "pdx va < 955" for pd' va
      using aspace_write [OF D1(2) pds [OF that(1)] Kf that(2), of g] V1(3) [OF that] by (simp add: s2_def)
    show "get_byte s2 f i = get_byte s p i" if "i < 4096" for i
      using g(2) [OF that] V1(4) [OF p] by (simp add: get_byte_def s2_def)
    show "pmem s2 q = pmem s q" if "K q = KData" for q
      using V1(4) [OF that] s1(2) that by (auto simp: s2_def)
  qed
qed

lemma pgfault_ok:
  assumes k: "kcur K c pd s" and va: "pdx fault_va < 955" "PGNUM fault_va \<noteq> PGNUM PFTEMP"
    and a: "aspace s pd fault_va = Some (p, fl)" "fl AND PTE_U \<noteq> 0" and free: "K x = KFree" "K y = KFree" "x \<noteq> y"
  obtains f s' K' where "pgfault fault_va s = Inr ((), s')" "kcur K' c pd s'" "envs s' = envs s" "K f = KFree"
    "\<And>pd' va. K pd' = KPD \<Longrightarrow> pdx va < 955 \<Longrightarrow> aspace s' pd' va =
      (if pd' = pd \<and> PGNUM va = PGNUM fault_va then Some (f, rw)
       else if pd' = pd \<and> PGNUM va = PGNUM PFTEMP then None else aspace s pd' va)"
    "\<And>i. i < 4096 \<Longrightarrow> get_byte s' f i = get_byte s p i"
    "\<And>pd' va q fl. K pd' = KPD \<Longrightarrow> pdx va < 955 \<Longrightarrow> aspace s' pd' va = Some (q, fl) \<Longrightarrow> q \<noteq> f \<Longrightarrow> pmem s' q = pmem s q"
proof -
  note D = kcurD [OF k] and tmp = tmp_page
  define addr where "addr = ROUNDDOWN fault_va PGSIZE"
  have ad: "\<not> bad_va addr" "PGNUM addr = PGNUM fault_va" using round_page_va [OF va(1)] by (auto simp: addr_def)
  have ne: "PGNUM addr \<noteq> PGNUM PFTEMP" using va(2) ad(2) by simp
  have a0: "aspace s pd addr = Some (p, fl)" using a(1) aspace_page [OF ad(2), of s pd] by simp
  obtain w where w: "uvpt (PGNUM fault_va) s = Inr (w, s)"
    using a(1) uvpt_eq [OF k va(1)] by (auto elim: aspace_pte)
  obtain f s1 s2 K1 where s1: "usys_page_alloc 0 PFTEMP rw s = Inr (0, s1)"
    "memmove uload8 ustore8 PFTEMP addr PGSIZE s1 = Inr (PFTEMP, s2)"
    and k2: "kcur K1 c pd s2" and s2: "envs s2 = envs s" "K f = KFree" "K1 f = KData" "pp_ref (pages s2 f) \<noteq> 0xFFFF"
    and as2: "\<And>pd' va. K pd' = KPD \<Longrightarrow> pdx va < 955 \<Longrightarrow>
      aspace s2 pd' va = (if pd' = pd \<and> PGNUM va = PGNUM PFTEMP then Some (f, rw) else aspace s pd' va)"
    and m2: "\<And>i. i < 4096 \<Longrightarrow> get_byte s2 f i = get_byte s p i" "\<And>q. K q = KData \<Longrightarrow> pmem s2 q = pmem s q"
    using k ad(1) ne a0 a(2) free by (rule private_copy) blast
  have pds: "K1 pd' = KPD \<longleftrightarrow> K pd' = KPD" for pd' using kinds_pgdir [OF D(1) kcurD(1) [OF k2] s2(1)] .
  have a2: "aspace s2 pd PFTEMP = Some (f, rw)" "aspace s2 pd addr = Some (p, fl)"
    using as2 [OF D(3) tmp(2)] as2 [OF D(3) good_va [OF ad(1)]] ne a0 by simp_all
  from k2 self_env(1) [OF k2] kcurD(6,7) [OF k2] self_env(1) [OF k2] kcurD(6,7) [OF k2] tmp(1) ad(1) a2(1) s2(4)
  obtain s3 K3 where s3: "usys_page_map 0 PFTEMP 0 addr rw s2 = Inr (0, s3)" "vm_step K1 s2 pd addr (Some (f, rw OR PTE_P)) K3 s3"
    by (cases rule: page_map_ok [where perm = rw]) (use a2(2) in simp_all)
  note V3 = vm_stepD [OF s3(2)] and k3 = kcur_step [OF k2 s3(2)]
  have pds3: "K3 pd' = KPD \<longleftrightarrow> K pd' = KPD" for pd'
    using kinds_pgdir [OF kcurD(1) [OF k2] V3(1) vm_frame_sel(3) [OF V3(2)]] pds by simp
  have as3: "aspace s3 pd' va = (if pd' = pd \<and> PGNUM va = PGNUM addr then Some (f, rw) else aspace s2 pd' va)"
    if "K pd' = KPD" "pdx va < 955" for pd' va using V3(3) [of pd' va] pds that by simp
  have "pte_of s3 pd PFTEMP \<noteq> None" using as3 [OF D(3) tmp(2)] a2(1) ne by (auto elim: aspace_pte)
  with k3 self_env(1) [OF k3] kcurD(6,7) [OF k3] tmp(1) obtain s4 K4 where
    s4: "usys_page_unmap 0 PFTEMP s3 = Inr (0, s4)" "vm_step K3 s3 pd PFTEMP None K4 s4"
    by (rule page_unmap_ok)
  note V4 = vm_stepD [OF s4(2)]
  have as4: "aspace s4 pd' va = (if pd' = pd \<and> PGNUM va = PGNUM PFTEMP then None else aspace s3 pd' va)"
    if "K pd' = KPD" "pdx va < 955" for pd' va using V4(3) [of pd' va] pds3 that by simp
  have m4: "pmem s4 q = pmem s2 q" if q: "K pd' = KPD" "pdx va < 955" "aspace s4 pd' va = Some (q, fl)" "K1 q = KData" for pd' va q fl
  proof -
    have "aspace s3 pd' va = Some (q, fl)" using as4 [OF q(1,2)] q(3) by (auto split: if_splits)
    with aspace_data [OF k3, of pd' va q fl] q pds3 have "K3 q = KData" by simp
    with V4(4) V3(4) [OF q(4)] show ?thesis by simp
  qed
  show thesis
  proof (rule that [OF _ kcur_step [OF k3 s4(2)] _ s2(2)])
    show "pgfault fault_va s = Inr ((), s4)"
      using w s1 s3(1) s4(1) by (simp add: pgfault_def addr_def)
    show "envs s4 = envs s" using s2(1) vm_frame_sel(3) [OF V3(2)] vm_frame_sel(3) [OF V4(2)] by simp
    show f: "aspace s4 pd' va = (if pd' = pd \<and> PGNUM va = PGNUM fault_va then Some (f, rw)
       else if pd' = pd \<and> PGNUM va = PGNUM PFTEMP then None else aspace s pd' va)" if "K pd' = KPD" "pdx va < 955" for pd' va
      using as4 [OF that] as3 [OF that] as2 [OF that] ad(2) va(2) by auto
    show "get_byte s4 f i = get_byte s p i" if "i < 4096" for i
      using m4 [OF D(3) va(1) _ s2(3)] f [OF D(3) va(1)] m2(1) [OF that] by (simp add: get_byte_def)
    show "pmem s4 q = pmem s q" if q: "K pd' = KPD" "pdx va < 955" "aspace s4 pd' va = Some (q, fl)" "q \<noteq> f" for pd' va q fl
    proof -
      have "aspace s pd' va = Some (q, fl)" "aspace s2 pd' va = Some (q, fl)"
        using f [OF q(1,2)] as2 [OF q(1,2)] q(3,4) by (auto split: if_splits)
      then have "K q = KData" "K1 q = KData"
        using aspace_data [OF k q(1,2)] aspace_data [OF k2 _ q(2)] pds q(1) by blast+
      with m4 [OF q(1-3)] m2(2) show ?thesis by simp
    qed
  qed
qed

section \<open>Duplicating a page\<close>

definition cow_flags :: u32 where [simp]: "cow_flags = PTE_COW OR PTE_U OR PTE_P"

definition child_flags :: "u32 \<Rightarrow> u32" where
  "child_flags fl =
    (if fl AND PTE_SHARE \<noteq> 0 then fl AND PTE_SYSCALL OR PTE_P
     else if fl AND PTE_W \<noteq> 0 \<or> fl AND PTE_COW \<noteq> 0 then cow_flags else PTE_U OR PTE_P)"

definition parent_flags :: "u32 \<Rightarrow> u32" where
  "parent_flags fl =
    (if fl AND PTE_SHARE = 0 \<and> (fl AND PTE_W \<noteq> 0 \<or> fl AND PTE_COW \<noteq> 0) then cow_flags else fl)"

lemma page_va: "\<not> bad_va va \<Longrightarrow> PGNUM va * PGSIZE = va"
proof -
  assume "\<not> bad_va va"
  then have "va mod PGSIZE = 0" by (simp add: bad_va_def)
  then have "unat va mod 4096 = 0" using unat_mod_distrib [of va PGSIZE] by simp
  moreover have "unat (PGNUM va * PGSIZE) = unat va div 4096 * 4096"
    using u32_less [of va] by (simp add: unat_word_ariths unat_PGNUM)
  ultimately show "PGNUM va * PGSIZE = va"
    by (simp only: word_unat_eq_iff) (simp add: mod_0_imp_dvd)
qed

lemma maps_to_step:
  assumes "kernel_inv K s" "vm_step K s dpd va (Some (p, fl)) K' s'"
  shows "maps_to K' s' q \<subseteq> (if q = p then insert (dpd, unat (PGNUM va)) (maps_to K s q) else maps_to K s q)"
proof
  note V = vm_stepD [OF assms(2)]
  fix x
  assume "x \<in> maps_to K' s' q"
  then obtain pd' n fl' where x: "x = (pd', n)" "K' pd' = KPD" "n < 977920" "aspace s' pd' (of_nat n * PGSIZE) = Some (q, fl')"
    by (auto simp: maps_to_def)
  have n: "pdx (of_nat n * PGSIZE) < 955" "unat (PGNUM (of_nat n * PGSIZE)) = n"
    using x(3) page_addr(2,4) [of n] by (simp_all add: less_mult_imp_div_less del: PGSIZE_def)
  have pd': "K pd' = KPD"
    using kinds_pgdir [OF assms(1) V(1) vm_frame_sel(3) [OF V(2)]] x(2) by blast
  show "x \<in> (if q = p then insert (dpd, unat (PGNUM va)) (maps_to K s q) else maps_to K s q)"
  proof (cases "pd' = dpd \<and> PGNUM (of_nat n * PGSIZE) = PGNUM va")
    case True
    with n(2) V(3) [OF pd' n(1)] x(4) show ?thesis by (simp add: x(1) del: PGSIZE_def)
  next
    case False
    with V(3) [OF pd' n(1)] x(4) have "aspace s pd' (of_nat n * PGSIZE) = Some (q, fl')" by (simp only: if_False)
    with pd' x(1,3) show ?thesis unfolding maps_to_def by auto
  qed
qed

lemma ref_step:
  assumes "kernel_inv K s" "vm_step K s dpd va (Some (p, fl)) K' s'" "K q = KData" "K' q = KData"
  shows "unat (pp_ref (pages s' q)) \<le> unat (pp_ref (pages s q)) + (if q = p then 1 else 0)"
proof -
  note r = refs_maps_to [OF assms(1,3)]
  let ?m = "if q = p then insert (dpd, unat (PGNUM va)) (maps_to K s q) else maps_to K s q"
  have "card (maps_to K' s' q) \<le> card ?m"
    using r(2) by (intro card_mono maps_to_step [OF assms(1,2)]) auto
  also have "\<dots> \<le> card (maps_to K s q) + (if q = p then 1 else 0)" by (simp add: card_insert_le_m1)
  finally show ?thesis
    using refs_maps_to(1) [OF vm_stepD(1) [OF assms(2)] assms(4)] r(1) by simp
qed

text \<open>A slot that has its page table costs no frame.\<close>

lemma no_new_table:
  assumes "vm_inv K x s" "vm_inv K' x' s'" "K pd = KPD" "pdx va < 955" "aspace s pd va \<noteq> None"
    and K': "\<And>q. K' q = K q \<or> K q = KData \<and> K' q = KFree \<or> K q = KFree \<and> K' q = KPT pd (pdx va)"
  shows "K' q = K q \<or> K q = KData \<and> K' q = KFree"
proof -
  have p: "present (pmem s pd (pdx va))"
    using assms(5) by (auto simp: aspace_def pte_of_def Let_def split: option.splits if_splits)
  define t where "t = frame (pmem s pd (pdx va))"
  from assms(1,3,4) have t: "K t = KPT pd (pdx va)"
    by (cases rule: user_pde_cases) (use p in \<open>auto simp: t_def\<close>)
  with K' [of t] have "K' t = KPT pd (pdx va)" by auto
  from table_okD(4) [OF assms(2) this] have "q = t" if "K' q = KPT pd (pdx va)"
    using table_okD(4) [OF assms(2) that] by simp
  with t K' [of q] show ?thesis by auto
qed

text \<open>What \<open>duppage\<close> does to the page at \<open>va\<close>, which was frame \<open>p\<close> with flags \<open>fl\<close>.\<close>

definition duped :: "(nat \<Rightarrow> kind) \<Rightarrow> kstate \<Rightarrow> nat \<Rightarrow> nat \<Rightarrow> u32 \<Rightarrow> nat \<Rightarrow> u32 \<Rightarrow> (nat \<Rightarrow> kind) \<Rightarrow> kstate \<Rightarrow> bool" where
  "duped K s pd dpd va p fl K' s' \<longleftrightarrow> vm_frame s s' \<and>
    (\<forall>pd' va'. K pd' = KPD \<and> pdx va' < 955 \<longrightarrow> aspace s' pd' va' =
      (if PGNUM va' \<noteq> PGNUM va then aspace s pd' va' else if pd' = dpd then Some (p, child_flags fl)
       else if pd' = pd then Some (p, parent_flags fl) else aspace s pd' va')) \<and>
    (\<forall>q. K q = KData \<and> K' q = KData \<longrightarrow> pmem s' q = pmem s q) \<and>
    (\<forall>q. K' q = K q \<or> K q = KData \<and> K' q = KFree \<or> K q = KFree \<and> K' q = KPT dpd (pdx va))"

lemma duped_child:
  assumes V: "vm_step K s dpd va (Some (p, child_flags fl)) K' s'" and ne: "dpd \<noteq> pd" and fl: "parent_flags fl = fl"
    and a: "aspace s pd va = Some (p, fl)"
    and kinds: "\<And>q. K' q = K q \<or> K q = KData \<and> K' q = KFree \<or> K q = KFree \<and> K' q = KPT dpd (pdx va)"
  shows "duped K s pd dpd va p fl K' s'"
proof -
  note V = vm_stepD [OF V]
  have "aspace s' pd' va' = (if PGNUM va' \<noteq> PGNUM va then aspace s pd' va' else if pd' = dpd then Some (p, child_flags fl)
         else if pd' = pd then Some (p, parent_flags fl) else aspace s pd' va')" if "K pd' = KPD" "pdx va' < 955" for pd' va'
  proof -
    have "aspace s pd va' = Some (p, fl)" if "PGNUM va' = PGNUM va" using aspace_page [OF that, of s pd] a by simp
    with V(3) [OF that] ne fl show ?thesis by (simp only: if_cancel split: if_split) blast
  qed
  with V(2,4) kinds show ?thesis unfolding duped_def by blast
qed

lemma duped_both:
  assumes k: "kcur K c pd s" and V1: "vm_step K s dpd va (Some (p, cow_flags)) K1 s1" and V2: "vm_step K1 s1 pd va (Some (p, cow_flags)) K2 s2"
    and ne: "dpd \<noteq> pd" and fl: "child_flags fl = cow_flags" "parent_flags fl = cow_flags"
    and va: "pdx va < 955" and a1: "aspace s1 pd va \<noteq> None"
    and kinds: "\<And>q. K1 q = K q \<or> K q = KData \<and> K1 q = KFree \<or> K q = KFree \<and> K1 q = KPT dpd (pdx va)"
      "\<And>q. K2 q = K1 q \<or> K1 q = KData \<and> K2 q = KFree \<or> K1 q = KFree \<and> K2 q = KPT pd (pdx va)"
  shows "duped K s pd dpd va p fl K2 s2"
proof -
  note k1 = kcur_step [OF k V1] and W1 = vm_stepD [OF V1] and W2 = vm_stepD [OF V2]
  note kinds2 = no_new_table [OF kcurD(2) [OF k1] kernel_invD(1) [OF W2(1)] kcurD(3) [OF k1] va a1 kinds(2)]
  have pds: "K1 pd' = KPD \<longleftrightarrow> K pd' = KPD" for pd' using kinds_pgdir [OF kcurD(1) [OF k] W1(1) vm_frame_sel(3) [OF W1(2)]] .
  have "vm_frame s s2" using W1(2) W2(2) by (rule vm_frame_trans)
  moreover have "K2 q = K q \<or> K q = KData \<and> K2 q = KFree \<or> K q = KFree \<and> K2 q = KPT dpd (pdx va)" for q
    using kinds(1) [of q] kinds2 [of q] by auto
  moreover have "pmem s2 q = pmem s q" if "K q = KData" "K2 q = KData" for q
    using W1(4) [OF that(1)] W2(4) [of q] kinds(1) [of q] kinds2 [of q] that by auto
  moreover have "aspace s2 pd' va' = (if PGNUM va' \<noteq> PGNUM va then aspace s pd' va' else if pd' = dpd then Some (p, child_flags fl)
      else if pd' = pd then Some (p, parent_flags fl) else aspace s pd' va')" if "K pd' = KPD" "pdx va' < 955" for pd' va'
    using W1(3) [OF that] W2(3) [of pd' va'] that pds ne fl by auto
  ultimately show ?thesis unfolding duped_def by blast
qed

lemma duppage_ok:
  assumes k: "kcur K c pd s" and e: "envid2env envid True s = Inr ((0, Some e), s)" "e < NENV" "env_pgdir (envs s e) = Some dpd"
    and ne: "dpd \<noteq> pd" and va: "\<not> bad_va va" and a: "aspace s pd va = Some (p, fl)"
    and r: "unat (pp_ref (pages s p)) < 0xFFFE" and free: "K x = KFree"
  obtains s' K' where "duppage envid (PGNUM va) s = Inr (0, s')" "kcur K' c pd s'" "duped K s pd dpd va p fl K' s'"
proof -
  note D = kcurD [OF k] and self = self_env(1) [OF k] and gva = good_va [OF va]
  from a obtain w where w: "pte_of s pd va = Some w" "w AND 0xFFF = fl" by (auto elim: aspace_pte)
  have fl: "w AND PTE_SHARE = fl AND PTE_SHARE" "w AND PTE_W = fl AND PTE_W" "w AND PTE_COW = fl AND PTE_COW"
    "w AND PTE_SYSCALL = fl AND PTE_SYSCALL" using w(2) by (auto simp: and.assoc)
  have cow: "(PTE_P OR PTE_COW) OR PTE_U OR PTE_P = cow_flags" by simp
  note dup = duppage_def [of envid "PGNUM va" s, unfolded page_va [OF va] uvpt_eq [OF k gva w(1)] bindR_Inr prod.case Let_def fl cow]
  have r0: "pp_ref (pages s p) \<noteq> 0xFFFF" using r by auto
  have map: "\<exists>s' K'. usys_page_map 0 va envid va perm s = Inr (0, s') \<and> vm_step K s dpd va (Some (p, perm OR PTE_P)) K' s' \<and>
      (\<forall>q. K' q = K q \<or> K q = KData \<and> K' q = KFree \<or> K q = KFree \<and> K' q = KPT dpd (pdx va))"
    if "perm AND NOT 0xFFF = 0" for perm
    using k self D(6,7) e va va a r0 that by (cases rule: page_map_ok) (use free in auto)
  show thesis
  proof (cases "fl AND PTE_SHARE \<noteq> 0 \<or> fl AND PTE_W = 0 \<and> fl AND PTE_COW = 0")
    case True
    define perm where "perm = (if fl AND PTE_SHARE \<noteq> 0 then fl AND PTE_SYSCALL else PTE_U OR PTE_P)"
    have perm: "perm AND NOT 0xFFF = 0" by (simp add: perm_def and.assoc)
    have fl': "perm OR PTE_P = child_flags fl" "parent_flags fl = fl"
      using True by (auto simp: perm_def child_flags_def parent_flags_def)
    from map [OF perm] obtain s' K' where s': "usys_page_map 0 va envid va perm s = Inr (0, s')" "vm_step K s dpd va (Some (p, child_flags fl)) K' s'"
      "\<And>q. K' q = K q \<or> K q = KData \<and> K' q = KFree \<or> K q = KFree \<and> K' q = KPT dpd (pdx va)" unfolding fl'(1) by blast
    show thesis
      by (rule that [OF _ kcur_step [OF k s'(2)] duped_child [OF s'(2) ne fl'(2) a s'(3)]])
        (use True s'(1) in \<open>auto simp: dup perm_def\<close>)
  next
    case False
    then have fl': "child_flags fl = cow_flags" "parent_flags fl = cow_flags" by (auto simp: child_flags_def parent_flags_def)
    have perm: "cow_flags AND NOT 0xFFF = 0" "cow_flags OR PTE_P = cow_flags" by simp_all
    from map [OF perm(1)] obtain s1 K1 where s1: "usys_page_map 0 va envid va cow_flags s = Inr (0, s1)" "vm_step K s dpd va (Some (p, cow_flags)) K1 s1"
      "\<And>q. K1 q = K q \<or> K q = KData \<and> K1 q = KFree \<or> K q = KFree \<and> K1 q = KPT dpd (pdx va)" unfolding perm(2) by blast
    note k1 = kcur_step [OF k s1(2)]
    note D1 = kcurD [OF k1]
    have a1: "aspace s1 pd va = Some (p, fl)" using vm_stepD(3) [OF s1(2) D(3) gva] ne a by auto
    from ref_step [OF D(1) s1(2) aspace_data [OF k D(3) gva a] aspace_data [OF k1 D1(3) gva a1]] r
    have r1: "pp_ref (pages s1 p) \<noteq> 0xFFFF" by auto
    from k1 self_env(1) [OF k1] D1(6,7) self_env(1) [OF k1] D1(6,7) va va a1 r1 perm(1)
    obtain s2 K2 where s2: "usys_page_map 0 va 0 va cow_flags s1 = Inr (0, s2)" "vm_step K1 s1 pd va (Some (p, cow_flags OR PTE_P)) K2 s2"
      "\<And>q. K2 q = K1 q \<or> K1 q = KData \<and> K2 q = KFree \<or> K1 q = KFree \<and> K2 q = KPT pd (pdx va)"
      by (cases rule: page_map_ok) (use a1 in auto)
    show thesis
      by (rule that [OF _ kcur_step [OF k1 s2(2)] duped_both [OF k s1(2) s2(2) [unfolded perm(2)] ne fl' gva _ s1(3) s2(3)]])
        (use False s1(1) s2(1) a1 in \<open>auto simp: dup\<close>)
  qed
qed

section \<open>The loop over the pages\<close>

definition child_map :: "(nat \<times> u32) option \<Rightarrow> (nat \<times> u32) option" where
  "child_map m = (case m of None \<Rightarrow> None | Some (p, fl) \<Rightarrow> if fl AND PTE_U = 0 then None else Some (p, child_flags fl))"

definition parent_map :: "(nat \<times> u32) option \<Rightarrow> (nat \<times> u32) option" where
  "parent_map m = (case m of None \<Rightarrow> None | Some (p, fl) \<Rightarrow> if fl AND PTE_U = 0 then m else Some (p, parent_flags fl))"

text \<open>The page tables that the copied part of an address space occupies.\<close>

definition tables :: "kstate \<Rightarrow> nat \<Rightarrow> nat set" where
  "tables s pd = {d. \<exists>n<unat USTACKTOP div 4096. n div 1024 = d \<and> aspace s pd (of_nat n * PGSIZE) \<noteq> None}"

definition fork_ready :: "(nat \<Rightarrow> kind) \<Rightarrow> nat \<Rightarrow> nat \<Rightarrow> u32 \<Rightarrow> nat \<Rightarrow> nat \<Rightarrow> kstate \<Rightarrow> bool" where
  "fork_ready K c pd envid e dpd s \<longleftrightarrow> kcur K c pd s \<and> envid2env envid True s = Inr ((0, Some e), s) \<and> e < NENV \<and>
    env_pgdir (envs s e) = Some dpd \<and> dpd \<noteq> pd \<and> (\<forall>va. pdx va < 955 \<longrightarrow> aspace s dpd va = None) \<and>
    (\<forall>q. K q = KData \<longrightarrow> unat (pp_ref (pages s q)) < 0x7FFF) \<and> card (tables s pd) + 2 \<le> card {q. K q = KFree}"

text \<open>The first \<open>n\<close> pages are shared with the child.\<close>

definition forked :: "(nat \<Rightarrow> kind) \<Rightarrow> kstate \<Rightarrow> nat \<Rightarrow> nat \<Rightarrow> nat \<Rightarrow> (nat \<Rightarrow> kind) \<Rightarrow> kstate \<Rightarrow> bool" where
  "forked K s pd dpd n K' t \<longleftrightarrow> vm_frame s t \<and>
    (\<forall>pd' va. K pd' = KPD \<and> pdx va < 955 \<longrightarrow> aspace t pd' va =
      (if n \<le> unat (PGNUM va) then aspace s pd' va else if pd' = dpd then child_map (aspace s pd va)
       else if pd' = pd then parent_map (aspace s pd va) else aspace s pd' va)) \<and>
    (\<forall>q. K q = KData \<and> K' q = KData \<longrightarrow> pmem t q = pmem s q) \<and>
    (\<forall>q. K q = KFree \<longrightarrow> K' q = KFree \<or> (\<exists>d \<in> tables s pd. K' q = KPT dpd d)) \<and>
    (\<forall>q. K' q = KData \<longrightarrow> K q = KData)"

lemma forkedD:
  assumes "forked K s pd dpd n K' t"
  shows "vm_frame s t" "\<And>pd' va. K pd' = KPD \<Longrightarrow> pdx va < 955 \<Longrightarrow> aspace t pd' va =
      (if n \<le> unat (PGNUM va) then aspace s pd' va else if pd' = dpd then child_map (aspace s pd va)
       else if pd' = pd then parent_map (aspace s pd va) else aspace s pd' va)"
    "\<And>q. K q = KData \<Longrightarrow> K' q = KData \<Longrightarrow> pmem t q = pmem s q"
    "\<And>q. K q = KFree \<Longrightarrow> K' q = KFree \<or> (\<exists>d \<in> tables s pd. K' q = KPT dpd d)" "\<And>q. K' q = KData \<Longrightarrow> K q = KData"
  using assms unfolding forked_def by blast+

lemma fork_readyD:
  assumes "fork_ready K c pd envid e dpd s"
  shows "kcur K c pd s" "envid2env envid True s = Inr ((0, Some e), s)" "e < NENV" "env_pgdir (envs s e) = Some dpd"
    "dpd \<noteq> pd" "\<And>va. pdx va < 955 \<Longrightarrow> aspace s dpd va = None" "\<And>q. K q = KData \<Longrightarrow> unat (pp_ref (pages s q)) < 0x7FFF"
    "card (tables s pd) + 2 \<le> card {q. K q = KFree}" "K dpd = KPD"
  using assms kinv_pd(1) [OF kcurD(1), of K c pd s e dpd] by (auto simp: fork_ready_def)

lemma finite_tables: "finite (tables s pd)"
proof -
  have "tables s pd \<subseteq> (\<lambda>n. n div 1024) ` {..<unat USTACKTOP div 4096}" by (auto simp: tables_def)
  then show ?thesis by (rule finite_subset) simp
qed

lemma envid2env_frame:
  assumes "vm_frame s t" "envid2env envid b s = Inr ((r, e), s)"
  shows "envid2env envid b t = Inr ((r, e), t)"
  using assms(2) by (auto simp: envid2env_def Let_def vm_frame_sel [OF assms(1)] split: if_splits option.splits)

lemma forked_free:
  assumes r: "fork_ready K c pd envid e dpd s" and k: "kernel_inv K' t" and f: "forked K s pd dpd n K' t"
  shows "2 \<le> card {q. K' q = KFree}"
proof -
  have "{q. K' q = KFree} \<subseteq> {..<1048576}" using vm_inv_bound [OF kernel_invD(1) [OF k]] by auto
  then have fin: "finite {q. K' q = KFree}" by (rule finite_subset) simp
  have "q \<in> (\<lambda>d. frame (pmem t dpd d)) ` tables s pd" if "d \<in> tables s pd" "K' q = KPT dpd d" for q d
    using that(1) table_okD(4) [OF kernel_invD(1) [OF k] that(2)] by (rule rev_image_eqI [OF _ sym])
  then have "{q. K q = KFree} \<subseteq> {q. K' q = KFree} \<union> (\<lambda>d. frame (pmem t dpd d)) ` tables s pd"
    using forkedD(4) [OF f] by blast
  then have "card {q. K q = KFree} \<le> card ({q. K' q = KFree} \<union> (\<lambda>d. frame (pmem t dpd d)) ` tables s pd)"
    using fin finite_tables [of s pd] by (intro card_mono) simp_all
  also have "\<dots> \<le> card {q. K' q = KFree} + card ((\<lambda>d. frame (pmem t dpd d)) ` tables s pd)" by (rule card_Un_le)
  also have "\<dots> \<le> card {q. K' q = KFree} + card (tables s pd)"
    using card_image_le [OF finite_tables] by (rule add_left_mono)
  finally have "card {q. K q = KFree} \<le> card {q. K' q = KFree} + card (tables s pd)" .
  with fork_readyD(8) [OF r] show ?thesis by simp
qed

lemma two_free:
  assumes "2 \<le> card {q. K q = KFree}"
  obtains x y where "K x = KFree" "K y = KFree" "x \<noteq> y"
proof -
  obtain T where T: "T \<subseteq> {q. K q = KFree}" "card T = 2" by (rule obtain_subset_with_card_n [OF assms])
  from T(2) obtain x y where "T = {x, y}" "x \<noteq> y" by (auto simp: card_2_iff)
  with T(1) show thesis by (intro that [of x y]) auto
qed

lemma forked_ref:
  assumes r: "fork_ready K c pd envid e dpd s" and k: "kernel_inv K' t" and f: "forked K s pd dpd n K' t"
    and q: "K' q = KData"
  shows "unat (pp_ref (pages t q)) < 0xFFFE"
proof -
  note R = fork_readyD [OF r] and F = forkedD [OF f]
  have Kq: "K q = KData" using F(5) [OF q] .
  note M = refs_maps_to [OF kcurD(1) [OF R(1)] Kq]
  have "maps_to K' t q \<subseteq> maps_to K s q \<union> (\<lambda>(x, n). (dpd, n)) ` maps_to K s q"
  proof
    fix x
    assume "x \<in> maps_to K' t q"
    then obtain pd' n fl where x: "x = (pd', n)" "K' pd' = KPD" "n < 977920" "aspace t pd' (of_nat n * PGSIZE) = Some (q, fl)"
      by (auto simp: maps_to_def)
    have n: "pdx (of_nat n * PGSIZE) < 955"
      using x(3) page_addr(2) [of n] by (simp add: less_mult_imp_div_less del: PGSIZE_def)
    have pd': "K pd' = KPD" using kinds_pgdir [OF kcurD(1) [OF R(1)] k vm_frame_sel(3) [OF F(1)]] x(2) by blast
    have "\<exists>fl. aspace s (if pd' = dpd then pd else pd') (of_nat n * PGSIZE) = Some (q, fl)"
      using F(2) [OF pd' n] x(4) R(6) [OF n] by (auto simp: child_map_def parent_map_def split: if_splits option.splits)
    then have "(if pd' = dpd then pd else pd', n) \<in> maps_to K s q"
      using pd' kcurD(3) [OF R(1)] x(3) by (simp add: maps_to_def)
    then show "x \<in> maps_to K s q \<union> (\<lambda>(x, n). (dpd, n)) ` maps_to K s q"
      using x(1) by (cases "pd' = dpd") (auto intro: rev_image_eqI)
  qed
  from card_mono [OF _ this] M(2) have "card (maps_to K' t q) \<le> card (maps_to K s q \<union> (\<lambda>(x, n). (dpd, n)) ` maps_to K s q)" by simp
  also have "\<dots> \<le> card (maps_to K s q) + card (maps_to K s q)"
    using card_Un_le card_image_le [OF M(2)] by (meson add_left_mono order_trans)
  finally show ?thesis
    using refs_maps_to(1) [OF k q] M(1) R(7) [OF Kq] by simp
qed

lemma forked_Suc:
  assumes r: "fork_ready K c pd envid e dpd s" and k: "kcur K' c pd t" and f: "forked K s pd dpd n K' t"
    and n: "n < unat USTACKTOP div 4096" and va: "va = of_nat n * PGSIZE" and t: "vm_frame t t'"
    and a: "\<And>pd' va'. K' pd' = KPD \<Longrightarrow> pdx va' < 955 \<Longrightarrow> aspace t' pd' va' =
      (if PGNUM va' \<noteq> PGNUM va then aspace t pd' va' else if pd' = dpd then child_map (aspace s pd va)
       else if pd' = pd then parent_map (aspace s pd va) else aspace t pd' va')"
    and m: "\<And>q. K' q = KData \<Longrightarrow> K'' q = KData \<Longrightarrow> pmem t' q = pmem t q"
    and kinds: "\<And>q. K'' q = K' q \<or> K' q = KData \<and> K'' q = KFree \<or>
      K' q = KFree \<and> K'' q = KPT dpd (pdx va) \<and> aspace s pd va \<noteq> None"
  shows "forked K s pd dpd (Suc n) K'' t'"
proof -
  note F = forkedD [OF f] and R = fork_readyD [OF r]
  have u: "unat (PGNUM va) = n" "pdx va = n div 1024" using n page_addr [of n] by (simp_all add: va)
  have pds: "K' pd' = KPD" if "K pd' = KPD" for pd'
    using kinds_pgdir [OF kcurD(1) [OF R(1)] kcurD(1) [OF k] vm_frame_sel(3) [OF F(1)]] that by blast
  have "aspace t' pd' va' = (if Suc n \<le> unat (PGNUM va') then aspace s pd' va' else if pd' = dpd then child_map (aspace s pd va')
       else if pd' = pd then parent_map (aspace s pd va') else aspace s pd' va')" if x: "K pd' = KPD" "pdx va' < 955" for pd' va'
  proof (cases "PGNUM va' = PGNUM va")
    case True
    then have "unat (PGNUM va') = n" "aspace s pd va' = aspace s pd va" using u(1) aspace_page [of va' va s pd] by simp_all
    with a [OF pds [OF x(1)] x(2)] F(2) [OF x] True show ?thesis by simp
  next
    case False
    then have "unat (PGNUM va') \<noteq> n" using u(1) by (simp add: word_unat_eq_iff)
    with a [OF pds [OF x(1)] x(2)] F(2) [OF x] False show ?thesis by simp
  qed
  moreover have "pmem t' q = pmem s q" if "K q = KData" "K'' q = KData" for q
    using F(3) [OF that(1)] m [of q] kinds [of q] that by auto
  moreover have "K'' q = KFree \<or> (\<exists>d \<in> tables s pd. K'' q = KPT dpd d)" if "K q = KFree" for q
  proof -
    have d: "pdx va \<in> tables s pd" if "aspace s pd va \<noteq> None"
      unfolding tables_def u(2) mem_Collect_eq using n that [unfolded va] by (intro exI [of _ n] conjI) simp_all
    from F(4) [OF that] show ?thesis
    proof
      assume "K' q = KFree"
      with kinds [of q] d show ?thesis by metis
    next
      assume "\<exists>d \<in> tables s pd. K' q = KPT dpd d"
      with kinds [of q] show ?thesis by auto
    qed
  qed
  moreover have "K q = KData" if "K'' q = KData" for q
    using kinds [of q] F(5) [of q] that by auto
  ultimately show ?thesis
    using vm_frame_trans [OF F(1) t] unfolding forked_def by blast
qed

lemma fork_page_ok:
  assumes r: "fork_ready K c pd envid e dpd s" and k: "kcur K' c pd t" and f: "forked K s pd dpd n K' t"
    and n: "n < unat USTACKTOP div 4096"
  obtains t' K'' where "fork_page envid n t = Inr ((), t')" "kcur K'' c pd t'" "forked K s pd dpd (Suc n) K'' t'"
proof -
  note R = fork_readyD [OF r] and F = forkedD [OF f] and D = kcurD [OF k]
  define va where "va = of_nat n * PGSIZE"
  have u: "unat va = n * 4096" "unat (PGNUM va) = n" using n page_addr [of n] by (simp_all add: va_def)
  have "unat (va mod PGSIZE) = 0" by (simp add: unat_mod_distrib u(1))
  then have bad: "\<not> bad_va va"
    using n u(1) by (simp add: bad_va_def word_le_nat_alt unat_eq_zero del: UTOP_def) simp
  note gva = good_va [OF this]
  have a: "aspace t pd va = aspace s pd va" "aspace t dpd va = None"
    using F(2) [OF kcurD(3) [OF R(1)] gva] F(2) [OF R(9) gva] R(6) [OF gva] u(2) by simp_all
  note run = fork_page_def [of envid n t, folded va_def, unfolded Let_def upresent_eq [OF k gva] bindR_Inr prod.case]
  show thesis
  proof (cases "child_map (aspace s pd va)")
    case None
    then have p: "parent_map (aspace s pd va) = aspace s pd va"
      by (auto simp: child_map_def parent_map_def split: option.splits if_splits)
    have "\<exists>w. pte_of t pd va = Some w \<and> w AND PTE_U = 0" if "aspace t pd va = Some (q, fl)" for q fl
    proof -
      have "fl AND PTE_U = 0" using that None unfolding a(1) by (simp add: child_map_def split: if_splits)
      with that show ?thesis by (auto elim!: aspace_pte simp: and.assoc)
    qed
    then have "fork_page envid n t = Inr ((), t)"
      using uvpt_eq [OF k gva] by (cases "aspace t pd va") (fastforce simp: run simp del: PTE_U_def)+
    then show thesis
    proof (rule that [OF _ k forked_Suc [OF r k f n va_def]])
      show "vm_frame t t" by (rule vm_frame_refl)
      show "aspace t pd' va' = (if PGNUM va' \<noteq> PGNUM va then aspace t pd' va' else if pd' = dpd then child_map (aspace s pd va)
        else if pd' = pd then parent_map (aspace s pd va) else aspace t pd' va')" for pd' va'
        using None p a aspace_page [of va' va t pd'] by simp
    qed simp_all
  next
    case (Some x)
    then obtain p fl where p: "aspace t pd va = Some (p, fl)" "fl AND PTE_U \<noteq> 0"
      using a by (auto simp: child_map_def split: option.splits if_splits)
    then obtain w where w: "pte_of t pd va = Some w" "w AND PTE_U = fl AND PTE_U"
      by (auto elim!: aspace_pte simp: and.assoc)
    have m: "child_map (aspace s pd va) = Some (p, child_flags fl)" "parent_map (aspace s pd va) = Some (p, parent_flags fl)"
      using p unfolding a(1) by (simp_all add: child_map_def parent_map_def)
    have "K' p = KData" using aspace_data [OF k D(3) gva p(1)] .
    note ref = forked_ref [OF r D(1) f this]
    obtain x where "K' x = KFree" using forked_free [OF r D(1) f] by (rule two_free)
    from k envid2env_frame [OF F(1) R(2)] R(3,4) [folded vm_frame_sel(3) [OF F(1)]] R(5) bad p(1) ref this
    obtain t' K'' where t': "duppage envid (PGNUM va) t = Inr (0, t')" "kcur K'' c pd t'" "duped K' t pd dpd va p fl K'' t'"
      by (rule duppage_ok)
    note d = t'(3) [unfolded duped_def]
    show thesis
    proof (rule that [OF _ t'(2) forked_Suc [OF r k f n va_def]])
      show "fork_page envid n t = Inr ((), t')"
        using uvpt_eq [OF k gva w(1)] w(2) p t'(1) by (simp add: run del: PTE_U_def)
    qed (use d m p(1) a(1) in \<open>auto simp del: PGSIZE_def\<close>)
  qed
qed

lemma fork_pages_ok:
  assumes r: "fork_ready K c pd envid e dpd s"
  obtains t K' where "forR (fork_page envid) [0..<unat USTACKTOP div 4096] s = Inr ((), t)" "kcur K' c pd t"
    "forked K s pd dpd (unat USTACKTOP div 4096) K' t"
proof -
  have "forked K s pd dpd 0 K s" by (simp add: forked_def)
  with fork_readyD(1) [OF r] have "\<exists>K'. kcur K' c pd s \<and> forked K s pd dpd 0 K' s" by blast
  then have "\<exists>t. forR (fork_page envid) [0..<unat USTACKTOP div 4096] s = Inr ((), t) \<and>
      (\<exists>K'. kcur K' c pd t \<and> forked K s pd dpd (unat USTACKTOP div 4096) K' t)"
  proof (rule forR_upt [OF _ le0])
    fix n t
    assume n: "n < unat USTACKTOP div 4096" and "\<exists>K'. kcur K' c pd t \<and> forked K s pd dpd n K' t"
    then obtain K' where "kcur K' c pd t" "forked K s pd dpd n K' t" by blast
    from r this n show "\<exists>t'. fork_page envid n t = Inr ((), t') \<and> (\<exists>K'. kcur K' c pd t' \<and> forked K s pd dpd (Suc n) K' t')"
      by (rule fork_page_ok) blast
  qed
  then show thesis using that by blast
qed

section \<open>Fork\<close>

abbreviation xstack :: u32 where
  "xstack \<equiv> UXSTACKTOP - PGSIZE"

lemma xstack_va: "\<not> bad_va xstack" "unat (PGNUM xstack) = 977919"
  by (simp_all add: bad_va_def unat_PGNUM)

text \<open>A new page costs at most two frames.\<close>

lemma new_page:
  assumes k: "kcur K c pd s" and e: "envid2env envid True s = Inr ((0, Some e), s)" "e < NENV" "env_pgdir (envs s e) = Some dpd"
    and va: "\<not> bad_va va" and free: "2 \<le> card {q. K q = KFree}"
  obtains f s' K' where "usys_page_alloc envid va rw s = Inr (0, s')" "K f = KFree"
    "vm_step K s dpd va (Some (f, rw)) K' s'" "pmem s' f = (\<lambda>_. 0)"
    "card {q. K q = KFree} \<le> card {q. K' q = KFree} + 2"
proof -
  obtain x y where xy: "K x = KFree" "K y = KFree" "x \<noteq> y" using free by (rule two_free)
  from k e va user_rw obtain f s' K' where s': "usys_page_alloc envid va rw s = Inr (0, s')" "K f = KFree"
    "vm_step K s dpd va (Some (f, PTE_U OR PTE_P OR rw OR PTE_P)) K' s'" "pmem s' f = (\<lambda>_. 0)"
    "\<And>q. K q = KFree \<Longrightarrow> q \<noteq> f \<Longrightarrow> K' q = KFree \<or> K' q = KPT dpd (pdx va)"
    by (cases rule: page_alloc_ok) (use xy in blast)+
  note I = kernel_invD(1) [OF vm_stepD(1) [OF s'(3)]]
  have "{q. K' q = KFree} \<subseteq> {..<1048576}" using vm_inv_bound [OF I] by auto
  then have fin: "finite {q. K' q = KFree}" by (rule finite_subset) simp
  have "{q. K q = KFree} \<subseteq> {q. K' q = KFree} \<union> {f, frame (pmem s' dpd (pdx va))}"
    using s'(5) table_okD(4) [OF I] by blast
  then have "card {q. K q = KFree} \<le> card ({q. K' q = KFree} \<union> {f, frame (pmem s' dpd (pdx va))})"
    using fin by (intro card_mono) simp_all
  also have "\<dots> \<le> card {q. K' q = KFree} + card {f, frame (pmem s' dpd (pdx va))}" by (rule card_Un_le)
  also have "\<dots> \<le> card {q. K' q = KFree} + 2" by (intro add_left_mono card_insert_le_m1) simp_all
  finally show thesis using that [OF s'(1,2) _ s'(4)] s'(3) by simp
qed

lemma kcur_upd_env:
  assumes k: "kcur K c pd s" and f: "env_pgdir (f (envs s e)) = env_pgdir (envs s e)" "env_id (f (envs s e)) = env_id (envs s e)"
    "env_link (f (envs s e)) = env_link (envs s e)" "env_status (f (envs s e)) = ENV_FREE \<longleftrightarrow> env_status (envs s e) = ENV_FREE"
  shows "kcur K c pd (upd_env e f s)"
proof -
  have "kernel_inv K (upd_env e f s)" using kcurD(1) [OF k] f by (rule kernel_inv_upd_env)
  with kcurD [OF k] f(1) show ?thesis by (auto simp: kcur_def curenv_def)
qed

lemma fork_parent_ok:
  assumes r: "fork_ready K c pd envid e dpd s" and v: "thisenv v = c" and st: "env_status (envs s e) = ENV_NOT_RUNNABLE"
  obtains f s' K' where "fork_parent envid v s = Inr ((), s')" "kcur K' c pd s'" "pmem s' f = (\<lambda>_. 0)"
    "envs s' = (envs s)(e := (envs s e)\<lparr>env_pgfault_upcall := env_pgfault_upcall (envs s c), env_status := ENV_RUNNABLE\<rparr>)"
    "\<And>pd' va. K pd' = KPD \<Longrightarrow> pdx va < 955 \<Longrightarrow> aspace s' pd' va =
      (if pd' = dpd \<and> PGNUM va = PGNUM xstack then Some (f, rw)
       else if unat USTACKTOP div 4096 \<le> unat (PGNUM va) then aspace s pd' va
       else if pd' = dpd then child_map (aspace s pd va) else if pd' = pd then parent_map (aspace s pd va) else aspace s pd' va)"
    "\<And>pd' va q fl. K pd' = KPD \<Longrightarrow> pdx va < 955 \<Longrightarrow> aspace s pd' va = Some (q, fl) \<Longrightarrow> pmem s' q = pmem s q"
proof -
  note R = fork_readyD [OF r]
  obtain t K1 where t: "forR (fork_page envid) [0..<unat USTACKTOP div 4096] s = Inr ((), t)" "kcur K1 c pd t"
    "forked K s pd dpd (unat USTACKTOP div 4096) K1 t" using r by (rule fork_pages_ok)
  note F = forkedD [OF t(3)] and E = vm_frame_sel(3) [OF forkedD(1) [OF t(3)]]
  from t(2) envid2env_frame [OF F(1) R(2)] R(3,4) [folded E] xstack_va(1) forked_free [OF r kcurD(1) [OF t(2)] t(3)]
  obtain f u K2 where u: "usys_page_alloc envid xstack rw t = Inr (0, u)" "K1 f = KFree"
    "vm_step K1 t dpd xstack (Some (f, rw)) K2 u" "pmem u f = (\<lambda>_. 0)" by (rule new_page)
  note V = vm_stepD [OF u(3)] and k2 = kcur_step [OF t(2) u(3)]
  have fr: "vm_frame s u" using F(1) V(2) by (rule vm_frame_trans)
  have envs: "envs u = envs s" using vm_frame_sel(3) [OF fr] .
  have pds: "K1 pd' = KPD \<longleftrightarrow> K pd' = KPD" for pd'
    using kinds_pgdir [OF kcurD(1) [OF R(1)] kcurD(1) [OF t(2)] E] .
  define g where "g = (\<lambda>x :: Env. x\<lparr>env_pgfault_upcall := env_pgfault_upcall (envs s c), env_status := ENV_RUNNABLE\<rparr>)"
  define s' where "s' = upd_env e g u"
  define u1 where "u1 = upd_env e (\<lambda>x. x\<lparr>env_pgfault_upcall := env_pgfault_upcall (envs s c)\<rparr>) u"
  have eid: "envid2env envid True u = Inr ((0, Some e), u)" using fr R(2) by (rule envid2env_frame)
  have eid1: "envid2env envid True u1 = Inr ((0, Some e), u1)"
    using eid by (auto simp: envid2env_def Let_def u1_def curenv_def split: if_splits option.splits)
  have u1: "upd_env e (\<lambda>x. x\<lparr>env_status := ENV_RUNNABLE\<rparr>) u1 = s'" by (simp add: upd_env_def u1_def s'_def g_def)
  have "usys_env_set_pgfault_upcall envid (env_pgfault_upcall (envs u (thisenv v))) u = Inr (0, u1)"
    using eid by (simp add: usys_env_set_pgfault_upcall_def usyscall_def syscall_def sys_env_set_pgfault_upcall_def with_env_def u1_def envs v)
  moreover have "usys_env_set_status envid 2 u1 = Inr (0, s')"
    using eid1 u1 by (simp add: usys_env_set_status_def usyscall_def syscall_def sys_env_set_status_def with_env_def status_of_def)
  ultimately have run: "fork_parent envid v s = Inr ((), s')"
    by (simp only: fork_parent_def t(1) u(1) bindR_Inr prod.case) simp
  show thesis
  proof (rule that [OF run])
    show "kcur K2 c pd s'" unfolding s'_def using st by (intro kcur_upd_env [OF k2]) (simp_all add: g_def envs)
    show "pmem s' f = (\<lambda>_. 0)" using u(4) by (simp add: s'_def)
    show "envs s' = (envs s)(e := (envs s e)\<lparr>env_pgfault_upcall := env_pgfault_upcall (envs s c), env_status := ENV_RUNNABLE\<rparr>)"
      by (simp add: s'_def upd_env_def envs g_def)
    show "aspace s' pd' va = (if pd' = dpd \<and> PGNUM va = PGNUM xstack then Some (f, rw)
       else if unat USTACKTOP div 4096 \<le> unat (PGNUM va) then aspace s pd' va
       else if pd' = dpd then child_map (aspace s pd va) else if pd' = pd then parent_map (aspace s pd va) else aspace s pd' va)"
      if "K pd' = KPD" "pdx va < 955" for pd' va
      using F(2) [OF that] V(3) [of pd' va] pds that aspace_cong [of s' u pd' va] by (auto simp: s'_def)
    show "pmem s' q = pmem s q" if q: "K pd' = KPD" "pdx va < 955" "aspace s pd' va = Some (q, fl)" for pd' va q fl
    proof -
      have "pd' \<noteq> dpd" using R(6) q(2,3) by auto
      with F(2) [OF q(1,2)] q(3) have "\<exists>fl'. aspace t pd' va = Some (q, fl')"
        by (auto simp: parent_map_def)
      then have "K1 q = KData" using aspace_data [OF t(2) _ q(2)] pds q(1) by blast
      with F(3) [OF aspace_data [OF R(1) q]] V(4) [of q] show ?thesis by (simp add: s'_def)
    qed
  qed
qed

lemma exofork_ok:
  assumes k: "kcur K c pd s" and free: "env_free_list s \<noteq> None" "K x = KFree"
  obtains e dpd s' where "usys_exofork s = Inr (sint (env_id (envs s' e)), s')" "0 < sint (env_id (envs s' e))"
    "kcur (K(dpd := KPD)) c pd s'" "K dpd = KFree" "e < NENV" "e \<noteq> c"
    "envid2env (env_id (envs s' e)) True s' = Inr ((0, Some e), s')" "env_pgdir (envs s' e) = Some dpd"
    "env_status (envs s' e) = ENV_NOT_RUNNABLE" "env_status (envs s e) = ENV_FREE"
    "env_tf (envs s' e) = (env_tf (envs s c))\<lparr>tf_regs := (tf_regs (env_tf (envs s c)))\<lparr>reg_eax := 0\<rparr>\<rparr>"
    "\<And>q. q \<noteq> e \<Longrightarrow> envs s' q = envs s q" "\<And>va. pdx va < 955 \<Longrightarrow> aspace s' dpd va = None"
    "\<And>pd' va. K pd' = KPD \<Longrightarrow> pdx va < 955 \<Longrightarrow> aspace s' pd' va = aspace s pd' va"
    "\<And>q. K q \<noteq> KFree \<Longrightarrow> pmem s' q = pmem s q"
  using kcurD(1) [OF k]
proof (cases rule: env_alloc_spec [where parent = "env_id (envs s c)"])
  case (ok e dpd u K')
  note D = kcurD [OF k] and C = ok(2) [unfolded env_created_def below_UTOP_iff]
  let ?id = "next_env_id e (env_id (envs s e))"
  have live: "env_status (envs s c) \<noteq> ENV_FREE" using kinv_pd(2) [OF D(1,6,7)] by simp
  then have ne: "e \<noteq> c" using C by auto
  have id: "ENVX ?id = e" "0 < sint ?id" using next_env_id [of e] C by auto
  then have nz: "?id \<noteq> 0" by auto
  define tf where "tf = (env_tf (envs s c))\<lparr>tf_regs := (tf_regs (env_tf (envs s c)))\<lparr>reg_eax := 0\<rparr>\<rparr>"
  define s' where "s' = upd_env e (\<lambda>v. v\<lparr>env_status := ENV_NOT_RUNNABLE, env_tf := tf\<rparr>) u"
  have E: "env_id (envs u e) = ?id" "env_parent_id (envs u e) = env_id (envs s c)" "env_pgdir (envs u e) = Some dpd"
    "env_status (envs u e) = ENV_RUNNABLE" "\<And>q. q \<noteq> e \<Longrightarrow> envs u q = envs s q" "curenv u = Some c"
    using C D(5) by (auto simp: curenv_def)
  have K': "kcur (K(dpd := KPD)) c pd u"
    using C ok(3) D E(5) [of c] ne by (auto simp: kcur_def curenv_def)
  show thesis
  proof (rule that [of s' e dpd])
    show "usys_exofork s = Inr (sint (env_id (envs s' e)), s')"
      using ok(1) D(5) E(5) [of c] ne
      by (simp add: usys_exofork_def syscall_def sys_exofork_def with_curenv_def Let_def s'_def tf_def)
    show "kcur (K(dpd := KPD)) c pd s'" unfolding s'_def by (rule kcur_upd_env [OF K']) (simp_all add: E)
    show "envid2env (env_id (envs s' e)) True s' = Inr ((0, Some e), s')"
      using nz id(1) E ne by (simp add: envid2env_def s'_def curenv_def)
    show "aspace s' dpd va = None" if "pdx va < 955" for va
      using C that aspace_cong [of s' u dpd va] by (simp add: s'_def)
    show "aspace s' pd' va = aspace s pd' va" if "K pd' = KPD" "pdx va < 955" for pd' va
      using C that aspace_cong [of s' u pd' va] by (simp add: s'_def)
  qed (use C E ne id in \<open>simp_all add: s'_def tf_def\<close>)
qed (use free no_free_page [OF kcurD(2) [OF k]] in auto)

text \<open>No page becomes more popular than it was, but for the new one.\<close>

lemma refs_step:
  assumes k: "kcur K c pd s" and V: "vm_step K s dpd va (Some (f, fl)) K' s'" and f: "K f = KFree"
    and r: "\<And>q. K q = KData \<Longrightarrow> unat (pp_ref (pages s q)) < B" "1 < B" and q: "K' q = KData"
  shows "unat (pp_ref (pages s' q)) < B"
proof (cases "q = f")
  case True
  then show ?thesis using fresh_ref [OF k _ V] f q r(2) by simp
next
  case ne: False
  note D = kcurD [OF k]
  show ?thesis
  proof (cases "K q = KData")
    case True
    from ref_step [OF D(1) V this q] r(1) [OF this] ne show ?thesis by simp
  next
    case False
    have "maps_to K s q = {}"
    proof -
      have "aspace s pd' (of_nat n * PGSIZE) \<noteq> Some (q, fl)" if "K pd' = KPD" "n < 977920" for pd' n fl
        using fresh_unmapped [OF k False that(1)] that(2) page_addr(2) [of n]
        by (simp add: less_mult_imp_div_less del: PGSIZE_def)
      then show ?thesis unfolding maps_to_def by auto
    qed
    with maps_to_step [OF D(1) V, of q] ne have "card (maps_to K' s' q) = 0" by simp
    with refs_maps_to(1) [OF vm_stepD(1) [OF V] q] r(2) show ?thesis by simp
  qed
qed

lemma handler_ok:
  assumes k: "kcur K c pd s" and v: "thisenv v = c" and free: "2 \<le> card {q. K q = KFree}"
    and r: "\<forall>q. K q = KData \<longrightarrow> unat (pp_ref (pages s q)) < 0x7FFF"
  obtains s' K' where "set_pgfault_handler upcall handler v s = Inr (v\<lparr>pgfault_handler := handler\<rparr>, s')" "kcur K' c pd s'"
    "card {q. K q = KFree} \<le> card {q. K' q = KFree} + 2" "env_free_list s' = env_free_list s"
    "envs s' = (envs s)(c := (envs s c)\<lparr>env_pgfault_upcall := if pgfault_handler v = 0 then upcall else env_pgfault_upcall (envs s c)\<rparr>)"
    "\<And>pd' va. K pd' = KPD \<Longrightarrow> pdx va < 955 \<Longrightarrow> pd' \<noteq> pd \<or> PGNUM va \<noteq> PGNUM xstack \<Longrightarrow> aspace s' pd' va = aspace s pd' va"
    "\<And>q. K q = KData \<Longrightarrow> pmem s' q = pmem s q" "\<And>q. K' q = KData \<Longrightarrow> unat (pp_ref (pages s' q)) < 0x7FFF"
    "\<And>pd'. K' pd' = KPD \<longleftrightarrow> K pd' = KPD"
proof (cases "pgfault_handler v = 0")
  case False
  show thesis
    by (rule that [of s K]) (use False k r in \<open>simp_all add: set_pgfault_handler_def\<close>)
next
  case True
  note D = kcurD [OF k]
  from k self_env(2) [OF k] D(6,7) xstack_va(1) free obtain f u K' where u: "usys_page_alloc (env_id (envs s c)) xstack rw s = Inr (0, u)"
    "K f = KFree" "vm_step K s pd xstack (Some (f, rw)) K' u" "card {q. K q = KFree} \<le> card {q. K' q = KFree} + 2"
    by (rule new_page) blast
  note V = vm_stepD [OF u(3)] and k' = kcur_step [OF k u(3)]
  define s' where "s' = upd_env c (\<lambda>x. x\<lparr>env_pgfault_upcall := upcall\<rparr>) u"
  have "usys_env_set_pgfault_upcall (env_id (envs u c)) upcall u = Inr (0, s')"
    using self_env(2) [OF k']
    by (simp add: usys_env_set_pgfault_upcall_def usyscall_def syscall_def sys_env_set_pgfault_upcall_def with_env_def s'_def)
  then have run: "set_pgfault_handler upcall handler v s = Inr (v\<lparr>pgfault_handler := handler\<rparr>, s')"
    by (simp only: set_pgfault_handler_def True v u(1) bindR_Inr prod.case if_True) simp
  have pds: "K' pd' = KPD \<longleftrightarrow> K pd' = KPD" for pd'
    using kinds_pgdir [OF D(1) V(1) vm_frame_sel(3) [OF V(2)]] .
  show thesis
  proof (rule that [OF run _ u(4) _ _ _ _ _ pds])
    show "kcur K' c pd s'" unfolding s'_def by (rule kcur_upd_env [OF k']) simp_all
    show "env_free_list s' = env_free_list s" using V(2) by (simp add: s'_def vm_frame_def)
    show "envs s' = (envs s)(c := (envs s c)\<lparr>env_pgfault_upcall := if pgfault_handler v = 0 then upcall else env_pgfault_upcall (envs s c)\<rparr>)"
      by (simp add: s'_def upd_env_def True vm_frame_sel(3) [OF V(2)])
    show "aspace s' pd' va = aspace s pd' va" if "K pd' = KPD" "pdx va < 955" "pd' \<noteq> pd \<or> PGNUM va \<noteq> PGNUM xstack" for pd' va
      using V(3) [OF that(1,2)] that(3) aspace_cong [of s' u pd' va] by (auto simp: s'_def)
    show "pmem s' q = pmem s q" if "K q = KData" for q using V(4) [OF that] by (simp add: s'_def)
    show "unat (pp_ref (pages s' q)) < 0x7FFF" if "K' q = KData" for q
      using refs_step [OF k u(3,2) r [rule_format] _ that] by (simp add: s'_def)
  qed
qed

lemma refs_fresh_dir:
  assumes k: "kcur K c pd s" "kcur (K(dpd := KPD)) c pd s'" and free: "K dpd = KFree"
    and a: "\<And>va. pdx va < 955 \<Longrightarrow> aspace s' dpd va = None"
    "\<And>pd' va. K pd' = KPD \<Longrightarrow> pdx va < 955 \<Longrightarrow> aspace s' pd' va = aspace s pd' va"
    and q: "(K(dpd := KPD)) q = KData"
  shows "pp_ref (pages s' q) = pp_ref (pages s q)"
proof -
  have Kq: "K q = KData" using q by (simp split: if_splits)
  have n: "pdx (of_nat n * PGSIZE) < 955" if "n < 977920" for n
    using that page_addr(2) [of n] by (simp add: less_mult_imp_div_less del: PGSIZE_def)
  have "maps_to (K(dpd := KPD)) s' q = maps_to K s q"
    using a n free unfolding maps_to_def by (auto split: if_splits)
  then show ?thesis
    using refs_maps_to(1) [OF kcurD(1) [OF k(1)] Kq] refs_maps_to(1) [OF kcurD(1) [OF k(2)] q] by (simp only: word_unat_eq_iff)
qed

lemma below_stack: "va < USTACKTOP \<longleftrightarrow> unat (PGNUM va) < unat USTACKTOP div 4096"
  by (simp add: word_less_nat_alt unat_PGNUM div_less_iff_less_mult)

lemma below_stackD:
  assumes "va < USTACKTOP"
  shows "pdx va < 955" "PGNUM va \<noteq> PGNUM xstack"
proof -
  have "va < UTOP" using assms by (rule less_trans) simp
  then show "pdx va < 955" by (simp only: below_UTOP_iff)
  show "PGNUM va \<noteq> PGNUM xstack" using assms xstack_va(2) unfolding below_stack by auto
qed

lemma tables_cong:
  assumes "\<And>va. va < USTACKTOP \<Longrightarrow> aspace s' pd va = aspace s pd va"
  shows "tables s' pd = tables s pd"
proof -
  have "aspace s' pd (of_nat n * PGSIZE) = aspace s pd (of_nat n * PGSIZE)" if "n < unat USTACKTOP div 4096" for n
    using page_addr(4) [of n] that by (intro assms) (simp add: below_stack del: PGSIZE_def USTACKTOP_def, simp)
  then show ?thesis unfolding tables_def by auto
qed

text \<open>After \<open>sys_exofork\<close> the ground is prepared for the copy.\<close>

lemma fork_start:
  assumes k: "kcur K c pd s" and v: "thisenv v = c" and fe: "env_free_list s \<noteq> None"
    and refs: "\<forall>q. K q = KData \<longrightarrow> unat (pp_ref (pages s q)) < 0x7FFF" and mem: "card (tables s pd) + 5 \<le> card {q. K q = KFree}"
  obtains s1 e dpd s2 K2 where "set_pgfault_handler upcall handler v s = Inr (v\<lparr>pgfault_handler := handler\<rparr>, s1)"
    "usys_exofork s1 = Inr (sint (env_id (envs s2 e)), s2)" "0 < sint (env_id (envs s2 e))" "e \<noteq> c"
    "fork_ready K2 c pd (env_id (envs s2 e)) e dpd s2" "env_status (envs s2 e) = ENV_NOT_RUNNABLE" "env_status (envs s e) = ENV_FREE"
    "env_tf (envs s2 e) = (env_tf (envs s c))\<lparr>tf_regs := (tf_regs (env_tf (envs s c)))\<lparr>reg_eax := 0\<rparr>\<rparr>"
    "\<And>q. q \<noteq> e \<Longrightarrow> q \<noteq> c \<Longrightarrow> envs s2 q = envs s q" "K dpd \<noteq> KPD"
    "\<And>pd' va. K pd' = KPD \<Longrightarrow> pdx va < 955 \<Longrightarrow> pd' \<noteq> pd \<or> PGNUM va \<noteq> PGNUM xstack \<Longrightarrow> aspace s2 pd' va = aspace s pd' va"
    "\<And>q. K q = KData \<Longrightarrow> K2 q = KData \<Longrightarrow> pmem s2 q = pmem s q" "\<And>pd'. K pd' = KPD \<Longrightarrow> K2 pd' = KPD"
proof -
  have "2 \<le> card {q. K q = KFree}" using mem by simp
  with k v obtain s1 K1 where s1: "set_pgfault_handler upcall handler v s = Inr (v\<lparr>pgfault_handler := handler\<rparr>, s1)" "kcur K1 c pd s1"
    "card {q. K q = KFree} \<le> card {q. K1 q = KFree} + 2" "env_free_list s1 = env_free_list s"
    "envs s1 = (envs s)(c := (envs s c)\<lparr>env_pgfault_upcall := if pgfault_handler v = 0 then upcall else env_pgfault_upcall (envs s c)\<rparr>)"
    "\<And>pd' va. K pd' = KPD \<Longrightarrow> pdx va < 955 \<Longrightarrow> pd' \<noteq> pd \<or> PGNUM va \<noteq> PGNUM xstack \<Longrightarrow> aspace s1 pd' va = aspace s pd' va"
    "\<And>q. K q = KData \<Longrightarrow> pmem s1 q = pmem s q" "\<And>q. K1 q = KData \<Longrightarrow> unat (pp_ref (pages s1 q)) < 0x7FFF"
    "\<And>pd'. K1 pd' = KPD \<longleftrightarrow> K pd' = KPD"
    using refs by (rule handler_ok [where upcall = upcall and handler = handler]) (rule that)
  have c1: "card (tables s pd) + 3 \<le> card {q. K1 q = KFree}" using mem s1(3) by simp
  then have "2 \<le> card {q. K1 q = KFree}" by simp
  then obtain x where "K1 x = KFree" by (rule two_free)
  then obtain e dpd s2 where s2: "usys_exofork s1 = Inr (sint (env_id (envs s2 e)), s2)" "0 < sint (env_id (envs s2 e))"
    "kcur (K1(dpd := KPD)) c pd s2" "K1 dpd = KFree" "e < NENV" "e \<noteq> c"
    "envid2env (env_id (envs s2 e)) True s2 = Inr ((0, Some e), s2)" "env_pgdir (envs s2 e) = Some dpd"
    "env_status (envs s2 e) = ENV_NOT_RUNNABLE" "env_status (envs s1 e) = ENV_FREE"
    "env_tf (envs s2 e) = (env_tf (envs s1 c))\<lparr>tf_regs := (tf_regs (env_tf (envs s1 c)))\<lparr>reg_eax := 0\<rparr>\<rparr>"
    "\<And>q. q \<noteq> e \<Longrightarrow> envs s2 q = envs s1 q" "\<And>va. pdx va < 955 \<Longrightarrow> aspace s2 dpd va = None"
    "\<And>pd' va. K1 pd' = KPD \<Longrightarrow> pdx va < 955 \<Longrightarrow> aspace s2 pd' va = aspace s1 pd' va"
    "\<And>q. K1 q \<noteq> KFree \<Longrightarrow> pmem s2 q = pmem s1 q"
    by (rule exofork_ok [OF s1(2), unfolded s1(4), OF fe]) (rule that)
  have as: "aspace s2 pd' va = aspace s pd' va" if "K pd' = KPD" "pdx va < 955" "pd' \<noteq> pd \<or> PGNUM va \<noteq> PGNUM xstack" for pd' va
    using s2(14) [of pd' va] s1(6) [OF that] s1(9) that(1,2) by simp
  have "tables s2 pd = tables s pd"
    using as [OF kcurD(3) [OF k]] below_stackD by (intro tables_cong) blast
  moreover have "{q. (K1(dpd := KPD)) q = KFree} = {q. K1 q = KFree} - {dpd}" by auto
  then have "card {q. (K1(dpd := KPD)) q = KFree} = card {q. K1 q = KFree} - 1"
    using s2(4) by (simp add: card_Diff_singleton)
  moreover have "unat (pp_ref (pages s2 q)) < 0x7FFF" if "(K1(dpd := KPD)) q = KData" for q
    using refs_fresh_dir [OF s1(2) s2(3,4,13,14) that] s1(8) [of q] that by (simp split: if_splits)
  moreover have "dpd \<noteq> pd" using kcurD(3) [OF s1(2)] s2(4) by auto
  ultimately have ready: "fork_ready (K1(dpd := KPD)) c pd (env_id (envs s2 e)) e dpd s2"
    using s2(3,5,7,8,13) c1 unfolding fork_ready_def by auto
  have nd: "K dpd \<noteq> KPD" using s1(9) [of dpd] s2(4) by simp
  show thesis
    by (rule that [OF s1(1) s2(1,2,6) ready s2(9) _ _ _ nd as])
      (use s2(6,10-12,15) s1(5,7,9) in \<open>auto split: if_splits\<close>)
qed

section \<open>Properties\<close>

text \<open>C9. \<open>fork\<close> duplicates the running environment. Given a free environment slot, reference counts below half of
  their range and frames for the page tables of the copied part of the address space and five more, it returns the
  identifier of a child that is ready to run with the registers of the parent, where the call returns 0. Below the stack top the
  child has the pages of the parent: shared pages with their own permissions, writable and copy-on-write pages
  as copy-on-write on both sides, the rest read-only. The child gets a zeroed page of its own for the exception
  stack and the page fault entry of the parent. Nobody else's address space, no environment but the two,
  and no mapped page's contents change.\<close>

theorem fork_correct:
  assumes k: "kcur K c pd s" and v: "thisenv v = c" and fe: "env_free_list s \<noteq> None"
    and refs: "\<forall>q. K q = KData \<longrightarrow> unat (pp_ref (pages s q)) < 0x7FFF" and mem: "card (tables s pd) + 5 \<le> card {q. K q = KFree}"
  shows "\<exists>e dpd f s' K'. fork upcall handler v s = Inr ((sint (env_id (envs s' e)), v\<lparr>pgfault_handler := handler\<rparr>), s') \<and>
    kcur K' c pd s' \<and> 0 < sint (env_id (envs s' e)) \<and> env_status (envs s e) = ENV_FREE \<and>
    env_status (envs s' e) = ENV_RUNNABLE \<and> env_pgdir (envs s' e) = Some dpd \<and>
    env_tf (envs s' e) = (env_tf (envs s c))\<lparr>tf_regs := (tf_regs (env_tf (envs s c)))\<lparr>reg_eax := 0\<rparr>\<rparr> \<and>
    env_pgfault_upcall (envs s' e) = env_pgfault_upcall (envs s' c) \<and>
    (\<forall>va. va < USTACKTOP \<longrightarrow> aspace s' dpd va = child_map (aspace s pd va) \<and> aspace s' pd va = parent_map (aspace s pd va)) \<and>
    aspace s' dpd (UXSTACKTOP - PGSIZE) = Some (f, PTE_U OR PTE_P OR PTE_W) \<and> pmem s' f = (\<lambda>_. 0) \<and>
    (\<forall>pd' va. K pd' = KPD \<and> pd' \<noteq> pd \<and> va < UTOP \<longrightarrow> aspace s' pd' va = aspace s pd' va) \<and>
    (\<forall>q. q \<noteq> e \<and> q \<noteq> c \<longrightarrow> envs s' q = envs s q) \<and>
    (\<forall>pd' va p fl. K pd' = KPD \<and> va < UTOP \<and> (pd' = pd \<longrightarrow> va < USTACKTOP) \<and> aspace s pd' va = Some (p, fl) \<longrightarrow>
      pmem s' p = pmem s p)"
proof (rule fork_start [OF k v fe refs mem, of upcall handler])
  fix s1 e dpd s2 K2
  assume s2: "set_pgfault_handler upcall handler v s = Inr (v\<lparr>pgfault_handler := handler\<rparr>, s1)"
    "usys_exofork s1 = Inr (sint (env_id (envs s2 e)), s2)" "0 < sint (env_id (envs s2 e))" "e \<noteq> c"
    "fork_ready K2 c pd (env_id (envs s2 e)) e dpd s2" "env_status (envs s2 e) = ENV_NOT_RUNNABLE" "env_status (envs s e) = ENV_FREE"
    "env_tf (envs s2 e) = (env_tf (envs s c))\<lparr>tf_regs := (tf_regs (env_tf (envs s c)))\<lparr>reg_eax := 0\<rparr>\<rparr>"
    "\<And>q. q \<noteq> e \<Longrightarrow> q \<noteq> c \<Longrightarrow> envs s2 q = envs s q" "K dpd \<noteq> KPD"
    "\<And>pd' va. K pd' = KPD \<Longrightarrow> pdx va < 955 \<Longrightarrow> pd' \<noteq> pd \<or> PGNUM va \<noteq> PGNUM xstack \<Longrightarrow> aspace s2 pd' va = aspace s pd' va"
    "\<And>q. K q = KData \<Longrightarrow> K2 q = KData \<Longrightarrow> pmem s2 q = pmem s q" "\<And>pd'. K pd' = KPD \<Longrightarrow> K2 pd' = KPD"
  note R = fork_readyD [OF s2(5)]
  have "thisenv (v\<lparr>pgfault_handler := handler\<rparr>) = c" using v by simp
  from s2(5) this s2(6) obtain f s' K' where s': "fork_parent (env_id (envs s2 e)) (v\<lparr>pgfault_handler := handler\<rparr>) s2 = Inr ((), s')"
    "kcur K' c pd s'" "pmem s' f = (\<lambda>_. 0)"
    "envs s' = (envs s2)(e := (envs s2 e)\<lparr>env_pgfault_upcall := env_pgfault_upcall (envs s2 c), env_status := ENV_RUNNABLE\<rparr>)"
    "\<And>pd' va. K2 pd' = KPD \<Longrightarrow> pdx va < 955 \<Longrightarrow> aspace s' pd' va =
      (if pd' = dpd \<and> PGNUM va = PGNUM xstack then Some (f, rw)
       else if unat USTACKTOP div 4096 \<le> unat (PGNUM va) then aspace s2 pd' va
       else if pd' = dpd then child_map (aspace s2 pd va) else if pd' = pd then parent_map (aspace s2 pd va) else aspace s2 pd' va)"
    "\<And>pd' va q fl. K2 pd' = KPD \<Longrightarrow> pdx va < 955 \<Longrightarrow> aspace s2 pd' va = Some (q, fl) \<Longrightarrow> pmem s' q = pmem s2 q"
    by (rule fork_parent_ok) (rule that)
  have E: "env_id (envs s' e) = env_id (envs s2 e)" "env_status (envs s' e) = ENV_RUNNABLE" "env_pgdir (envs s' e) = Some dpd"
    "env_tf (envs s' e) = (env_tf (envs s c))\<lparr>tf_regs := (tf_regs (env_tf (envs s c)))\<lparr>reg_eax := 0\<rparr>\<rparr>"
    "env_pgfault_upcall (envs s' e) = env_pgfault_upcall (envs s' c)" "\<forall>q. q \<noteq> e \<and> q \<noteq> c \<longrightarrow> envs s' q = envs s q"
    using s'(4) s2(4,8,9) R(4) by simp_all
  have run: "fork upcall handler v s = Inr ((sint (env_id (envs s' e)), v\<lparr>pgfault_handler := handler\<rparr>), s')" "0 < sint (env_id (envs s' e))"
    using s2(1-3) s'(1,4) by (simp_all add: fork_def)
  have pages: "\<forall>va. va < USTACKTOP \<longrightarrow> aspace s' dpd va = child_map (aspace s pd va) \<and> aspace s' pd va = parent_map (aspace s pd va)"
    using s'(5) [OF R(9)] s'(5) [OF kcurD(3) [OF R(1)]] s2(11) [OF kcurD(3) [OF k]] below_stackD R(5)
    by (simp add: below_stack del: USTACKTOP_def)
  have stack: "aspace s' dpd (UXSTACKTOP - PGSIZE) = Some (f, PTE_U OR PTE_P OR PTE_W)"
    using s'(5) [OF R(9) good_va [OF xstack_va(1)]] by simp
  have others: "\<forall>pd' va. K pd' = KPD \<and> pd' \<noteq> pd \<and> va < UTOP \<longrightarrow> aspace s' pd' va = aspace s pd' va"
    using s'(5) [OF s2(13)] s2(11) s2(10) unfolding below_UTOP_iff by auto
  have "pmem s' p = pmem s p" if p: "K pd' = KPD" "va < UTOP" "pd' = pd \<longrightarrow> va < USTACKTOP" "aspace s pd' va = Some (p, fl)" for pd' va p fl
  proof -
    have va: "pdx va < 955" using p(2) by (simp only: below_UTOP_iff)
    have "aspace s2 pd' va = Some (p, fl)" using s2(11) [OF p(1) va] p(3,4) below_stackD(2) by auto
    with s'(6) [OF s2(13) [OF p(1)] va] s2(12) aspace_data [OF k p(1) va p(4)] aspace_data [OF R(1) s2(13) [OF p(1)] va]
    show ?thesis by simp
  qed
  then have contents: "\<forall>pd' va p fl. K pd' = KPD \<and> va < UTOP \<and> (pd' = pd \<longrightarrow> va < USTACKTOP) \<and> aspace s pd' va = Some (p, fl) \<longrightarrow>
      pmem s' p = pmem s p" by blast
  show ?thesis
    by (rule exI [of _ e], rule exI [of _ dpd], rule exI [of _ f], rule exI [of _ s'], rule exI [of _ K'],
      intro conjI run s'(2,3) s2(7) E(2-6) pages stack others contents)
qed


text \<open>The sample state after a page was allocated at \<open>0x800000\<close>.\<close>

lemma sample_page:
  obtains f s K where "usys_page_alloc 0 0x800000 rw user_state = Inr (0, s)" "kcur K 0 2 s" "env_free_list s \<noteq> None"
    "\<forall>q. K q = KData \<longrightarrow> unat (pp_ref (pages s q)) < 0x7FFF" "10 \<le> card {q. K q = KFree}"
    "aspace s 2 0x800000 = Some (f, rw)" "card (tables s 2) \<le> 1"
proof -
  note k = user_state(1)
  note D = kcurD [OF k]
  have va: "\<not> bad_va 0x800000" by (simp add: bad_va_def)
  have "2 \<le> card {q. one_env_kinds q = KFree}" by (simp add: user_state(3))
  from k self_env(1) [OF k] D(6,7) va this obtain f s K where s: "usys_page_alloc 0 0x800000 rw user_state = Inr (0, s)"
    "one_env_kinds f = KFree" "vm_step one_env_kinds user_state 2 0x800000 (Some (f, rw)) K s"
    "card {q. one_env_kinds q = KFree} \<le> card {q. K q = KFree} + 2"
    by (rule new_page) blast
  note V = vm_stepD [OF s(3)]
  have none: "aspace user_state 2 va = None" if "pdx va < 955" for va
    using that unfolding user_state(4) by (simp add: aspace_def pte_of_def one_run_mem Let_def unat_PDX)
  have "tables s 2 \<subseteq> {2}"
  proof
    fix d
    assume "d \<in> tables s 2"
    then obtain n where n: "n < 977918" "n div 1024 = d" "aspace s 2 (of_nat n * PGSIZE) \<noteq> None" by (auto simp: tables_def)
    then have p: "pdx (of_nat n * PGSIZE) < 955" "unat (PGNUM (of_nat n * PGSIZE)) = n" using page_addr [of n]
      by (simp_all add: less_mult_imp_div_less del: PGSIZE_def)
    from V(3) [OF D(3) p(1)] none [OF p(1)] n(3) have "PGNUM (of_nat n * PGSIZE) = PGNUM 0x800000" by (auto simp del: PGSIZE_def split: if_splits)
    with p(2) have "n = 2048" by (simp add: unat_PGNUM del: PGSIZE_def)
    with n(2) show "d \<in> {2}" by simp
  qed
  from card_mono [OF _ this] have "card (tables s 2) \<le> 1" by simp
  moreover have "unat (pp_ref (pages s q)) < 0x7FFF" if "K q = KData" for q
    by (rule refs_step [OF k s(3,2) _ _ that]) (simp_all add: one_env_kinds_def boot_kinds_def split: if_splits)
  moreover have "env_free_list s \<noteq> None" using V(2) user_state(2) by (simp add: vm_frame_def)
  moreover have "aspace s 2 0x800000 = Some (f, rw)" using V(3) [OF D(3) good_va [OF va]] by simp
  ultimately show thesis
    using that [OF s(1) kcur_step [OF k s(3)]] s(4) by (simp add: user_state(3))
qed

theorem fork_correct_witness:
  "\<exists>s K f. usys_page_alloc 0 0x800000 7 user_state = Inr (0, s) \<and> kcur K 0 2 s \<and> aspace s 2 0x800000 = Some (f, 7) \<and>
    (\<exists>e dpd s'. fork 0x800020 0x800100 \<lparr>pgfault_handler = 0, thisenv = 0\<rparr> s =
        Inr ((sint (env_id (envs s' e)), \<lparr>pgfault_handler = 0x800100, thisenv = 0\<rparr>), s') \<and>
      env_status (envs s' e) = ENV_RUNNABLE \<and> env_pgdir (envs s' e) = Some dpd \<and>
      aspace s' dpd 0x800000 = Some (f, 0x805) \<and> aspace s' 2 0x800000 = Some (f, 0x805) \<and> pmem s' f = pmem s f)"
proof (rule sample_page)
  fix f s K
  assume s: "usys_page_alloc 0 0x800000 rw user_state = Inr (0, s)" "kcur K 0 2 s" "env_free_list s \<noteq> None"
    "\<forall>q. K q = KData \<longrightarrow> unat (pp_ref (pages s q)) < 0x7FFF" "10 \<le> card {q. K q = KFree}"
    "aspace s 2 0x800000 = Some (f, rw)" "card (tables s 2) \<le> 1"
  let ?v = "\<lparr>pgfault_handler = 0, thisenv = 0\<rparr>"
  have t: "thisenv ?v = 0" "card (tables s 2) + 5 \<le> card {q. K q = KFree}" using s(5,7) by simp_all
  have va: "(0x800000 :: u32) < USTACKTOP" "(0x800000 :: u32) < UTOP" by simp_all
  have m: "child_map (Some (f, rw)) = Some (f, 0x805)" "parent_map (Some (f, rw)) = Some (f, 0x805)"
    by (simp_all add: child_map_def parent_map_def child_flags_def parent_flags_def)
  from fork_correct [OF s(2) t(1) s(3,4) t(2), of "0x800020" "0x800100"]
  obtain e dpd s' where "fork 0x800020 0x800100 ?v s = Inr ((sint (env_id (envs s' e)), ?v\<lparr>pgfault_handler := 0x800100\<rparr>), s')"
    "env_status (envs s' e) = ENV_RUNNABLE" "env_pgdir (envs s' e) = Some dpd"
    "aspace s' dpd 0x800000 = child_map (aspace s 2 0x800000)" "aspace s' 2 0x800000 = parent_map (aspace s 2 0x800000)" "pmem s' f = pmem s f"
    using va kcurD(3) [OF s(2)] s(6) by blast
  then show ?thesis
    using s(1,2,6) m by (intro exI [of _ s] exI [of _ K] exI [of _ f] conjI exI [of _ e] exI [of _ dpd] exI [of _ s']) simp_all
qed

text \<open>C10. \<open>pgfault\<close> gives the environment a private copy of the page that it faulted on: with two free frames it
  returns, and the page number of the faulting address is mapped writable to a frame that was free, with the bytes of the old page.
  The temporary mapping is gone; every other slot of every address space is as before, and so are the contents of all
  pages mapped anywhere but at the new frame. So a write after the fault is seen by no other environment.\<close>

theorem pgfault_correct:
  assumes k: "kcur K c pd s" and va: "fault_va < UTOP" "PGNUM fault_va \<noteq> PGNUM PFTEMP"
    and a: "aspace s pd fault_va = Some (p, fl)" "fl AND PTE_U \<noteq> 0" and free: "2 \<le> card {q. K q = KFree}"
  shows "\<exists>f s' K'. pgfault fault_va s = Inr ((), s') \<and> kcur K' c pd s' \<and> envs s' = envs s \<and> K f = KFree \<and>
    (\<forall>pd' va. K pd' = KPD \<and> va < UTOP \<longrightarrow> aspace s' pd' va =
      (if pd' = pd \<and> PGNUM va = PGNUM fault_va then Some (f, PTE_U OR PTE_P OR PTE_W)
       else if pd' = pd \<and> PGNUM va = PGNUM PFTEMP then None else aspace s pd' va)) \<and>
    (\<forall>i<4096. get_byte s' f i = get_byte s p i) \<and>
    (\<forall>pd' va q fl. K pd' = KPD \<and> va < UTOP \<and> aspace s' pd' va = Some (q, fl) \<and> q \<noteq> f \<longrightarrow> pmem s' q = pmem s q)"
proof -
  obtain x y where "K x = KFree" "K y = KFree" "x \<noteq> y" using free by (rule two_free)
  from k va(1) [unfolded below_UTOP_iff] va(2) a this show ?thesis
    unfolding below_UTOP_iff by (rule pgfault_ok) blast
qed

theorem pgfault_correct_witness:
  "\<exists>s K p f s'. usys_page_alloc 0 0x800000 7 user_state = Inr (0, s) \<and> kcur K 0 2 s \<and> aspace s 2 0x800000 = Some (p, 7) \<and>
    pgfault 0x800123 s = Inr ((), s') \<and> K f = KFree \<and> aspace s' 2 0x800000 = Some (f, 7) \<and> (\<forall>i<4096. get_byte s' f i = get_byte s p i)"
proof (rule sample_page)
  fix f s K
  assume s: "usys_page_alloc 0 0x800000 rw user_state = Inr (0, s)" "kcur K 0 2 s" "env_free_list s \<noteq> None"
    "\<forall>q. K q = KData \<longrightarrow> unat (pp_ref (pages s q)) < 0x7FFF" "10 \<le> card {q. K q = KFree}"
    "aspace s 2 0x800000 = Some (f, rw)" "card (tables s 2) \<le> 1"
  have va: "(0x800123 :: u32) < UTOP" "PGNUM 0x800123 \<noteq> PGNUM PFTEMP" "PGNUM 0x800000 = PGNUM 0x800123" "(0x800000 :: u32) < UTOP"
    "rw AND PTE_U \<noteq> 0" "2 \<le> card {q. K q = KFree}" using s(5) by (simp_all add: PGNUM_def)
  have "aspace s 2 0x800123 = Some (f, rw)" using s(6) aspace_page [OF va(3), of s 2] by simp
  from pgfault_correct [OF s(2) va(1,2) this va(5,6)] obtain g s' where "pgfault 0x800123 s = Inr ((), s')" "K g = KFree"
    "aspace s' 2 0x800000 = Some (g, rw)" "\<forall>i<4096. get_byte s' g i = get_byte s f i"
    using va(3,4) kcurD(3) [OF s(2)] by auto
  then show ?thesis
    using s(1,2,6) by (intro exI [of _ s] exI [of _ K] exI [of _ f] exI [of _ g] exI [of _ s'] conjI) simp_all
qed

end
