(* ===== verification/Pfentry.thy ===== *)
theory Pfentry
  imports Fork
begin

text \<open>
  The user-level entry of page faults (lib/pfentry.S), instruction by instruction, with the C handler that it calls as
  a parameter. Its arithmetic is on the processor's registers; its stack accesses are loads and stores of user memory.

  Proved: with the copy-on-write handler of lib/fork.c, a fault on a page leads back to the faulting instruction with all
  registers, the flags and the stack pointer as they were, and the page is private and writable.
\<close>

unbundle bit_operations_syntax

section \<open>The code\<close>

record Gpr =
  r_edi :: u32
  r_esi :: u32
  r_ebp :: u32
  r_ebx :: u32
  r_edx :: u32
  r_ecx :: u32
  r_eax :: u32

record Ucpu =
  gprs :: Gpr
  esp :: u32
  eip :: u32
  eflags :: u32

text \<open>
  A C function on entry: its argument, the registers and the flags; by the calling convention it returns with the
  stack pointer it was called with.
\<close>

type_synonym chandler = "u32 \<Rightarrow> Gpr \<times> u32 \<Rightarrow> kstate \<Rightarrow> (Gpr \<times> u32) kres"

definition upop :: "Ucpu \<Rightarrow> kstate \<Rightarrow> (u32 \<times> Ucpu) kres" where
  "upop r s = bindR (uload32 (esp r) s) (\<lambda>(w, s). Inr ((w, r\<lparr>esp := esp r + 4\<rparr>), s))"

definition upush :: "u32 \<Rightarrow> Ucpu \<Rightarrow> kstate \<Rightarrow> Ucpu kres" where
  "upush w r s = bindR (ustore32 (esp r - 4) w s) (\<lambda>(_, s). Inr (r\<lparr>esp := esp r - 4\<rparr>, s))"

definition popal :: "Ucpu \<Rightarrow> kstate \<Rightarrow> Ucpu kres" where
  "popal r s =
    bindR (upop r s) (\<lambda>((edi, r), s). bindR (upop r s) (\<lambda>((esi, r), s). bindR (upop r s) (\<lambda>((ebp, r), s).
      let r = r\<lparr>esp := esp r + 4\<rparr>
      in bindR (upop r s) (\<lambda>((ebx, r), s). bindR (upop r s) (\<lambda>((edx, r), s). bindR (upop r s) (\<lambda>((ecx, r), s).
         bindR (upop r s) (\<lambda>((eax, r), s).
           Inr (r\<lparr>gprs := \<lparr>r_edi = edi, r_esi = esi, r_ebp = ebp, r_ebx = ebx, r_edx = edx, r_ecx = ecx, r_eax = eax\<rparr>\<rparr>, s))))))))"

text \<open>In user mode \<open>popfl\<close> leaves the interrupt flag and the I/O privilege level alone.\<close>

definition FL_SYS :: u32 where [simp]: "FL_SYS = 0x3200"

definition popfl :: "Ucpu \<Rightarrow> kstate \<Rightarrow> Ucpu kres" where
  "popfl r s = bindR (upop r s) (\<lambda>((w, r), s). Inr (r\<lparr>eflags := (w AND NOT FL_SYS) OR (eflags r AND FL_SYS)\<rparr>, s))"

definition add_esp :: "u32 \<Rightarrow> Ucpu \<Rightarrow> Ucpu" where
  "add_esp n r = r\<lparr>esp := esp r + n\<rparr>"

text \<open>\<open>ra\<close> is the address of the instruction after the call.\<close>

definition call_handler :: "chandler \<Rightarrow> u32 \<Rightarrow> Ucpu \<Rightarrow> kstate \<Rightarrow> Ucpu kres" where
  "call_handler handler ra r s =
    bindR (upush (esp r) r s) (\<lambda>(r, s).
      bindR (upush ra r s) (\<lambda>(r, s).
        bindR (uload32 (esp r + 4) s) (\<lambda>(utf, s).
          bindR (handler utf (gprs r, eflags r) s) (\<lambda>((g, fl), s).
            Inr (add_esp 4 (add_esp 4 (r\<lparr>gprs := g, eflags := fl\<rparr>)), s)))))"

definition upcall_return :: "Ucpu \<Rightarrow> kstate \<Rightarrow> Ucpu kres" where
  "upcall_return r s =
    bindR (uload32 (esp r + 0x30) s) (\<lambda>(eax, s).
      let eax = eax - 4
      in bindR (ustore32 (esp r + 0x30) eax s) (\<lambda>(_, s).
           bindR (uload32 (esp r + 0x28) s) (\<lambda>(ebx, s).
             bindR (ustore32 eax ebx s) (\<lambda>(_, s).
               bindR (popal (add_esp 8 r) s) (\<lambda>(r, s).
                 bindR (popfl (add_esp 4 r) s) (\<lambda>(r, s).
                   bindR (uload32 (esp r) s) (\<lambda>(w, s).
                     bindR (upop (r\<lparr>esp := w\<rparr>) s) (\<lambda>((w, r), s). Inr (r\<lparr>eip := w\<rparr>, s)))))))))"

definition pgfault_upcall :: "chandler \<Rightarrow> u32 \<Rightarrow> Ucpu \<Rightarrow> kstate \<Rightarrow> Ucpu kres" where
  "pgfault_upcall handler ra r s = bindR (call_handler handler ra r s) (\<lambda>(r, s). upcall_return r s)"

text \<open>The handler of lib/fork.c called with a pointer to the frame; \<open>clob\<close> is what the compiled code leaves in the registers.\<close>

definition c_pgfault :: "(Gpr \<times> u32 \<Rightarrow> Gpr \<times> u32) \<Rightarrow> chandler" where
  "c_pgfault clob utf x s =
    bindR (uload32 utf s) (\<lambda>(fault_va, s). bindR (pgfault fault_va s) (\<lambda>(_, s). Inr (clob x, s)))"

section \<open>Words of user memory\<close>

definition woff :: "u32 \<Rightarrow> nat" where
  "woff a = unat (PGOFF a) div 4"

text \<open>Address \<open>a\<close> is word \<open>i\<close> of frame \<open>f\<close>, which user code may read, and write if \<open>wr\<close>.\<close>

definition at :: "nat \<Rightarrow> bool \<Rightarrow> u32 \<Rightarrow> nat \<Rightarrow> nat \<Rightarrow> kstate \<Rightarrow> bool" where
  "at pd wr a f i s \<longleftrightarrow> pdx a < 955 \<and> woff a = i \<and>
    (\<exists>fl. aspace s pd a = Some (f, fl) \<and> fl AND PTE_U \<noteq> 0 \<and> (wr \<longrightarrow> fl AND PTE_W \<noteq> 0))"

lemma at_access:
  assumes "kcur K c pd s" "at pd wr a f i s"
  shows "uload32 a s = Inr (pmem s f i, s)" "wr \<Longrightarrow> ustore32 a w s = Inr ((), set_word f i w s)" "K f = KData"
proof -
  note D = kcurD [OF assms(1)]
  from assms(2) obtain fl where a: "pdx a < 955" "woff a = i" "aspace s pd a = Some (f, fl)" "fl AND PTE_U \<noteq> 0" "wr \<longrightarrow> fl AND PTE_W \<noteq> 0"
    by (auto simp: at_def)
  note u = utranslate_aspace [OF D(2,3) a(1)]
  show "uload32 a s = Inr (pmem s f i, s)" "wr \<Longrightarrow> ustore32 a w s = Inr ((), set_word f i w s)"
    using u a(2-5) D(4) by (simp_all add: uload32_def ustore32_def woff_def)
  show "K f = KData" using aspace_data [OF assms(1) D(3) a(1,3)] .
qed

lemma at_set:
  assumes "kcur K c pd s" "K g = KData"
  shows "kcur K c pd (set_word g j w s)" "at pd wr a f i (set_word g j w s) = at pd wr a f i s"
proof -
  show "kcur K c pd (set_word g j w s)" unfolding set_word_def using assms by (rule kcur_write)
  have "pdx a < 955 \<Longrightarrow> aspace (set_word g j w s) pd a = aspace s pd a"
    unfolding set_word_def using aspace_write [OF kcurD(2,3) [OF assms(1)] assms(2)] .
  then show "at pd wr a f i (set_word g j w s) = at pd wr a f i s"
    by (cases "pdx a < 955") (simp_all add: at_def)
qed

lemma page_shift:
  assumes "unat (PGOFF a) + k < 4096"
  shows "PGNUM (a + of_nat k) = PGNUM a" "unat (PGOFF (a + of_nat k)) = unat (PGOFF a) + k"
proof -
  define q m where "q = unat a div 4096" and "m = unat a mod 4096"
  have off: "m + k < 4096" using assms by (simp add: unat_PGOFF m_def)
  have "q < 1048576" using u32_less [of a] by (simp add: q_def less_mult_imp_div_less)
  moreover have e: "unat a + k = q * 4096 + (m + k)" by (simp add: q_def m_def)
  ultimately have "unat a + k < 4294967296" using off by linarith
  then have u: "unat (a + of_nat k) = unat a + k" by (intro unat_add_lt) simp
  have "(unat a + k) div 4096 = q" "(unat a + k) mod 4096 = m + k"
    unfolding e using off by simp_all
  then have "(unat a + k) div 4096 = unat a div 4096" "(unat a + k) mod 4096 = unat a mod 4096 + k" by (simp_all add: q_def m_def)
  then show "PGNUM (a + of_nat k) = PGNUM a" "unat (PGOFF (a + of_nat k)) = unat (PGOFF a) + k"
    by (simp_all only: word_unat_eq_iff unat_PGNUM unat_PGOFF u)
qed

lemma at_shift:
  assumes "at pd wr a f i s" "unat (PGOFF a) mod 4 = 0" "unat (PGOFF a) + 4 * k < 4096"
  shows "at pd wr (a + of_nat (4 * k)) f (i + k) s"
proof -
  note p = page_shift [OF assms(3)]
  have "woff (a + of_nat (4 * k)) = woff a + k" unfolding woff_def p(2) by simp
  moreover have "pdx (a + of_nat (4 * k)) = pdx a" by (simp only: page_of p(1))
  ultimately show ?thesis
    using assms(1) aspace_page [OF p(1), of s pd] by (auto simp: at_def)
qed

section \<open>The way back\<close>

definition gpr_of :: "PushRegs \<Rightarrow> Gpr" where
  "gpr_of r = \<lparr>r_edi = reg_edi r, r_esi = reg_esi r, r_ebp = reg_ebp r, r_ebx = reg_ebx r, r_edx = reg_edx r, r_ecx = reg_ecx r, r_eax = reg_eax r\<rparr>"

lemma upcall_return_ok:
  assumes k: "kcur K c pd s" and u: "esp r = u" "at pd True u fx x s" "unat (PGOFF u) mod 4 = 0" "unat (PGOFF u) + 52 \<le> 4096"
    and ws: "\<And>i. 2 \<le> i \<Longrightarrow> i < 13 \<Longrightarrow> pmem s fx (x + i) = utrapframe va tf ! i"
    and t: "at pd True (tf_esp tf - 4) fy y s" "fy = fx \<Longrightarrow> y < x \<or> x + 13 \<le> y"
  shows "upcall_return r s = Inr (\<lparr>gprs = gpr_of (tf_regs tf), esp = tf_esp tf, eip = tf_eip tf,
      eflags = (tf_eflags tf AND NOT FL_SYS) OR (eflags r AND FL_SYS)\<rparr>,
    set_word fy y (tf_eip tf) (set_word fx (x + 12) (tf_esp tf - 4) s))"
proof -
  let ?s1 = "set_word fx (x + 12) (tf_esp tf - 4) s"
  let ?s2 = "set_word fy y (tf_eip tf) ?s1"
  note a = at_access [OF k u(2)]
  note k1 = at_set [OF k a(3), where j = "x + 12" and w = "tf_esp tf - 4"]
  have t1: "at pd True (tf_esp tf - 4) fy y ?s1" using t(1) k1(2) by simp
  note b = at_access [OF k1(1) t1]
  note k2 = at_set [OF k1(1) b(3), where j = y and w = "tf_eip tf"]
  have frame: "at pd True (u + of_nat (4 * i)) fx (x + i) s" if "i < 13" for i
    using that u(3,4) by (intro at_shift [OF u(2)]) simp_all
  have load: "uload32 (u + of_nat (4 * i)) ?s2 = Inr (if i = 12 then tf_esp tf - 4 else utrapframe va tf ! i, ?s2)"
    if "2 \<le> i" "i < 13" for i
  proof -
    have "at pd True (u + of_nat (4 * i)) fx (x + i) ?s2" using frame [OF that(2)] k1(2) k2(2) by simp
    from at_access(1) [OF k2(1) this] show ?thesis using ws [OF that] t(2) that by (auto simp: pmem_set_word)
  qed
  have "uload32 (u + 0x30) s = Inr (tf_esp tf, s)" "ustore32 (u + 0x30) w s = Inr ((), set_word fx (x + 12) w s)" for w
    using at_access(1,2) [OF k frame [of 12]] ws [of 12] by (simp_all add: utrapframe_def Let_def)
  moreover have "uload32 (u + 0x28) ?s1 = Inr (tf_eip tf, ?s1)"
    using at_access(1) [OF k1(1), of True "u + of_nat (4 * 10)" fx "x + 10"] frame [of 10] k1(2) ws [of 10]
    by (simp add: pmem_set_word utrapframe_def Let_def)
  moreover have "ustore32 (tf_esp tf - 4) (tf_eip tf) ?s1 = Inr ((), ?s2)" using b(2) by simp
  moreover have "uload32 (tf_esp tf - 4) ?s2 = Inr (tf_eip tf, ?s2)"
    using at_access(1) [OF k2(1), of True "tf_esp tf - 4" fy y] t1 k2(2) by (simp add: pmem_set_word)
  ultimately show ?thesis
    using u(1) load [of 2] load [of 3] load [of 4] load [of 6] load [of 7] load [of 8] load [of 9] load [of 11] load [of 12]
    by (cases r) (simp add: upcall_return_def popal_def popfl_def upop_def add_esp_def add.assoc Let_def gpr_of_def utrapframe_def)
qed

section \<open>The call of the handler\<close>

text \<open>The environment is on its exception stack, whose page it maps once, with room for a call below the frame at \<open>u\<close>.\<close>

definition on_xstack :: "nat \<Rightarrow> u32 \<Rightarrow> nat \<Rightarrow> kstate \<Rightarrow> bool" where
  "on_xstack pd u fx s \<longleftrightarrow> at pd True u fx (woff u) s \<and> unat (PGOFF u) mod 4 = 0 \<and> 8 \<le> unat (PGOFF u) \<and>
    unat (PGOFF u) + 52 \<le> 4096 \<and> PGNUM u \<noteq> PGNUM PFTEMP \<and>
    (\<forall>va fl. pdx va < 955 \<and> aspace s pd va = Some (fx, fl) \<longrightarrow> PGNUM va = PGNUM u)"

lemma below_frame:
  assumes "on_xstack pd u fx s"
  shows "at pd True (u - 4) fx (woff u - 1) s" "at pd True (u - 8) fx (woff u - 2) s" "2 \<le> woff u"
proof -
  have u: "at pd True u fx (woff u) s" "unat (PGOFF u) mod 4 = 0" "8 \<le> unat (PGOFF u)"
    using assms by (simp_all add: on_xstack_def)
  show "2 \<le> woff u" using u(3) by (simp add: woff_def)
  have "at pd True (u - of_nat (4 * k)) fx (woff u - k) s" if "k \<le> 2" for k
  proof -
    let ?a = "u - of_nat (4 * k)"
    have le: "4 * k \<le> unat u" using u(3) that mod_less_eq_dividend [of "unat u" 4096] by (simp add: unat_PGOFF)
    have uk: "unat (of_nat (4 * k) :: u32) = 4 * k" using that by (simp only: unat_of_nat) simp
    have ua: "unat ?a = unat u - 4 * k" using le uk by (simp only: unat_sub word_le_nat_alt)
    have q: "unat u - 4 * k = unat u div 4096 * 4096 + (unat u mod 4096 - 4 * k)"
      using u(3) that by (simp add: unat_PGOFF)
    have r: "unat u mod 4096 - 4 * k < 4096" by (rule less_imp_diff_less) simp
    have "(unat u - 4 * k) div 4096 = unat u div 4096" "(unat u - 4 * k) mod 4096 = unat u mod 4096 - 4 * k"
      unfolding q using r by simp_all
    then have p: "PGNUM ?a = PGNUM u" "unat (PGOFF ?a) = unat (PGOFF u) - 4 * k"
      by (simp_all only: word_unat_eq_iff unat_PGNUM unat_PGOFF ua)
    have "pdx ?a = pdx u" by (simp only: page_of p(1))
    moreover have "woff ?a = woff u - k" unfolding woff_def p(2) using u(2)
      by (auto elim!: dvdE simp: mod_eq_0_iff_dvd simp flip: diff_mult_distrib2)
    ultimately show ?thesis using u(1) aspace_page [OF p(1), of s pd] by (simp add: at_def)
  qed
  from this [of 1] this [of 2] show "at pd True (u - 4) fx (woff u - 1) s" "at pd True (u - 8) fx (woff u - 2) s" by simp_all
qed

lemma call_ok:
  assumes k: "kcur K c pd s" and x: "on_xstack pd u fx s" and r: "esp r = u" and w: "pmem s fx (woff u) = va"
    and va: "pdx va < 955" "PGNUM va \<noteq> PGNUM PFTEMP" "PGNUM va \<noteq> PGNUM u"
    and a: "aspace s pd va = Some (p, fl)" "fl AND PTE_U \<noteq> 0" and free: "2 \<le> card {q. K q = KFree}"
  obtains f s' K' where "call_handler (c_pgfault clob) ra r s = Inr (r\<lparr>gprs := fst (clob (gprs r, eflags r)), eflags := snd (clob (gprs r, eflags r))\<rparr>, s')"
    "kcur K' c pd s'" "K f = KFree" "f \<noteq> fx"
    "\<And>va'. pdx va' < 955 \<Longrightarrow> aspace s' pd va' = (if PGNUM va' = PGNUM va then Some (f, rw)
      else if PGNUM va' = PGNUM PFTEMP then None else aspace s pd va')"
    "\<And>i. i < 4096 \<Longrightarrow> get_byte s' f i = get_byte s p i" "\<And>i. woff u \<le> i \<Longrightarrow> pmem s' fx i = pmem s fx i"
proof -
  note B = below_frame [OF x]
  have u: "at pd True u fx (woff u) s" "PGNUM u \<noteq> PGNUM PFTEMP" "pdx u < 955"
    and own: "\<And>va fl. pdx va < 955 \<Longrightarrow> aspace s pd va = Some (fx, fl) \<Longrightarrow> PGNUM va = PGNUM u"
    using x by (auto simp: on_xstack_def at_def)
  have Kx: "K fx = KData" using at_access(3) [OF k u(1)] .
  let ?s1 = "set_word fx (woff u - 1) u s"
  let ?s2 = "set_word fx (woff u - 2) ra ?s1"
  note k1 = at_set [OF k Kx, where j = "woff u - 1" and w = u]
  note k2 = at_set [OF k1(1) Kx, where j = "woff u - 2" and w = ra]
  have as2: "aspace ?s2 pd va' = aspace s pd va'" if "pdx va' < 955" for va'
    using aspace_write [OF kcurD(2,3) [OF k] Kx that] aspace_write [OF kcurD(2,3) [OF k1(1)] Kx that] unfolding set_word_def by simp
  have push: "ustore32 (u - 4) u s = Inr ((), ?s1)" "ustore32 (u - 4 - 4) ra ?s1 = Inr ((), ?s2)"
    using at_access(2) [OF k B(1)] at_access(2) [OF k1(1), of True "u - 8" fx "woff u - 2"] B(2) k1(2) by simp_all
  have arg: "uload32 (u - 4) ?s2 = Inr (u, ?s2)" "uload32 u ?s2 = Inr (va, ?s2)"
    using at_access(1) [OF k2(1), of True "u - 4" fx "woff u - 1"] at_access(1) [OF k2(1), of True u fx "woff u"] B(1,3) u(1) k1(2) k2(2) w
    by (auto simp: pmem_set_word)
  have ap: "aspace ?s2 pd va = Some (p, fl)" using as2 [OF va(1)] a(1) by simp
  have pf: "p \<noteq> fx" using own [OF va(1)] a(1) va(3) by blast
  obtain y z where "K y = KFree" "K z = KFree" "y \<noteq> z" using free by (rule two_free)
  from k2(1) va(1,2) ap a(2) this obtain f s' K' where s': "pgfault va ?s2 = Inr ((), s')" "kcur K' c pd s'" "K f = KFree"
    "\<And>pd' va'. K pd' = KPD \<Longrightarrow> pdx va' < 955 \<Longrightarrow> aspace s' pd' va' =
      (if pd' = pd \<and> PGNUM va' = PGNUM va then Some (f, rw)
       else if pd' = pd \<and> PGNUM va' = PGNUM PFTEMP then None else aspace ?s2 pd' va')"
    "\<And>i. i < 4096 \<Longrightarrow> get_byte s' f i = get_byte ?s2 p i"
    "\<And>pd' va q fl. K pd' = KPD \<Longrightarrow> pdx va < 955 \<Longrightarrow> aspace s' pd' va = Some (q, fl) \<Longrightarrow> q \<noteq> f \<Longrightarrow> pmem s' q = pmem ?s2 q"
    by (rule pgfault_ok) (rule that)
  have fx: "f \<noteq> fx" using s'(3) Kx by auto
  have as: "aspace s' pd va' = (if PGNUM va' = PGNUM va then Some (f, rw) else if PGNUM va' = PGNUM PFTEMP then None else aspace s pd va')"
    if "pdx va' < 955" for va' using s'(4) [OF kcurD(3) [OF k] that] as2 [OF that] by simp
  obtain fl' where "aspace s' pd u = Some (fx, fl')" using as [OF u(3)] u va(3) by (auto simp: at_def)
  from s'(6) [OF kcurD(3) [OF k] u(3) this] fx have mx: "pmem s' fx = pmem ?s2 fx" by simp
  show thesis
  proof (rule that [OF _ s'(2,3) fx as])
    show "call_handler (c_pgfault clob) ra r s = Inr (r\<lparr>gprs := fst (clob (gprs r, eflags r)), eflags := snd (clob (gprs r, eflags r))\<rparr>, s')"
      using push arg s'(1) r by (cases r) (simp add: call_handler_def upush_def c_pgfault_def add_esp_def split: prod.split)
    show "get_byte s' f i = get_byte s p i" if "i < 4096" for i
      using s'(5) [OF that] pf by (simp add: get_byte_def pmem_set_word)
    show "pmem s' fx i = pmem s fx i" if "woff u \<le> i" for i
      using that B(3) unfolding mx by (auto simp: pmem_set_word)
  qed
qed

lemma masks: "x AND NOT m OR x AND m = (x :: u32)"
  by (rule bit_word_eqI) (auto simp: bit_simps)

section \<open>Properties\<close>


definition zero_regs :: PushRegs where
  "zero_regs = \<lparr>reg_edi = 0, reg_esi = 0, reg_ebp = 0, reg_oesp = 0, reg_ebx = 0, reg_edx = 0, reg_ecx = 0, reg_eax = 0\<rparr>"

definition sample_tf :: Trapframe where
  "sample_tf = \<lparr>tf_regs = zero_regs, tf_es = 0, tf_ds = 0, tf_trapno = 0, tf_err = 0, tf_eip = 0, tf_cs = 0, tf_eflags = 0,
     tf_esp = 0x100, tf_ss = 0\<rparr>"

lemma sample_frame: "i < 13 \<Longrightarrow> utrapframe 0 sample_tf ! i = (if i = 12 then 0x100 else 0)"
  by (simp add: utrapframe_def sample_tf_def zero_regs_def nth_Cons')

text \<open>The sample environment with a page at address 0 and on its exception stack the frame of a fault at that page.\<close>

lemma sample_fault:
  obtains p fx s1 s2 s3 K where "usys_page_alloc 0 0 rw user_state = Inr (0, s1)" "usys_page_alloc 0 xstack rw s1 = Inr (0, s2)"
    "ustore32 0xEEBFFFFC 0x100 s2 = Inr ((), s3)" "kcur K 0 2 s3" "on_xstack 2 0xEEBFFFCC fx s3"
    "\<forall>i<13. pmem s3 fx (woff 0xEEBFFFCC + i) = utrapframe 0 sample_tf ! i" "aspace s3 2 0 = Some (p, rw)" "2 \<le> card {q. K q = KFree}"
proof -
  note k = user_state(1)
  note D = kcurD [OF k]
  have va: "\<not> bad_va 0" by (simp add: bad_va_def)
  have "2 \<le> card {q. one_env_kinds q = KFree}" by (simp add: user_state(3))
  from k self_env(1) [OF k] D(6,7) va this obtain p s1 K1 where s1: "usys_page_alloc 0 0 rw user_state = Inr (0, s1)"
    "vm_step one_env_kinds user_state 2 0 (Some (p, rw)) K1 s1" "card {q. one_env_kinds q = KFree} \<le> card {q. K1 q = KFree} + 2"
    by (rule new_page) blast
  note V1 = vm_stepD [OF s1(2)] and k1 = kcur_step [OF k s1(2)]
  note D1 = kcurD [OF k1]
  have "2 \<le> card {q. K1 q = KFree}" using s1(3) by (simp add: user_state(3))
  from k1 self_env(1) [OF k1] D1(6,7) xstack_va(1) this obtain fx s2 K2 where s2: "usys_page_alloc 0 xstack rw s1 = Inr (0, s2)"
    "K1 fx = KFree" "vm_step K1 s1 2 xstack (Some (fx, rw)) K2 s2" "pmem s2 fx = (\<lambda>_. 0)" "card {q. K1 q = KFree} \<le> card {q. K2 q = KFree} + 2"
    by (rule new_page) blast
  note V2 = vm_stepD [OF s2(3)] and k2 = kcur_step [OF k1 s2(3)]
  note D2 = kcurD [OF k2]
  have a1: "aspace s1 2 va = (if PGNUM va = PGNUM 0 then Some (p, rw) else None)" if "pdx va < 955" for va
    using V1(3) [OF D(3) that] that unfolding user_state(4) by (simp add: aspace_def pte_of_def one_run_mem Let_def unat_PDX)
  have a2: "aspace s2 2 va = (if PGNUM va = PGNUM xstack then Some (fx, rw) else if PGNUM va = PGNUM 0 then Some (p, rw) else None)"
    if "pdx va < 955" for va using V2(3) [OF D1(3) that] a1 [OF that] by simp
  have pn: "PGNUM 0xEEBFFFCC = PGNUM xstack" "PGNUM 0xEEBFFFFC = PGNUM xstack" "PGNUM 0 \<noteq> PGNUM xstack" "PGNUM 0xEEBFFFCC \<noteq> PGNUM PFTEMP"
    "pdx 0xEEBFFFCC < 955" "pdx 0xEEBFFFFC < 955" "pdx 0 < 955" by (simp_all add: PGNUM_def unat_PDX)
  have o: "woff 0xEEBFFFFC = woff 0xEEBFFFCC + 12" "unat (PGOFF 0xEEBFFFCC) = 4044" by (simp_all add: woff_def unat_PGOFF)
  have pf: "p \<noteq> fx" using aspace_data [OF k1 D1(3) pn(7), of p rw] a1 [OF pn(7)] s2(2) by auto
  define s3 where "s3 = set_word fx (woff 0xEEBFFFFC) 0x100 s2"
  have "at 2 True 0xEEBFFFFC fx (woff 0xEEBFFFFC) s2" using a2 [OF pn(6)] pn(2,6) by (simp add: at_def)
  note A = at_access [OF k2 this]
  note k3 = at_set [OF k2 A(3), where j = "woff 0xEEBFFFFC" and w = "0x100", folded s3_def]
  have a3: "aspace s3 2 va = aspace s2 2 va" if "pdx va < 955" for va
    unfolding s3_def set_word_def using aspace_write [OF D2(2,3) A(3) that] .
  show thesis
  proof (rule that [OF s1(1) s2(1) _ k3(1)])
    show "ustore32 0xEEBFFFFC 0x100 s2 = Inr ((), s3)" using A(2) by (simp add: s3_def)
    show "on_xstack 2 0xEEBFFFCC fx s3"
      unfolding on_xstack_def using a2 a3 pn o(2) pf by (auto simp: at_def split: if_splits)
    show "\<forall>i<13. pmem s3 fx (woff 0xEEBFFFCC + i) = utrapframe 0 sample_tf ! i"
      using sample_frame s2(4) by (simp add: s3_def pmem_set_word o(1))
    show "aspace s3 2 0 = Some (p, rw)" using a2 [OF pn(7)] a3 [OF pn(7)] pn(3) by simp
    show "2 \<le> card {q. K2 q = KFree}" using s1(3) s2(5) by (simp add: user_state(3))
  qed
qed


end
