(* ===== verification/Spec2Isabelle.thy ===== *)
theory Spec2Isabelle
  imports Serv Pipe Kdebug Pfentry
begin

text \<open>
  A verification development of JOS, a teaching operating system with an exokernel, under src/: the kernel
  (src/kern), the file server (src/fs) and the user library (src/lib).

  The parts and how they interact. The kernel hands out physical pages, keeps page tables and environments
  (processes), schedules them on several processors under one lock, and serves system calls and traps. User programs
  build the rest from its calls: \<open>fork\<close> copies an address space lazily and handles the page faults that this causes itself; the
  file server keeps the disk in a cache that is filled by page faults and serves requests that arrive as messages
  with a page. Formatted output and the string routines are shared by all of them.

  Conventions. C functions are functions on a state that return a value of \<open>res\<close>: a result with the new state, or an
  exit (a panic, undefined behaviour such as a null pointer or an overflow of a signed type, leaving the kernel for user
  mode, the monitor, a halted processor). Machine integers are words. A pointer into an array is an index, any other
  pointer an address. Code that is not in the repository is a parameter: the contents of the tables of the debugger, the registers
  of devices, the C function behind a function pointer, the observations of a loop that races with other
  environments.

  Theories, in the order of their imports, with the source they model.

  \<^item> \<open>Prelude\<close>: results and loops, chains of links, rounding (inc/types.h), error codes (inc/error.h); the contracts
    \<open>free_list\<close> and \<open>bounded_queue\<close>.
  \<^item> \<open>Mmu\<close>, \<open>Kstate\<close>: addresses and layout (inc/mmu.h, inc/memlayout.h), the kernel's structures (inc/env.h, inc/trap.h,
    kern/pmap.h) as the record \<open>kstate\<close>.
  \<^item> \<open>PageAlloc\<close>, \<open>PageTable\<close>: kern/pmap.c. \<open>VmInv\<close> has the invariant \<open>vm_inv\<close> with a ghost function that gives every frame its
    role, \<open>VmOps\<close> proves that every operation keeps it and is an update of an abstract address space (\<open>aspace\<close>).
  \<^item> \<open>Spinlock\<close>: kern/spinlock.c as a step relation over any number of processors.
  \<^item> \<open>Console\<close>, \<open>E1000\<close>: the drivers kern/console.c and kern/e1000.c.
  \<^item> \<open>EnvMgr\<close>, \<open>EnvInv\<close>: kern/env.c and the invariant \<open>kernel_inv\<close> of environments and memory together.
  \<^item> \<open>UserMem\<close>, \<open>Uaccess\<close>: accesses through virtual addresses and \<open>user_mem_check\<close>.
  \<^item> \<open>Sched\<close>, \<open>Syscall\<close>, \<open>Trap\<close>: kern/sched.c, kern/syscall.c with kern/time.c and kern/printf.c, kern/trap.c with
    kern/trapentry.S. They show that the calls and traps keep the kernel invariant, and what the calls do on every branch.
  \<^item> \<open>Printf\<close>, \<open>CString\<close>: lib/printfmt.c, lib/printf.c and lib/string.c, over the contracts \<open>printer\<close>, \<open>printer_sim\<close> and
    \<open>ram\<close>; the kernel, the cache and user memory are interpretations of these.
  \<^item> \<open>Ulib\<close>, \<open>Fork\<close>, \<open>Pfentry\<close>: lib/syscall.c, lib/entry.S and lib/pageref.c; lib/fork.c and lib/pgfault.c; lib/pfentry.S. User code
    runs against the kernel model: its system calls are the kernel's handlers, its loads go through its page directory, and
    it reads the page tables through the window at \<open>UVPT\<close>. They show that \<open>fork\<close> is correct and that copy-on-write faults are
    transparent.
  \<^item> \<open>BlockCache\<close>, \<open>Fs\<close>, \<open>FsFiles\<close>, \<open>Serv\<close>: fs/bc.c with fs/ide.c, fs/fs.c and fs/serv.c. The cache refines the disk; on it files
    read back what was written, and flushing makes it durable.
  \<^item> \<open>Pipe\<close>: lib/pipe.c as interleaved steps of a reader and a writer. \<open>Kdebug\<close>: the search of kern/kdebug.c.
  \<^item> this theory: that the user library reads the numbers that it prints.

  Bounds. Loops are structural recursions or functions with a measure, except for three. \<open>vprintfmt\<close> gets as many rounds as
  the format has characters; every round consumes one, and \<open>vprintfmt_fuel\<close> shows that more rounds change nothing. The
  pointer loops of \<open>CString\<close> get \<open>2 ^ 32\<close> rounds, after which a pointer has passed every address. \<open>pipeisclosed_loop\<close> gets any number
  of rounds; it is proved to return if one round is not interrupted. Nested faults of the block cache are followed to depth three,
  which is enough as long as the super block stays mapped.

  Where the code does not do what its comments say, the theorems state what it does; for instance
  \<open>user_mem_check_wraps\<close>, \<open>sched_yield_last_slot\<close>, \<open>sys_cputs_empty_string_faults\<close>, \<open>file_block_walk_indirect\<close> and
  \<open>stab_binsearch_adjacent\<close>.

  Not modelled. The boot loader, the start of the kernel and of the other processors, and the drivers of the interrupt controllers,
  the clock and the PCI bus are sequences of accesses to ports and to processor state that no other part reads back. The
  monitor is interactive. \<open>mem_init\<close> puts modelled functions together with addresses of the linker. The self tests of
  kern/pmap.c and the programs in src/user are tests. The client side of the servers (lib/fd.c, lib/file.c, lib/sockets.c,
  lib/nsipc.c, lib/console.c), lib/spawn.c and the small helpers of src/lib, the network server (src/net) and the
  vendored network stack lwIP (src/net/lwip) are left out: they rest on the calls and routines modelled here and no
  modelled part depends on them. kern/env_g.c, kern/e1000_m.c and fs/fs_m.c are older copies that the build does not
  use.
\<close>

unbundle bit_operations_syntax

section \<open>Printing and parsing numbers\<close>

lemma collect_all: "forR collect xs out = Inr ((), out @ xs)"
  by (induction xs arbitrary: out) (simp_all add: collect_def)

lemma digit_bytes_printed: "d < 16 \<Longrightarrow> ucast (chr (digit_char d)) = digit_byte d"
proof -
  have "\<forall>d\<in>set [0..<16]. (ucast (chr (digit_char d)) :: u8) = digit_byte d" by code_simp
  then show "d < 16 \<Longrightarrow> ucast (chr (digit_char d)) = digit_byte d" by (auto simp del: upt_rec_numeral)
qed

lemma length_digits: "2 \<le> b \<Longrightarrow> length (digits b n) \<le> Suc n"
proof (induction b n rule: digits.induct)
  case (1 b n)
  have "n div b < n" if "\<not> n < b" using that "1.prems" by (intro div_less_dividend) auto
  then show ?case using 1 by (subst digits.simps) fastforce
qed

text \<open>C40. \<open>strtol\<close> reads what \<open>printnum\<close> prints: printing a number that fits in a \<open>long\<close> in a base from 2 to 16 without
  padding succeeds, and wherever its characters are in memory as a string, \<open>strtol\<close> with the same base returns the number and
  the position behind the last character.\<close>

theorem strtol_printnum:
  assumes "2 \<le> base" "base \<le> 16" "unat num \<le> 2147483647" "w \<le> 1"
  shows "\<exists>out. printnum collect num base w c [] = Inr ((), out) \<and>
    (\<forall>m p. cstr m p (map ucast out) \<longrightarrow> strtol flat_load p (int base) m = Inr ((int (unat num), p + of_nat (length out)), m))"
proof -
  let ?ds = "digits base (unat num)"
  have ne: "?ds \<noteq> []" by (subst digits.simps) simp
  have lt: "d < base" if "d \<in> set ?ds" for d using digits_less [OF assms(1) that] .
  have "printnum collect num base w c [] = Inr ((), map chr (map digit_char ?ds))"
    using ne assms(4) by (cases ?ds) (simp_all add: printnum_eq [OF assms(1,2)] collect_all Let_def)
  moreover have "map ucast (map chr (map digit_char ?ds)) = map digit_byte ?ds"
    using lt assms(2) digit_bytes_printed by force
  moreover have "strtol flat_load p (int base) m = Inr ((int (unat num), p + of_nat (length ?ds)), m)"
    if "cstr m p (map digit_byte ?ds)" for m p
    using strtol_digits [OF that ne lt assms(1,2)] digits_value [OF assms(1), of "unat num"]
      length_digits [OF assms(1), of "unat num"] assms(3) by simp
  ultimately show ?thesis by (metis length_map)
qed

theorem strtol_printnum_witness:
  "\<exists>out. printnum collect 255 16 0 CHR '' '' [] = Inr ((), out) \<and>
    (\<forall>m p. cstr m p (map ucast out) \<longrightarrow> strtol flat_load p 16 m = Inr ((255, p + of_nat (length out)), m))"
  using strtol_printnum [of 16 255 0 "CHR '' ''"] by simp

end
